(* ===== verification/Uc_Prelude.thy ===== *)
theory Uc_Prelude
  imports Main "HOL-Library.Word"
begin

text \<open>
  Shared vocabulary of the development: the names of the machine integers, the error
  codes of the engine, the collections of simplification rules that the component
  theories fill, and generic lemmas on lists, maps and words.
\<close>

unbundle bit_operations_syntax

type_synonym u8 = "8 word"
type_synonym u16 = "16 word"
type_synonym u32 = "32 word"
type_synonym u64 = "64 word"
type_synonym hwaddr = u64

text \<open>A heap address; \<open>None\<close> of \<open>ptr\<close> is the null pointer.\<close>

type_synonym addr = nat
type_synonym ptr = "addr option"

section \<open>Error codes\<close>

text \<open>The enumeration \<open>uc_err\<close> of \<open>include/unicorn/unicorn.h\<close>, in source order.\<close>

datatype uc_err =
    UC_ERR_OK
  | UC_ERR_NOMEM
  | UC_ERR_ARCH
  | UC_ERR_HANDLE
  | UC_ERR_MODE
  | UC_ERR_VERSION
  | UC_ERR_READ_UNMAPPED
  | UC_ERR_WRITE_UNMAPPED
  | UC_ERR_FETCH_UNMAPPED
  | UC_ERR_HOOK
  | UC_ERR_INSN_INVALID
  | UC_ERR_MAP
  | UC_ERR_WRITE_PROT
  | UC_ERR_READ_PROT
  | UC_ERR_FETCH_PROT
  | UC_ERR_ARG
  | UC_ERR_READ_UNALIGNED
  | UC_ERR_WRITE_UNALIGNED
  | UC_ERR_FETCH_UNALIGNED
  | UC_ERR_HOOK_EXIST
  | UC_ERR_RESOURCE
  | UC_ERR_EXCEPTION
  | UC_ERR_OVERFLOW

section \<open>Rule collections\<close>

named_theorems uc_simps \<open>unfolding rules of the small operations of a component\<close>
named_theorems inv_intros \<open>preservation of the components' invariants\<close>

section \<open>Lists and maps\<close>

lemma remove1_split:
  "x \<in> set xs \<Longrightarrow> \<exists>as bs. xs = as @ x # bs \<and> x \<notin> set as \<and> remove1 x xs = as @ bs"
proof -
  assume "x \<in> set xs"
  then obtain as bs where s: "xs = as @ x # bs" "x \<notin> set as"
    by (meson split_list_first)
  then have "remove1 x xs = as @ bs" by (simp add: remove1_append)
  with s show ?thesis by blast
qed

lemma count_list_remove1:
  "count_list (remove1 a xs) b = (if a = b then count_list xs b - 1 else count_list xs b)"
  by (induction xs) (auto simp: count_list_0_iff)

lemma distinct_count_list: "distinct xs \<Longrightarrow> count_list xs a = of_bool (a \<in> set xs)"
  by (induction xs) auto

lemma count_list_replicate [simp]: "count_list (replicate k a) b = (if a = b then k else 0)"
  by (induction k) auto

lemma filter_remove1_out: "\<not> P a \<Longrightarrow> filter P (remove1 a xs) = filter P xs"
  by (induction xs) auto

lemma last_snoc_if [simp]: "(if xs @ [x] = [] then a else b) = b"
  by simp

lemma map_cong_dom:
  "(\<And>a. a \<in> set xs \<Longrightarrow> f a = g a) \<Longrightarrow> map f xs = map g xs"
  by simp

end
