(* ===== verification/Ulist.thy ===== *)
theory Ulist
  imports Uc_Prelude
begin

text \<open>
  The singly linked list of \<open>src/unicorn/list.c\<close> on an explicit store of nodes.

  \<open>struct list\<close> is the record \<open>ulist\<close>: the head and tail pointers, the optional
  destructor, and the nodes that the list owns. A node is created only by
  \<open>list_insert\<close> and \<open>list_append\<close> and is linked into the list it was created for, so
  each list carries its own part of the heap. The destructor runs on a client state
  \<open>'s\<close>. The result of \<open>malloc\<close> is an argument: \<open>None\<close> is the null pointer. A loop over
  the nodes returns \<open>None\<close> when it follows a dangling pointer or does not end; the
  lemmas show that neither happens on a well-formed list.
\<close>

section \<open>Nodes and lists\<close>

record 'd list_item =
  item_next :: ptr
  item_data :: 'd

record ('d, 's) ulist =
  head :: ptr
  tail :: ptr
  delete_fn :: "('d \<Rightarrow> 's \<Rightarrow> 's) option"
  items :: "addr \<rightharpoonup> 'd list_item"

definition list_new :: "('d, 's) ulist" where
  "list_new = \<lparr>head = None, tail = None, delete_fn = None, items = Map.empty\<rparr>"

definition run_delete :: "('d \<Rightarrow> 's \<Rightarrow> 's) option \<Rightarrow> 'd \<Rightarrow> 's \<Rightarrow> 's" where
  "run_delete f d s = (case f of None \<Rightarrow> s | Some g \<Rightarrow> g d s)"

section \<open>Operations\<close>

partial_function (option) list_clear_loop ::
  "('d \<Rightarrow> 's \<Rightarrow> 's) option \<Rightarrow> ptr \<Rightarrow> (addr \<rightharpoonup> 'd list_item) \<Rightarrow> 's
    \<Rightarrow> ((addr \<rightharpoonup> 'd list_item) \<times> 's) option" where
  "list_clear_loop f cur h s =
     (case cur of
        None \<Rightarrow> Some (h, s)
      | Some a \<Rightarrow>
          (case h a of
             None \<Rightarrow> None
           | Some it \<Rightarrow>
               list_clear_loop f (item_next it) (h(a := None)) (run_delete f (item_data it) s)))"

definition list_clear :: "('d, 's) ulist \<Rightarrow> 's \<Rightarrow> (('d, 's) ulist \<times> 's) option" where
  "list_clear l s =
     map_option (\<lambda>(h, s'). (l\<lparr>head := None, tail := None, items := h\<rparr>, s'))
       (list_clear_loop (delete_fn l) (head l) (items l) s)"

definition list_insert :: "ptr \<Rightarrow> ('d, 's) ulist \<Rightarrow> 'd \<Rightarrow> ptr \<times> ('d, 's) ulist" where
  "list_insert m l d =
     (case m of
        None \<Rightarrow> (None, l)
      | Some a \<Rightarrow>
          (Some a,
           l\<lparr>tail := (if tail l = None then Some a else tail l),
             head := Some a,
             items := (items l)(a \<mapsto> \<lparr>item_next = head l, item_data = d\<rparr>)\<rparr>))"

text \<open>
  \<open>list->tail->next = item\<close> writes through the tail pointer; on a list whose tail
  dangles the write has no defined effect and the model leaves the nodes alone.
\<close>

definition set_next :: "ptr \<Rightarrow> ptr \<Rightarrow> (addr \<rightharpoonup> 'd list_item) \<Rightarrow> (addr \<rightharpoonup> 'd list_item)" where
  "set_next p n h =
     (case p of
        None \<Rightarrow> h
      | Some a \<Rightarrow> (case h a of None \<Rightarrow> h | Some it \<Rightarrow> h(a \<mapsto> it\<lparr>item_next := n\<rparr>)))"

definition list_append :: "ptr \<Rightarrow> ('d, 's) ulist \<Rightarrow> 'd \<Rightarrow> ptr \<times> ('d, 's) ulist" where
  "list_append m l d =
     (case m of
        None \<Rightarrow> (None, l)
      | Some a \<Rightarrow>
          (let h = (items l)(a \<mapsto> \<lparr>item_next = None, item_data = d\<rparr>)
           in (Some a,
               if head l = None
               then l\<lparr>head := Some a, tail := Some a, items := h\<rparr>
               else l\<lparr>tail := Some a, items := set_next (tail l) (Some a) h\<rparr>)))"

partial_function (option) list_remove_loop ::
  "'d \<Rightarrow> ptr \<Rightarrow> ptr \<Rightarrow> ('d, 's) ulist \<Rightarrow> 's \<Rightarrow> (bool \<times> ('d, 's) ulist \<times> 's) option" where
  "list_remove_loop d prev cur l s =
     (case cur of
        None \<Rightarrow> Some (False, l, s)
      | Some a \<Rightarrow>
          (case items l a of
             None \<Rightarrow> None
           | Some it \<Rightarrow>
               if item_data it = d then
                 (let l1 = (if cur = head l then l\<lparr>head := item_next it\<rparr>
                            else l\<lparr>items := set_next prev (item_next it) (items l)\<rparr>);
                      l2 = (if cur = tail l1 then l1\<lparr>tail := prev\<rparr> else l1);
                      s' = run_delete (delete_fn l2) (item_data it) s
                  in Some (True, l2\<lparr>items := (items l2)(a := None)\<rparr>, s'))
               else list_remove_loop d cur (item_next it) l s))"

definition list_remove :: "('d, 's) ulist \<Rightarrow> 'd \<Rightarrow> 's \<Rightarrow> (bool \<times> ('d, 's) ulist \<times> 's) option" where
  "list_remove l d s =
     (if head l = None then Some (False, l, s) else list_remove_loop d None (head l) l s)"

partial_function (option) list_exists_loop ::
  "'d \<Rightarrow> ptr \<Rightarrow> (addr \<rightharpoonup> 'd list_item) \<Rightarrow> bool option" where
  "list_exists_loop d cur h =
     (case cur of
        None \<Rightarrow> Some False
      | Some a \<Rightarrow>
          (case h a of
             None \<Rightarrow> None
           | Some it \<Rightarrow> if item_data it = d then Some True else list_exists_loop d (item_next it) h))"

definition list_exists :: "('d, 's) ulist \<Rightarrow> 'd \<Rightarrow> bool option" where
  "list_exists l d =
     (if head l = None then Some False else list_exists_loop d (head l) (items l))"

section \<open>Representation\<close>

text \<open>\<open>seg h p as q\<close>: from \<open>p\<close> the \<open>next\<close> pointers lead through the nodes \<open>as\<close> to \<open>q\<close>.\<close>

fun seg :: "(addr \<rightharpoonup> 'd list_item) \<Rightarrow> ptr \<Rightarrow> addr list \<Rightarrow> ptr \<Rightarrow> bool" where
  "seg h p [] q \<longleftrightarrow> p = q"
| "seg h p (a # as) q \<longleftrightarrow>
     p = Some a \<and> (case h a of None \<Rightarrow> False | Some it \<Rightarrow> seg h (item_next it) as q)"

definition nodes_data :: "(addr \<rightharpoonup> 'd list_item) \<Rightarrow> addr list \<Rightarrow> 'd list" where
  "nodes_data h as = map (\<lambda>a. item_data (the (h a))) as"

definition last_ptr :: "addr list \<Rightarrow> ptr" where
  "last_ptr as = (if as = [] then None else Some (last as))"

text \<open>
  A list is well formed over the nodes \<open>as\<close>: the chain from the head is \<open>as\<close> and ends
  in null, the tail is its last node, and the list owns no other node.
\<close>

definition list_nodes :: "('d, 's) ulist \<Rightarrow> addr list \<Rightarrow> bool" where
  "list_nodes l as \<longleftrightarrow>
     seg (items l) (head l) as None \<and> distinct as \<and> dom (items l) = set as \<and>
     tail l = last_ptr as"

definition list_rep :: "('d, 's) ulist \<Rightarrow> 'd list \<Rightarrow> bool" where
  "list_rep l ds \<longleftrightarrow> (\<exists>as. list_nodes l as \<and> ds = nodes_data (items l) as)"


section \<open>Segments\<close>

lemma seg_append:
  "seg h p (as @ bs) q \<longleftrightarrow> (\<exists>r. seg h p as r \<and> seg h r bs q)"
  by (induction as arbitrary: p) (auto split: option.splits)

lemma seg_dom: "seg h p as q \<Longrightarrow> set as \<subseteq> dom h"
  by (induction as arbitrary: p) (auto split: option.splits)

lemma seg_update [simp]: "a \<notin> set as \<Longrightarrow> seg (h(a := x)) p as q = seg h p as q"
  by (induction as arbitrary: p) (auto split: option.splits)

lemma seg_det: "seg h p as q \<Longrightarrow> seg h p as q' \<Longrightarrow> q = q'"
  by (induction as arbitrary: p) (auto split: option.splits)

lemma seg_unique: "seg h p as None \<Longrightarrow> seg h p bs None \<Longrightarrow> as = bs"
proof (induction as arbitrary: p bs)
  case Nil
  then show ?case by (cases bs) auto
next
  case (Cons a as)
  then show ?case by (cases bs) (auto split: option.splits)
qed

lemma seg_None [simp]: "seg h None as None \<longleftrightarrow> as = []"
  by (cases as) auto

lemma nodes_data_simps [simp]:
  "nodes_data h [] = []"
  "nodes_data h (a # as) = item_data (the (h a)) # nodes_data h as"
  "nodes_data h (as @ bs) = nodes_data h as @ nodes_data h bs"
  by (simp_all add: nodes_data_def)

lemma nodes_data_update [simp]: "a \<notin> set as \<Longrightarrow> nodes_data (h(a := x)) as = nodes_data h as"
  by (simp add: nodes_data_def)

lemma nodes_data_set_next [simp]: "nodes_data (set_next p n h) as = nodes_data h as"
  by (auto simp: nodes_data_def set_next_def split: option.splits)

lemma dom_set_next [simp]: "dom (set_next p n h) = dom h"
  by (auto simp: set_next_def split: option.splits)

lemma seg_set_next_notin [simp]:
  "a \<notin> set as \<Longrightarrow> seg (set_next (Some a) n h) p as q = seg h p as q"
  by (simp add: set_next_def split: option.splits)

lemma seg_set_next_last:
  "seg h p (as @ [a]) r \<Longrightarrow> a \<notin> set as \<Longrightarrow> seg (set_next (Some a) n h) p (as @ [a]) n"
  by (auto simp: set_next_def seg_append split: option.splits)

lemma last_ptr_simps [simp]:
  "last_ptr [] = None" "last_ptr (as @ [a]) = Some a" "last_ptr as = None \<longleftrightarrow> as = []"
  by (simp_all add: last_ptr_def)

lemma list_nodes_unique: "list_nodes l as \<Longrightarrow> list_nodes l bs \<Longrightarrow> as = bs"
  by (auto simp: list_nodes_def intro: seg_unique)

lemma list_rep_unique: "list_rep l ds \<Longrightarrow> list_rep l es \<Longrightarrow> ds = es"
  by (auto simp: list_rep_def dest: list_nodes_unique)

section \<open>Behaviour on well-formed lists\<close>

lemma list_rep_new: "list_rep list_new []"
  by (auto simp: list_rep_def list_nodes_def list_new_def)

lemma list_nodes_insert:
  assumes "list_nodes l as" and "a \<notin> dom (items l)"
  shows "list_nodes (snd (list_insert (Some a) l d)) (a # as)"
    and "nodes_data (items (snd (list_insert (Some a) l d))) (a # as)
           = d # nodes_data (items l) as"
  using assms
  by (auto simp: list_nodes_def list_insert_def last_ptr_def)

lemma list_nodes_append:
  assumes wf: "list_nodes l as" and fresh: "a \<notin> dom (items l)"
  shows "list_nodes (snd (list_append (Some a) l d)) (as @ [a])
    \<and> nodes_data (items (snd (list_append (Some a) l d))) (as @ [a]) = nodes_data (items l) as @ [d]"
proof (cases as rule: rev_cases)
  case Nil
  with wf fresh show ?thesis
    by (auto simp: list_nodes_def list_append_def last_ptr_def)
next
  case (snoc bs b)
  from wf snoc have sg: "seg (items l) (head l) (bs @ [b]) None" and d: "distinct (bs @ [b])"
    and dm: "dom (items l) = set (bs @ [b])" and tl: "tail l = Some b"
    by (auto simp: list_nodes_def)
  from sg have hd: "head l \<noteq> None" by (cases bs) auto
  from dm fresh have na: "a \<notin> set (bs @ [b])" by simp
  let ?h = "(items l)(a \<mapsto> \<lparr>item_next = None, item_data = d\<rparr>)"
  have "seg ?h (head l) (bs @ [b]) None" using sg seg_update [OF na] by blast
  then have "seg (set_next (Some b) (Some a) ?h) (head l) (bs @ [b]) (Some a)"
    using d by (intro seg_set_next_last) auto
  moreover have "seg (set_next (Some b) (Some a) ?h) (Some a) [a] None"
    using na by (auto simp: set_next_def split: option.splits)
  ultimately have "seg (set_next (Some b) (Some a) ?h) (head l) ((bs @ [b]) @ [a]) None"
    by (subst seg_append) blast
  then have sg': "seg (set_next (Some b) (Some a) ?h) (head l) (as @ [a]) None"
    by (simp only: snoc)
  have l': "snd (list_append (Some a) l d)
      = l\<lparr>tail := Some a, items := set_next (Some b) (Some a) ?h\<rparr>"
    using hd tl by (auto simp: list_append_def Let_def)
  have "nodes_data (set_next (Some b) (Some a) ?h) (as @ [a]) = nodes_data ?h (as @ [a])"
    by (rule nodes_data_set_next)
  also have "\<dots> = nodes_data (items l) as @ [d]"
    using na snoc nodes_data_update [of a as "items l"] by simp
  finally have nd: "nodes_data (set_next (Some b) (Some a) ?h) (as @ [a])
      = nodes_data (items l) as @ [d]" .
  have "list_nodes (snd (list_append (Some a) l d)) (as @ [a])"
    unfolding l' list_nodes_def using sg' wf na snoc by (auto simp: list_nodes_def last_ptr_def)
  with nd show ?thesis unfolding l' by simp
qed

lemma list_exists_loop_seg:
  "seg h p as None \<Longrightarrow> list_exists_loop d p h = Some (d \<in> set (nodes_data h as))"
  by (induction as arbitrary: p; subst list_exists_loop.simps) (auto split: option.splits)

lemma list_clear_loop_seg:
  assumes "seg h p as None" and "distinct as" and "dom h = set as"
  shows "list_clear_loop f p h s = Some (Map.empty, fold (run_delete f) (nodes_data h as) s)"
  using assms
proof (induction as arbitrary: p h s)
  case Nil
  then show ?case by (subst list_clear_loop.simps) auto
next
  case (Cons a as)
  then obtain it where it: "p = Some a" "h a = Some it" "seg h (item_next it) as None"
    by (auto split: option.splits)
  have na: "a \<notin> set as" and ds: "distinct as" using Cons.prems(2) by auto
  have sg: "seg (h(a := None)) (item_next it) as None" using it(3) seg_update [OF na] by blast
  have dm: "dom (h(a := None)) = set as" using Cons.prems(3) na by auto
  have "list_clear_loop f (item_next it) (h(a := None)) (run_delete f (item_data it) s)
       = Some (Map.empty, fold (run_delete f) (nodes_data h as) (run_delete f (item_data it) s))"
    unfolding Cons.IH [OF sg ds dm] nodes_data_update [OF na] ..
  then show ?case
    using it by (subst list_clear_loop.simps) simp
qed


lemma set_next_seg_skip:
  assumes "seg h p (bs @ b # a # cs) None" and "distinct (bs @ b # a # cs)" and "h a = Some it"
  shows "seg (set_next (Some b) (item_next it) h) p (bs @ b # cs) None"
proof -
  from assms(1,3) have s: "seg h p (bs @ [b]) (Some a)" "seg h (item_next it) cs None"
    by (auto simp: seg_append split: option.splits)
  have "seg (set_next (Some b) (item_next it) h) p (bs @ [b]) (item_next it)"
    using s(1) assms(2) by (intro seg_set_next_last) auto
  moreover have "seg (set_next (Some b) (item_next it) h) (item_next it) cs None"
    using s(2) assms(2) by simp
  ultimately have "seg (set_next (Some b) (item_next it) h) p ((bs @ [b]) @ cs) None"
    by (subst seg_append) blast
  then show ?thesis by simp
qed

text \<open>
  What the removal of \<open>d\<close> from a list over the nodes \<open>as\<close> returns: the first node that
  holds \<open>d\<close> is unlinked and freed and its data destroyed once, or nothing changes.
\<close>

definition removal_of :: "('d, 's) ulist \<Rightarrow> 'd \<Rightarrow> 's \<Rightarrow> addr list
    \<Rightarrow> (bool \<times> ('d, 's) ulist \<times> 's) option \<Rightarrow> bool" where
  "removal_of l d s as r \<longleftrightarrow>
     (if d \<in> set (nodes_data (items l) as)
      then \<exists>bs a cs l'. as = bs @ a # cs \<and> item_data (the (items l a)) = d
        \<and> d \<notin> set (nodes_data (items l) bs)
        \<and> r = Some (True, l', run_delete (delete_fn l) d s)
        \<and> list_nodes l' (bs @ cs)
        \<and> nodes_data (items l') (bs @ cs) = nodes_data (items l) (bs @ cs)
        \<and> delete_fn l' = delete_fn l
      else r = Some (False, l, s))"

lemma list_remove_loop_hit:
  assumes wf: "list_nodes l (bs @ a # cs)" and it: "items l a = Some it" "item_data it = d"
    and prev: "prev = last_ptr bs" and new: "d \<notin> set (nodes_data (items l) bs)"
  shows "removal_of l d s (bs @ a # cs) (list_remove_loop d prev (Some a) l s)"
proof -
  have dist: "distinct (bs @ a # cs)" and dm: "dom (items l) = set (bs @ a # cs)"
    and tl: "tail l = last_ptr (bs @ a # cs)" and sg: "seg (items l) (head l) (bs @ a # cs) None"
    using wf by (auto simp: list_nodes_def)
  have sgc: "seg (items l) (item_next it) cs None" using sg it by (auto simp: seg_append split: option.splits)
  define l1 where "l1 = (if Some a = head l then l\<lparr>head := item_next it\<rparr>
      else l\<lparr>items := set_next prev (item_next it) (items l)\<rparr>)"
  define l2 where "l2 = (if Some a = tail l1 then l1\<lparr>tail := prev\<rparr> else l1)"
  define l3 where "l3 = l2\<lparr>items := (items l2)(a := None)\<rparr>"
  have run: "list_remove_loop d prev (Some a) l s = Some (True, l3, run_delete (delete_fn l) d s)"
    using it unfolding l3_def l2_def l1_def
    by (subst list_remove_loop.simps) (simp add: Let_def)
  have hd: "Some a = head l \<longleftrightarrow> bs = []"
    using sg dist by (cases bs) auto
  have tl1: "tail l1 = tail l" "items l2 = items l1" "head l2 = head l1" "delete_fn l3 = delete_fn l"
    by (simp_all add: l1_def l2_def l3_def)
  have it1: "items l1 = (if bs = [] then items l else set_next prev (item_next it) (items l))"
    and hd1: "head l1 = (if bs = [] then item_next it else head l)"
    using hd by (auto simp: l1_def)
  have sg1: "seg (items l1) (head l1) (bs @ cs) None"
  proof (cases bs rule: rev_cases)
    case Nil
    with sgc show ?thesis by (simp add: it1 hd1)
  next
    case (snoc bs' b)
    then show ?thesis
      using set_next_seg_skip [of "items l" "head l" bs' b a cs it] sg dist it prev
      by (simp add: it1 hd1 last_ptr_def)
  qed
  have na: "a \<notin> set (bs @ cs)" using dist by auto
  have "seg (items l3) (head l3) (bs @ cs) None"
    using sg1 tl1 by (simp add: l3_def seg_update [OF na])
  moreover have "dom (items l3) = set (bs @ cs)"
    using dm dist by (auto simp: l3_def tl1 it1)
  moreover have "tail l3 = last_ptr (bs @ cs)"
    using tl dist prev tl1 by (auto simp: l3_def l2_def last_ptr_def)
  ultimately have "list_nodes l3 (bs @ cs)"
    using dist by (simp add: list_nodes_def)
  moreover have "nodes_data (items l3) (bs @ cs) = nodes_data (items l) (bs @ cs)"
    using na by (simp add: l3_def tl1 it1)
  moreover have hit: "d \<in> set (nodes_data (items l) (bs @ a # cs))" using it by simp
  ultimately show ?thesis
    unfolding removal_of_def if_P [OF hit]
    using run new it tl1(4)
    by (intro exI [of _ bs] exI [of _ a] exI [of _ cs] exI [of _ l3] conjI) simp_all
qed

text \<open>
  The loop started in the middle of the list: \<open>bs\<close> are the nodes it has passed, none of
  which holds \<open>d\<close>, and \<open>cs\<close> are the nodes ahead.
\<close>

lemma list_remove_loop_nodes:
  assumes "list_nodes l (bs @ cs)" and "seg (items l) cur cs None" and "prev = last_ptr bs"
    and "d \<notin> set (nodes_data (items l) bs)"
  shows "removal_of l d s (bs @ cs) (list_remove_loop d prev cur l s)"
  using assms
proof (induction cs arbitrary: bs cur prev)
  case Nil
  then show ?case by (subst list_remove_loop.simps) (simp add: removal_of_def)
next
  case (Cons a cs)
  then obtain it where it: "cur = Some a" "items l a = Some it" "seg (items l) (item_next it) cs None"
    by (auto split: option.splits)
  show ?case
  proof (cases "item_data it = d")
    case True
    then show ?thesis using list_remove_loop_hit Cons.prems it by metis
  next
    case False
    have "removal_of l d s ((bs @ [a]) @ cs) (list_remove_loop d cur (item_next it) l s)"
      using Cons.prems it False by (intro Cons.IH) auto
    moreover have "list_remove_loop d prev cur l s = list_remove_loop d cur (item_next it) l s"
      using it False by (subst list_remove_loop.simps) simp
    ultimately show ?thesis by simp
  qed
qed

text \<open>The operations in terms of the sequence of data that the list holds.\<close>

lemma list_rep_insert:
  assumes "list_rep l ds" and "a \<notin> dom (items l)"
  shows "fst (list_insert (Some a) l d) = Some a \<and> list_rep (snd (list_insert (Some a) l d)) (d # ds)"
proof -
  from assms(1) obtain as where "list_nodes l as" "ds = nodes_data (items l) as"
    by (auto simp: list_rep_def)
  with list_nodes_insert [OF this(1) assms(2), of d]
  have "list_rep (snd (list_insert (Some a) l d)) (d # ds)"
    unfolding list_rep_def by metis
  then show ?thesis by (simp add: list_insert_def)
qed

lemma list_rep_append:
  assumes "list_rep l ds" and "a \<notin> dom (items l)"
  shows "fst (list_append (Some a) l d) = Some a \<and> list_rep (snd (list_append (Some a) l d)) (ds @ [d])"
proof -
  from assms(1) obtain as where "list_nodes l as" "ds = nodes_data (items l) as"
    by (auto simp: list_rep_def)
  with list_nodes_append [OF this(1) assms(2), of d]
  have "list_rep (snd (list_append (Some a) l d)) (ds @ [d])"
    unfolding list_rep_def by metis
  then show ?thesis by (simp add: list_append_def Let_def)
qed

lemma list_rep_exists: "list_rep l ds \<Longrightarrow> list_exists l d = Some (d \<in> set ds)"
  by (auto simp: list_rep_def list_nodes_def list_exists_def list_exists_loop_seg)

lemma list_rep_clear:
  assumes "list_rep l ds"
  shows "\<exists>l'. list_clear l s = Some (l', fold (run_delete (delete_fn l)) ds s)
    \<and> list_rep l' [] \<and> delete_fn l' = delete_fn l \<and> items l' = Map.empty"
  using assms
  by (auto simp: list_rep_def list_nodes_def list_clear_def list_clear_loop_seg
        intro!: exI [of _ "[]"])

lemma list_rep_remove:
  assumes "list_rep l ds"
  shows "\<exists>l'. list_remove l d s =
      Some (d \<in> set ds, l', if d \<in> set ds then run_delete (delete_fn l) d s else s)
    \<and> list_rep l' (remove1 d ds) \<and> delete_fn l' = delete_fn l"
proof -
  from assms obtain as where wf: "list_nodes l as" and ds: "ds = nodes_data (items l) as"
    by (auto simp: list_rep_def)
  show ?thesis
  proof (cases "head l = None")
    case True
    with wf have "as = []" by (auto simp: list_nodes_def)
    with True ds assms show ?thesis by (simp add: list_remove_def)
  next
    case False
    have "removal_of l d s ([] @ as) (list_remove_loop d None (head l) l s)"
      using wf by (intro list_remove_loop_nodes) (auto simp: list_nodes_def)
    then have r: "removal_of l d s as (list_remove l d s)"
      using False by (auto simp: list_remove_def)
    show ?thesis
    proof (cases "d \<in> set ds")
      case True
      with r ds obtain bs a cs l' where e: "as = bs @ a # cs" "item_data (the (items l a)) = d"
          "d \<notin> set (nodes_data (items l) bs)"
          "list_remove l d s = Some (True, l', run_delete (delete_fn l) d s)"
          "list_nodes l' (bs @ cs)" "nodes_data (items l') (bs @ cs) = nodes_data (items l) (bs @ cs)"
          "delete_fn l' = delete_fn l"
        unfolding removal_of_def by auto
      have "remove1 d ds = nodes_data (items l') (bs @ cs)"
        using e ds by (simp add: remove1_append)
      with e True show ?thesis by (auto simp: list_rep_def)
    next
      case False
      with r ds assms show ?thesis by (simp add: removal_of_def remove1_idem)
    qed
  qed
qed

section \<open>The contract of a linked list\<close>

text \<open>
  What the clients of a list rely on: a representation as a sequence, fresh node
  addresses, and one law per operation.
\<close>

locale linked_list =
  fixes rep :: "'l \<Rightarrow> 'd list \<Rightarrow> bool"
    and owned :: "'l \<Rightarrow> addr set"
    and destroy :: "'l \<Rightarrow> 'd \<Rightarrow> 's \<Rightarrow> 's"
    and ins :: "ptr \<Rightarrow> 'l \<Rightarrow> 'd \<Rightarrow> ptr \<times> 'l"
    and app :: "ptr \<Rightarrow> 'l \<Rightarrow> 'd \<Rightarrow> ptr \<times> 'l"
    and rem :: "'l \<Rightarrow> 'd \<Rightarrow> 's \<Rightarrow> (bool \<times> 'l \<times> 's) option"
    and mem :: "'l \<Rightarrow> 'd \<Rightarrow> bool option"
    and clr :: "'l \<Rightarrow> 's \<Rightarrow> ('l \<times> 's) option"
  assumes rep_fun: "rep l ds \<Longrightarrow> rep l es \<Longrightarrow> ds = es"
    and rep_ins: "rep l ds \<Longrightarrow> a \<notin> owned l \<Longrightarrow> rep (snd (ins (Some a) l d)) (d # ds)"
    and rep_app: "rep l ds \<Longrightarrow> a \<notin> owned l \<Longrightarrow> rep (snd (app (Some a) l d)) (ds @ [d])"
    and rep_rem: "rep l ds \<Longrightarrow> \<exists>l'. rem l d s
        = Some (d \<in> set ds, l', if d \<in> set ds then destroy l d s else s) \<and> rep l' (remove1 d ds)"
    and rep_mem: "rep l ds \<Longrightarrow> mem l d = Some (d \<in> set ds)"
    and rep_clr: "rep l ds \<Longrightarrow> \<exists>l'. clr l s = Some (l', fold (destroy l) ds s) \<and> rep l' []"
    and ins_null: "ins None l d = (None, l)"
    and app_null: "app None l d = (None, l)"
    and ins_ptr: "fst (ins (Some a) l d) = Some a"
    and app_ptr: "fst (app (Some a) l d) = Some a"
    and destroy_app: "destroy (snd (app m l d)) = destroy l"
    and destroy_ins: "destroy (snd (ins m l d)) = destroy l"
begin

text \<open>An element just added is found, and one removal of it restores the sequence.\<close>

lemma app_mem: "rep l ds \<Longrightarrow> a \<notin> owned l \<Longrightarrow> mem (snd (app (Some a) l d)) d = Some True"
  using rep_mem [OF rep_app, of l ds a d d] by simp

lemma ins_rem:
  assumes "rep l ds" and "a \<notin> owned l"
  shows "\<exists>l'. rem (snd (ins (Some a) l d)) d s = Some (True, l', destroy l d s) \<and> rep l' ds"
  using rep_rem [OF rep_ins [OF assms], of d d s] by (simp add: destroy_ins)

lemma app_rem:
  assumes "rep l ds" and "a \<notin> owned l" and "d \<notin> set ds"
  shows "\<exists>l'. rem (snd (app (Some a) l d)) d s = Some (True, l', destroy l d s) \<and> rep l' ds"
  using rep_rem [OF rep_app [OF assms(1,2)], of d d s] assms(3)
  by (simp add: destroy_app remove1_append remove1_idem)

lemma rem_absent:
  assumes "rep l ds" and "d \<notin> set ds"
  shows "\<exists>l'. rem l d s = Some (False, l', s) \<and> rep l' ds"
  using rep_rem [OF assms(1), of d s] assms(2) by (simp add: remove1_idem)

end

definition list_owned :: "('d, 's) ulist \<Rightarrow> addr set" where
  "list_owned l = dom (items l)"

definition list_destroy :: "('d, 's) ulist \<Rightarrow> 'd \<Rightarrow> 's \<Rightarrow> 's" where
  "list_destroy l = run_delete (delete_fn l)"

lemma delete_fn_insert [simp]: "delete_fn (snd (list_insert m l d)) = delete_fn l"
  by (simp add: list_insert_def split: option.splits)

lemma delete_fn_append [simp]: "delete_fn (snd (list_append m l d)) = delete_fn l"
  by (simp add: list_append_def Let_def split: option.splits)

interpretation ul: linked_list list_rep list_owned list_destroy
  list_insert list_append list_remove list_exists list_clear
proof
  show "list_rep l ds \<Longrightarrow> list_rep l es \<Longrightarrow> ds = es"
    for l :: "('d, 's) ulist" and ds es by (rule list_rep_unique)
  show "list_rep l ds \<Longrightarrow> a \<notin> list_owned l \<Longrightarrow> list_rep (snd (list_insert (Some a) l d)) (d # ds)"
    for l :: "('d, 's) ulist" and ds a d by (simp add: list_rep_insert list_owned_def)
  show "list_rep l ds \<Longrightarrow> a \<notin> list_owned l \<Longrightarrow> list_rep (snd (list_append (Some a) l d)) (ds @ [d])"
    for l :: "('d, 's) ulist" and ds a d by (simp add: list_rep_append list_owned_def)
  show "list_rep l ds \<Longrightarrow> \<exists>l'. list_remove l d s
      = Some (d \<in> set ds, l', if d \<in> set ds then list_destroy l d s else s) \<and> list_rep l' (remove1 d ds)"
    for l :: "('d, 's) ulist" and ds d s
    unfolding list_destroy_def by (drule list_rep_remove [of _ _ d s]) blast
  show "list_rep l ds \<Longrightarrow> list_exists l d = Some (d \<in> set ds)"
    for l :: "('d, 's) ulist" and ds d by (rule list_rep_exists)
  show "list_rep l ds \<Longrightarrow> \<exists>l'. list_clear l s = Some (l', fold (list_destroy l) ds s) \<and> list_rep l' []"
    for l :: "('d, 's) ulist" and ds s
    unfolding list_destroy_def by (drule list_rep_clear [of _ _ s]) blast
qed (auto simp: list_insert_def list_append_def Let_def list_destroy_def fun_eq_iff split: option.splits)

section \<open>Properties\<close>

text \<open>
  Appending to a well-formed list adds the element at the end, inserting adds it at
  the front, both return the new node, and when \<open>malloc\<close> fails the list is unchanged
  and null is returned.
\<close>

theorem list_add_correct:
  assumes "list_rep l ds" and "a \<notin> dom (items l)"
  shows "list_rep (snd (list_append (Some a) l d)) (ds @ [d])
    \<and> list_rep (snd (list_insert (Some a) l d)) (d # ds)
    \<and> fst (list_append (Some a) l d) = Some a \<and> fst (list_insert (Some a) l d) = Some a
    \<and> list_append None l d = (None, l) \<and> list_insert None l d = (None, l)"
  using assms by (simp add: ul.rep_app ul.rep_ins ul.ins_null ul.app_null ul.ins_ptr ul.app_ptr list_owned_def)

theorem list_add_correct_witness:
  "list_rep (snd (list_append (Some 3) (snd (list_append (Some 7) (list_new :: (int, nat) ulist) 5)) 6)) [5, 6]"
proof -
  let ?l = "snd (list_append (Some 7) (list_new :: (int, nat) ulist) 5)"
  have n: "list_rep (list_new :: (int, nat) ulist) []" "7 \<notin> dom (items (list_new :: (int, nat) ulist))"
    by (simp_all add: list_rep_new) (simp add: list_new_def)
  have "list_rep ?l ([] @ [5])"
    using list_add_correct [OF n, of 5] by simp
  moreover have "3 \<notin> dom (items ?l)" by (simp add: list_append_def list_new_def)
  ultimately show ?thesis using list_add_correct [of ?l _ 3 6] by fastforce
qed

text \<open>
  Removal from a well-formed list always returns; it reports whether the datum was
  present, unlinks exactly its first occurrence, runs the destructor once on it and
  never otherwise, and the result is well formed again.
\<close>

theorem list_remove_correct:
  assumes "list_rep l ds"
  shows "\<exists>l'. list_remove l d s
      = Some (d \<in> set ds, l', if d \<in> set ds then run_delete (delete_fn l) d s else s)
    \<and> list_rep l' (remove1 d ds)"
  using ul.rep_rem [OF assms, of d s] unfolding list_destroy_def .

theorem list_remove_correct_witness:
  "\<exists>l'. list_remove (snd (list_append (Some 3) (snd (list_append (Some 7) list_new (5 :: int))) 6)) 5 (0 :: nat)
      = Some (True, l', 0) \<and> list_rep l' [6]"
proof -
  let ?l = "snd (list_append (Some 7) (list_new :: (int, nat) ulist) 5)"
  have n: "list_rep (list_new :: (int, nat) ulist) []" "7 \<notin> dom (items (list_new :: (int, nat) ulist))"
    by (simp_all add: list_rep_new) (simp add: list_new_def)
  have "list_rep ?l ([] @ [5])"
    using list_rep_append [OF n, of 5] by simp
  moreover have "3 \<notin> dom (items ?l)" by (simp add: list_append_def list_new_def)
  ultimately have r: "list_rep (snd (list_append (Some 3) ?l 6)) [5, 6]"
    using list_rep_append [of ?l _ 3 6] by fastforce
  show ?thesis
    using list_remove_correct [OF r, of 5 0] by (simp add: run_delete_def list_new_def)
qed

text \<open>
  Clearing a well-formed list always returns; it runs the destructor on every datum
  in list order, frees every node, and leaves an empty list.
\<close>

theorem list_clear_correct:
  assumes "list_rep l ds"
  shows "\<exists>l'. list_clear l s = Some (l', fold (run_delete (delete_fn l)) ds s)
    \<and> list_rep l' [] \<and> items l' = Map.empty \<and> delete_fn l' = delete_fn l"
  using list_rep_clear [OF assms] by blast

theorem list_clear_correct_witness:
  "\<exists>l'. list_clear ((snd (list_append (Some 7) list_new (5 :: int)))\<lparr>delete_fn := Some (\<lambda>d n. Suc n)\<rparr>) 0
      = Some (l', Suc 0) \<and> list_rep l' []"
proof -
  let ?l = "(snd (list_append (Some 7) list_new (5 :: int)))\<lparr>delete_fn := Some (\<lambda>d n. Suc n)\<rparr>"
  have "list_rep ?l [5]"
    by (auto simp: list_rep_def list_nodes_def list_append_def list_new_def last_ptr_def
        intro!: exI [of _ "[7]"])
  from list_clear_correct [OF this, of 0] show ?thesis by (auto simp: run_delete_def)
qed

end
