(* ===== verification/Hooks.thy ===== *)
theory Hooks
  imports Ulist
begin

text \<open>
  The hook registry of \<open>src/unicorn/uc.c\<close>: \<open>hook_insert\<close>, \<open>hook_append\<close>,
  \<open>hook_delete\<close>, \<open>uc_hook_add\<close>, \<open>uc_hook_del\<close> and \<open>clear_deleted_hooks\<close>, with the bound
  check of \<open>include/uc_priv.h\<close>. Theory \<open>Emu\<close> models how hooks are called.

  \<open>struct hook\<close> objects live in a heap \<open>hook_heap\<close> and are freed when their reference
  count drops to zero, so that a use after free is a failed lookup. The array
  \<open>uc->hook[UC_HOOK_MAX]\<close> is a function from indices to the lists of theory \<open>Ulist\<close>.
  The results of \<open>malloc\<close> and \<open>calloc\<close> are arguments. All operations are stated on an initialised
  engine, where the macro \<open>UC_INIT\<close> changes nothing.
\<close>

section \<open>Hooks and the registry\<close>

type_synonym region = "u64 \<times> u64"

record hook =
  hk_type :: u32
  hk_insn :: int
  hk_refs :: int
  hk_op :: int
  hk_op_flags :: int
  hk_to_delete :: bool
  hk_begin :: u64
  hk_end :: u64
  hk_callback :: nat
  hk_user_data :: nat
  hk_regions :: "region list"

type_synonym hook_heap = "addr \<rightharpoonup> hook"
type_synonym hook_list = "(addr, hook_heap) ulist"

record hook_state =
  hook_heap :: hook_heap
  hook :: "nat \<Rightarrow> hook_list"
  hooks_to_del :: hook_list
  hooks_count :: "nat \<Rightarrow> int"
  hook_ins :: bool
  tb_invalidated :: "region list"

definition UC_HOOK_INSN_IDX :: nat where "UC_HOOK_INSN_IDX = 1"
definition UC_HOOK_CODE_IDX :: nat where "UC_HOOK_CODE_IDX = 2"
definition UC_HOOK_BLOCK_IDX :: nat where "UC_HOOK_BLOCK_IDX = 3"
definition UC_HOOK_TCG_OPCODE_IDX :: nat where "UC_HOOK_TCG_OPCODE_IDX = 16"
definition UC_HOOK_TLB_FILL_IDX :: nat where "UC_HOOK_TLB_FILL_IDX = 17"
definition UC_HOOK_MAX :: nat where "UC_HOOK_MAX = 18"

definition UC_HOOK_INSN :: u32 where "UC_HOOK_INSN = 2"
definition UC_HOOK_CODE :: u32 where "UC_HOOK_CODE = 4"
definition UC_HOOK_TCG_OPCODE :: u32 where "UC_HOOK_TCG_OPCODE = 65536"

lemmas hook_consts = UC_HOOK_INSN_IDX_def UC_HOOK_CODE_IDX_def UC_HOOK_BLOCK_IDX_def
  UC_HOOK_TCG_OPCODE_IDX_def UC_HOOK_TLB_FILL_IDX_def UC_HOOK_MAX_def UC_HOOK_INSN_def
  UC_HOOK_CODE_def UC_HOOK_TCG_OPCODE_def

text \<open>The macro \<open>HOOK_BOUND_CHECK\<close>.\<close>

definition HOOK_BOUND_CHECK :: "hook \<Rightarrow> u64 \<Rightarrow> bool" where
  "HOOK_BOUND_CHECK hh a \<longleftrightarrow>
     ((hk_begin hh \<le> a \<and> a \<le> hk_end hh) \<or> hk_begin hh > hk_end hh) \<and> \<not> hk_to_delete hh"

section \<open>Reference counting\<close>

definition hook_ref :: "addr \<Rightarrow> hook_heap \<Rightarrow> hook_heap" where
  "hook_ref a hs =
     (case hs a of None \<Rightarrow> hs | Some h \<Rightarrow> hs(a \<mapsto> h\<lparr>hk_refs := hk_refs h + 1\<rparr>))"

definition hook_insert :: "ptr \<Rightarrow> hook_list \<Rightarrow> addr \<Rightarrow> hook_heap \<Rightarrow> ptr \<times> hook_list \<times> hook_heap" where
  "hook_insert m l h hs =
     (let (item, l') = list_insert m l h
      in (item, l', if item \<noteq> None then hook_ref h hs else hs))"

definition hook_append :: "ptr \<Rightarrow> hook_list \<Rightarrow> addr \<Rightarrow> hook_heap \<Rightarrow> ptr \<times> hook_list \<times> hook_heap" where
  "hook_append m l h hs =
     (let (item, l') = list_append m l h
      in (item, l', if item \<noteq> None then hook_ref h hs else hs))"

definition hook_delete :: "addr \<Rightarrow> hook_heap \<Rightarrow> hook_heap" where
  "hook_delete a hs =
     (case hs a of
        None \<Rightarrow> hs
      | Some h \<Rightarrow>
          if hk_refs h - 1 = 0 then hs(a := None)
          else hs(a \<mapsto> h\<lparr>hk_refs := hk_refs h - 1\<rparr>))"

text \<open>The lists of \<open>uc_init_engine\<close>: all empty, with \<open>hook_delete\<close> as destructor.\<close>

definition hook_list_init :: hook_list where
  "hook_list_init = list_new\<lparr>delete_fn := Some hook_delete\<rparr>"

definition hooks_init :: hook_state where
  "hooks_init = \<lparr>hook_heap = Map.empty, hook = (\<lambda>_. hook_list_init), hooks_to_del = hook_list_init,
     hooks_count = (\<lambda>_. 0), hook_ins = False, tb_invalidated = []\<rparr>"

section \<open>Adding a hook\<close>

text \<open>Put the hook \<open>a\<close> into the list of index \<open>i\<close>, at the front or at the end.\<close>

definition hook_put :: "ptr \<Rightarrow> nat \<Rightarrow> addr \<Rightarrow> ('e) hook_state_scheme
    \<Rightarrow> ptr \<times> ('e) hook_state_scheme" where
  "hook_put m i a st =
     (let (item, l', hs) =
        (if hook_ins st then hook_insert m (hook st i) a (hook_heap st)
         else hook_append m (hook st i) a (hook_heap st))
      in (item, st\<lparr>hook := (hook st)(i := l'), hook_heap := hs\<rparr>))"

definition hook_count_up :: "nat \<Rightarrow> ('e) hook_state_scheme \<Rightarrow> ('e) hook_state_scheme" where
  "hook_count_up i st = st\<lparr>hooks_count := (hooks_count st)(i := hooks_count st i + 1)\<rparr>"

definition hook_free :: "addr \<Rightarrow> ('e) hook_state_scheme \<Rightarrow> ('e) hook_state_scheme" where
  "hook_free a st = st\<lparr>hook_heap := (hook_heap st)(a := None)\<rparr>"

text \<open>The branch for \<open>UC_HOOK_INSN\<close> and \<open>UC_HOOK_TCG_OPCODE\<close>, which take one list only.\<close>

definition hook_add_single :: "bool \<Rightarrow> ptr \<Rightarrow> nat \<Rightarrow> addr \<Rightarrow> ('e) hook_state_scheme
    \<Rightarrow> uc_err \<times> ('e) hook_state_scheme" where
  "hook_add_single valid m i a st =
     (if \<not> valid then (UC_ERR_HOOK, hook_free a st)
      else (let (item, st') = hook_put m i a st
            in if item = None then (UC_ERR_NOMEM, hook_free a st')
               else (UC_ERR_OK, hook_count_up i st')))"

text \<open>
  The loop \<open>while ((type >> i) > 0)\<close> on a signed \<open>int\<close>. A 32-bit value shifted by 31 is
  0 or -1, so the loop has ended before \<open>i = 32\<close>.
\<close>

function hook_add_loop :: "u32 \<Rightarrow> (nat \<Rightarrow> ptr) \<Rightarrow> addr \<Rightarrow> nat \<Rightarrow> ('e) hook_state_scheme
    \<Rightarrow> uc_err \<times> ('e) hook_state_scheme" where
  "hook_add_loop type m a i st =
     (if i < 32 \<and> 0 < sint (signed_drop_bit i type) then
        (if bit type i \<and> i < UC_HOOK_MAX then
           (let (item, st') = hook_put (m i) i a st
            in if item = None then (UC_ERR_NOMEM, hook_free a st')
               else hook_add_loop type m a (Suc i) (hook_count_up i st'))
         else hook_add_loop type m a (Suc i) st)
      else (UC_ERR_OK, st))"
  by pat_completeness auto
termination
  by (relation "measure (\<lambda>(type, m, a, i, st). 32 - i)") auto

declare hook_add_loop.simps [simp del]

text \<open>
  \<open>uc_hook_add\<close>. \<open>hk\<close> is the result of \<open>calloc\<close>, \<open>m i\<close> that of the \<open>malloc\<close> for list \<open>i\<close>;
  \<open>insn_valid\<close> and \<open>op_valid\<close> are the optional validators of the architecture; \<open>insn\<close>,
  \<open>op\<close> and \<open>op_flags\<close> are the variadic arguments. The second component is \<open>*hh\<close>.
\<close>

definition uc_hook_add :: "(int \<Rightarrow> bool) option \<Rightarrow> (int \<Rightarrow> int \<Rightarrow> bool) option \<Rightarrow> ptr \<Rightarrow> (nat \<Rightarrow> ptr)
    \<Rightarrow> u32 \<Rightarrow> nat \<Rightarrow> nat \<Rightarrow> u64 \<Rightarrow> u64 \<Rightarrow> int \<Rightarrow> int \<Rightarrow> int
    \<Rightarrow> ('e) hook_state_scheme \<Rightarrow> uc_err \<times> ptr \<times> ('e) hook_state_scheme" where
  "uc_hook_add insn_valid op_valid hk m type callback user_data begin ed insn op op_flags st =
     (case hk of
        None \<Rightarrow> (UC_ERR_NOMEM, None, st)
      | Some a \<Rightarrow>
          (let h = \<lparr>hk_type = type, hk_insn = 0, hk_refs = 0, hk_op = 0, hk_op_flags = 0,
                    hk_to_delete = False, hk_begin = begin, hk_end = ed,
                    hk_callback = callback, hk_user_data = user_data, hk_regions = []\<rparr>;
               enter = (\<lambda>h. st\<lparr>hook_heap := (hook_heap st)(a \<mapsto> h)\<rparr>)
           in if type AND UC_HOOK_INSN \<noteq> 0 then
                (let (err, st') =
                   hook_add_single (case insn_valid of None \<Rightarrow> True | Some f \<Rightarrow> f insn)
                     (m UC_HOOK_INSN_IDX) UC_HOOK_INSN_IDX a (enter (h\<lparr>hk_insn := insn\<rparr>))
                 in (err, Some a, st'))
              else if type AND UC_HOOK_TCG_OPCODE \<noteq> 0 then
                (let (err, st') =
                   hook_add_single (case op_valid of None \<Rightarrow> True | Some f \<Rightarrow> f op op_flags)
                     (m UC_HOOK_TCG_OPCODE_IDX) UC_HOOK_TCG_OPCODE_IDX a
                     (enter (h\<lparr>hk_op := op, hk_op_flags := op_flags\<rparr>))
                 in (err, Some a, st'))
              else
                (let (err, st') = hook_add_loop type m a 0 (enter h)
                 in if err \<noteq> UC_ERR_OK then (err, Some a, st')
                    else if (case hook_heap st' a of None \<Rightarrow> False | Some h' \<Rightarrow> hk_refs h' = 0)
                    then (UC_ERR_OK, Some a, hook_free a st')
                    else (UC_ERR_OK, Some a, st'))))"

section \<open>Deleting hooks\<close>

definition hook_invalidate_region :: "region \<Rightarrow> ('e) hook_state_scheme \<Rightarrow> ('e) hook_state_scheme" where
  "hook_invalidate_region r st = st\<lparr>tb_invalidated := tb_invalidated st @ [r]\<rparr>"

text \<open>
  One iteration of the loop of \<open>uc_hook_del\<close> (\<open>m\<close> is the \<open>malloc\<close> of its \<open>hook_append\<close>).
  \<open>None\<close> is a use of a freed hook or a corrupt list.
\<close>

definition uc_hook_del_at :: "ptr \<Rightarrow> addr \<Rightarrow> nat \<Rightarrow> ('e) hook_state_scheme
    \<Rightarrow> ('e) hook_state_scheme option" where
  "uc_hook_del_at m a i st =
     (case list_exists (hook st i) a of
        None \<Rightarrow> None
      | Some False \<Rightarrow> Some st
      | Some True \<Rightarrow>
          (case hook_heap st a of
             None \<Rightarrow> None
           | Some h \<Rightarrow>
               (let st1 = fold hook_invalidate_region (hk_regions h) st;
                    hs1 = (hook_heap st)(a \<mapsto> h\<lparr>hk_regions := [], hk_to_delete := True\<rparr>);
                    (item, l', hs2) = hook_append m (hooks_to_del st) a hs1
                in Some (st1\<lparr>hook_heap := hs2, hooks_to_del := l',
                            hooks_count := (hooks_count st)(i := hooks_count st i - 1)\<rparr>))))"

fun uc_hook_del_from :: "(nat \<Rightarrow> ptr) \<Rightarrow> addr \<Rightarrow> nat list \<Rightarrow> ('e) hook_state_scheme
    \<Rightarrow> ('e) hook_state_scheme option" where
  "uc_hook_del_from m a [] st = Some st"
| "uc_hook_del_from m a (i # is) st =
     (case uc_hook_del_at (m i) a i st of
        None \<Rightarrow> None | Some st' \<Rightarrow> uc_hook_del_from m a is st')"

definition uc_hook_del :: "(nat \<Rightarrow> ptr) \<Rightarrow> addr \<Rightarrow> ('e) hook_state_scheme
    \<Rightarrow> (uc_err \<times> ('e) hook_state_scheme) option" where
  "uc_hook_del m a st =
     map_option (\<lambda>st'. (UC_ERR_OK, st')) (uc_hook_del_from m a [0..<UC_HOOK_MAX] st)"

text \<open>The inner loop of \<open>clear_deleted_hooks\<close>: remove the hook from the first list that has it.\<close>

fun remove_from_first :: "addr \<Rightarrow> nat list \<Rightarrow> ('e) hook_state_scheme
    \<Rightarrow> ('e) hook_state_scheme option" where
  "remove_from_first a [] st = Some st"
| "remove_from_first a (i # is) st =
     (case list_remove (hook st i) a (hook_heap st) of
        None \<Rightarrow> None
      | Some (found, l', hs) \<Rightarrow>
          (let st' = st\<lparr>hook := (hook st)(i := l'), hook_heap := hs\<rparr>
           in if found then Some st' else remove_from_first a is st'))"

partial_function (option) clear_deleted_loop :: "ptr \<Rightarrow> ('e) hook_state_scheme
    \<Rightarrow> ('e) hook_state_scheme option" where
  "clear_deleted_loop cur st =
     (case cur of
        None \<Rightarrow> Some st
      | Some c \<Rightarrow>
          (case items (hooks_to_del st) c of
             None \<Rightarrow> None
           | Some it \<Rightarrow>
               (case hook_heap st (item_data it) of
                  None \<Rightarrow> None
                | Some h \<Rightarrow>
                    if \<not> hk_to_delete h then None
                    else (case remove_from_first (item_data it) [0..<UC_HOOK_MAX] st of
                            None \<Rightarrow> None
                          | Some st' \<Rightarrow> clear_deleted_loop (item_next it) st'))))"

definition clear_deleted_hooks :: "('e) hook_state_scheme \<Rightarrow> ('e) hook_state_scheme option" where
  "clear_deleted_hooks st =
     (case clear_deleted_loop (head (hooks_to_del st)) st of
        None \<Rightarrow> None
      | Some st' \<Rightarrow>
          map_option (\<lambda>(l', hs). st'\<lparr>hooks_to_del := l', hook_heap := hs\<rparr>)
            (list_clear (hooks_to_del st') (hook_heap st')))"

section \<open>The invariant of the registry\<close>

text \<open>The number of times a hook stands in the lists \<open>hook[0..UC_HOOK_MAX)\<close>.\<close>

definition occ :: "(nat \<Rightarrow> addr list) \<Rightarrow> addr \<Rightarrow> nat" where
  "occ L a = (\<Sum>i<UC_HOOK_MAX. count_list (L i) a)"

text \<open>
  \<open>hooks_mid st L D R\<close>: list \<open>i\<close> holds the hooks \<open>L i\<close>, the list of deleted hooks holds \<open>D\<close>,
  every hook on the heap is referenced as often as its count says and at least once
  (nothing leaks, nothing dangles), a hook is marked deleted exactly when it is in \<open>D\<close>,
  and the entries \<open>R\<close> still to be processed are enough to take each deleted hook out of
  every list.
\<close>

definition lists_ok :: "('e) hook_state_scheme \<Rightarrow> (nat \<Rightarrow> addr list) \<Rightarrow> addr list \<Rightarrow> bool" where
  "lists_ok st L D \<longleftrightarrow>
     (\<forall>i<UC_HOOK_MAX. list_rep (hook st i) (L i) \<and> delete_fn (hook st i) = Some hook_delete
        \<and> distinct (L i))
     \<and> list_rep (hooks_to_del st) D \<and> delete_fn (hooks_to_del st) = Some hook_delete"

definition heap_ok :: "hook_heap \<Rightarrow> (nat \<Rightarrow> addr list) \<Rightarrow> addr list \<Rightarrow> addr list \<Rightarrow> bool" where
  "heap_ok hs L D R \<longleftrightarrow>
     (\<forall>a. case hs a of
            None \<Rightarrow> occ L a + count_list D a = 0
          | Some h \<Rightarrow> hk_refs h = int (occ L a + count_list D a) \<and> 0 < hk_refs h
              \<and> (hk_to_delete h \<longleftrightarrow> a \<in> set D) \<and> (a \<in> set D \<longrightarrow> occ L a \<le> count_list R a))"

definition hooks_mid :: "('e) hook_state_scheme \<Rightarrow> (nat \<Rightarrow> addr list) \<Rightarrow> addr list \<Rightarrow> addr list \<Rightarrow> bool" where
  "hooks_mid st L D R \<longleftrightarrow> lists_ok st L D \<and> heap_ok (hook_heap st) L D R"

abbreviation hooks_inv :: "('e) hook_state_scheme \<Rightarrow> (nat \<Rightarrow> addr list) \<Rightarrow> addr list \<Rightarrow> bool" where
  "hooks_inv st L D \<equiv> hooks_mid st L D D"

text \<open>\<open>hooks_count[i]\<close> is the number of hooks of list \<open>i\<close> that are not deleted.\<close>

definition counts_ok :: "('e) hook_state_scheme \<Rightarrow> (nat \<Rightarrow> addr list) \<Rightarrow> addr list \<Rightarrow> bool" where
  "counts_ok st L D \<longleftrightarrow>
     (\<forall>i<UC_HOOK_MAX. hooks_count st i = int (length (filter (\<lambda>a. a \<notin> set D) (L i))))"

section \<open>Clearing deleted hooks\<close>

lemma occ_upd:
  assumes "j < UC_HOOK_MAX"
  shows "occ (L(j := xs)) a + count_list (L j) a = occ L a + count_list xs a"
  using assms unfolding occ_def
  by (simp add: sum.remove [of "{..<UC_HOOK_MAX}" j])

lemma occ_pos: "j < UC_HOOK_MAX \<Longrightarrow> a \<in> set (L j) \<Longrightarrow> 0 < occ L a"
  unfolding occ_def by (subst sum_pos2 [of _ j]) (auto simp: count_list_0_iff neq0_conv [symmetric] simp del: neq0_conv)

lemma occ_zero: "occ L a = 0 \<longleftrightarrow> (\<forall>j<UC_HOOK_MAX. a \<notin> set (L j))"
  unfolding occ_def by (auto simp: count_list_0_iff)

lemma remove_from_first_spec:
  assumes "\<forall>i\<in>set is. list_rep (hook st i) (L i) \<and> delete_fn (hook st i) = Some hook_delete"
    and "distinct is"
  shows "\<exists>f L'. (\<forall>i\<in>set is. list_rep (f i) (L' i) \<and> delete_fn (f i) = Some hook_delete)
    \<and> (\<forall>i. i \<notin> set is \<longrightarrow> f i = hook st i \<and> L' i = L i)
    \<and> (if \<exists>i\<in>set is. a \<in> set (L i)
       then (\<exists>j\<in>set is. a \<in> set (L j) \<and> L' = L(j := remove1 a (L j)))
         \<and> remove_from_first a is st = Some (st\<lparr>hook := f, hook_heap := hook_delete a (hook_heap st)\<rparr>)
       else L' = L \<and> remove_from_first a is st = Some (st\<lparr>hook := f\<rparr>))"
  using assms
proof (induction "is" arbitrary: st)
  case Nil
  then show ?case by (auto intro!: exI [of _ "hook st"] exI [of _ L])
next
  case (Cons i "is")
  from Cons.prems(1) obtain l' where rm: "list_remove (hook st i) a (hook_heap st)
      = Some (a \<in> set (L i), l', if a \<in> set (L i) then run_delete (Some hook_delete) a (hook_heap st) else hook_heap st)"
      "list_rep l' (remove1 a (L i))" "delete_fn l' = Some hook_delete"
    using list_rep_remove [of "hook st i" "L i" a "hook_heap st"] by auto
  show ?case
  proof (cases "a \<in> set (L i)")
    case True
    then show ?thesis
      using rm Cons.prems
      by (intro exI [of _ "(hook st)(i := l')"] exI [of _ "L(i := remove1 a (L i))"])
        (auto simp: run_delete_def)
  next
    case False
    define st' where "st' = st\<lparr>hook := (hook st)(i := l')\<rparr>"
    have step: "remove_from_first a (i # is) st = remove_from_first a is st'"
      using rm(1) False by (simp add: st'_def)
    have "\<forall>k\<in>set is. list_rep (hook st' k) (L k) \<and> delete_fn (hook st' k) = Some hook_delete"
      using Cons.prems by (auto simp: st'_def)
    from Cons.IH [OF this] Cons.prems(2) obtain f L' where
      fL: "\<forall>k\<in>set is. list_rep (f k) (L' k) \<and> delete_fn (f k) = Some hook_delete"
        "\<forall>k. k \<notin> set is \<longrightarrow> f k = hook st' k \<and> L' k = L k"
        "if \<exists>i\<in>set is. a \<in> set (L i)
       then (\<exists>j\<in>set is. a \<in> set (L j) \<and> L' = L(j := remove1 a (L j)))
         \<and> remove_from_first a is st' = Some (st'\<lparr>hook := f, hook_heap := hook_delete a (hook_heap st')\<rparr>)
       else L' = L \<and> remove_from_first a is st' = Some (st'\<lparr>hook := f\<rparr>)"
      by auto
    have "L' i = L i" "f i = l'" using fL(2) Cons.prems(2) by (auto simp: st'_def)
    then have "list_rep (f i) (L' i) \<and> delete_fn (f i) = Some hook_delete"
      using rm(2,3) False by (simp add: remove1_idem)
    then show ?thesis
      unfolding step using fL False
      by (intro exI [of _ f] exI [of _ L']) (auto simp: st'_def split: if_splits)
  qed
qed

lemma heap_okD: "heap_ok hs L D R \<Longrightarrow> case hs a of
            None \<Rightarrow> occ L a + count_list D a = 0
          | Some h \<Rightarrow> hk_refs h = int (occ L a + count_list D a) \<and> 0 < hk_refs h
              \<and> (hk_to_delete h \<longleftrightarrow> a \<in> set D) \<and> (a \<in> set D \<longrightarrow> occ L a \<le> count_list R a)"
  unfolding heap_ok_def by blast

lemma heap_ok_deleted:
  assumes "heap_ok hs L D R" and "a \<in> set D"
  obtains h where "hs a = Some h" "hk_to_delete h" "hk_refs h = int (occ L a + count_list D a)"
  using heap_okD [OF assms(1), of a] assms(2) that
  by (auto simp: count_list_0_iff split: option.splits)

lemma heap_ok_delete:
  assumes ok: "heap_ok hs L D (a # R)" and a: "a \<in> set D" and j: "j < UC_HOOK_MAX" "a \<in> set (L j)"
  shows "heap_ok (hook_delete a hs) (L(j := remove1 a (L j))) D R"
  unfolding heap_ok_def
proof
  fix b
  let ?L = "L(j := remove1 a (L j))"
  have ob: "occ ?L b = (if b = a then occ L b - 1 else occ L b)"
  proof (cases "b = a")
    case True
    have "0 < count_list (L j) a" using j(2) count_list_0_iff [of "L j" a] by simp
    with occ_upd [OF j(1), of L "remove1 a (L j)" a] True show ?thesis
      by (simp add: count_list_remove1)
  next
    case False
    with occ_upd [OF j(1), of L "remove1 a (L j)" b] show ?thesis
      by (simp add: count_list_remove1)
  qed
  note okb = heap_okD [OF ok, of b]
  show "case hook_delete a hs b of
            None \<Rightarrow> occ ?L b + count_list D b = 0
          | Some h \<Rightarrow> hk_refs h = int (occ ?L b + count_list D b) \<and> 0 < hk_refs h
              \<and> (hk_to_delete h \<longleftrightarrow> b \<in> set D) \<and> (b \<in> set D \<longrightarrow> occ ?L b \<le> count_list R b)"
  proof (cases "b = a")
    case False
    then have "hook_delete a hs b = hs b" by (simp add: hook_delete_def split: option.splits)
    with okb ob False show ?thesis by (auto split: option.splits)
  next
    case True
    have "0 < count_list D a" using a count_list_0_iff [of D a] by simp
    moreover have "0 < occ L a" using occ_pos j by simp
    ultimately show ?thesis
      using okb ob True by (auto simp: hook_delete_def split: option.splits)
  qed
qed

lemma heap_ok_skip:
  assumes "heap_ok hs L D (a # R)" and "occ L a = 0"
  shows "heap_ok hs L D R"
  unfolding heap_ok_def
proof
  fix b
  show "case hs b of
            None \<Rightarrow> occ L b + count_list D b = 0
          | Some h \<Rightarrow> hk_refs h = int (occ L b + count_list D b) \<and> 0 < hk_refs h
              \<and> (hk_to_delete h \<longleftrightarrow> b \<in> set D) \<and> (b \<in> set D \<longrightarrow> occ L b \<le> count_list R b)"
    using heap_okD [OF assms(1), of b] assms(2)
    by (cases "b = a") (auto split: option.splits)
qed

lemma remove_from_first_mid:
  assumes mid: "hooks_mid st L D (a # R)" and a: "a \<in> set D"
  shows "\<exists>f hs L'. remove_from_first a [0..<UC_HOOK_MAX] st = Some (st\<lparr>hook := f, hook_heap := hs\<rparr>)
    \<and> hooks_mid (st\<lparr>hook := f, hook_heap := hs\<rparr>) L' D R
    \<and> (\<forall>i. filter (\<lambda>b. b \<notin> set D) (L' i) = filter (\<lambda>b. b \<notin> set D) (L i))
    \<and> (\<forall>b. b \<notin> set D \<longrightarrow> hs b = hook_heap st b)"
proof -
  from mid have reps: "\<forall>i\<in>set [0..<UC_HOOK_MAX]. list_rep (hook st i) (L i) \<and> delete_fn (hook st i) = Some hook_delete"
    by (auto simp: hooks_mid_def lists_ok_def)
  obtain f L' where f: "\<forall>i\<in>set [0..<UC_HOOK_MAX]. list_rep (f i) (L' i) \<and> delete_fn (f i) = Some hook_delete"
    and r: "if \<exists>i\<in>set [0..<UC_HOOK_MAX]. a \<in> set (L i)
       then (\<exists>j\<in>set [0..<UC_HOOK_MAX]. a \<in> set (L j) \<and> L' = L(j := remove1 a (L j)))
         \<and> remove_from_first a [0..<UC_HOOK_MAX] st = Some (st\<lparr>hook := f, hook_heap := hook_delete a (hook_heap st)\<rparr>)
       else L' = L \<and> remove_from_first a [0..<UC_HOOK_MAX] st = Some (st\<lparr>hook := f\<rparr>)"
    using remove_from_first_spec [OF reps, of a] by auto
  have "distinct (L' i)" if "i < UC_HOOK_MAX" for i
    using r mid that by (auto simp: hooks_mid_def lists_ok_def split: if_splits)
  then have ls: "lists_ok (st\<lparr>hook := f, hook_heap := hs\<rparr>) L' D" for hs
    using f mid by (simp add: hooks_mid_def lists_ok_def)
  show ?thesis
  proof (cases "\<exists>i\<in>set [0..<UC_HOOK_MAX]. a \<in> set (L i)")
    case True
    with r obtain j where j: "j < UC_HOOK_MAX" "a \<in> set (L j)" "L' = L(j := remove1 a (L j))"
      and e: "remove_from_first a [0..<UC_HOOK_MAX] st
        = Some (st\<lparr>hook := f, hook_heap := hook_delete a (hook_heap st)\<rparr>)"
      by auto
    have "heap_ok (hook_delete a (hook_heap st)) L' D R"
      using heap_ok_delete mid a j by (simp add: hooks_mid_def)
    moreover have "\<forall>b. b \<notin> set D \<longrightarrow> hook_delete a (hook_heap st) b = hook_heap st b"
      using a by (auto simp: hook_delete_def split: option.splits)
    moreover have "\<forall>i. filter (\<lambda>b. b \<notin> set D) (L' i) = filter (\<lambda>b. b \<notin> set D) (L i)"
      using a j(3) by (simp add: filter_remove1_out)
    ultimately show ?thesis
      using e ls by (intro exI [of _ f] exI [of _ "hook_delete a (hook_heap st)"] exI [of _ L'])
        (simp add: hooks_mid_def)
  next
    case False
    then have "occ L a = 0" by (auto simp: occ_zero)
    then have "heap_ok (hook_heap st) L D R"
      using mid by (auto simp: hooks_mid_def intro: heap_ok_skip)
    moreover have "remove_from_first a [0..<UC_HOOK_MAX] st = Some (st\<lparr>hook := f, hook_heap := hook_heap st\<rparr>)"
      using r False by auto
    moreover have "L' = L" using r False by auto
    ultimately show ?thesis
      using ls [of "hook_heap st"]
      by (intro exI [of _ f] exI [of _ "hook_heap st"] exI [of _ L']) (simp add: hooks_mid_def)
  qed
qed

lemma clear_deleted_loop_mid:
  assumes "hooks_mid st L D R" and "seg (items (hooks_to_del st)) cur cs None"
    and "R = nodes_data (items (hooks_to_del st)) cs" and "set R \<subseteq> set D"
  shows "\<exists>f hs L'. clear_deleted_loop cur st = Some (st\<lparr>hook := f, hook_heap := hs\<rparr>)
    \<and> hooks_mid (st\<lparr>hook := f, hook_heap := hs\<rparr>) L' D []
    \<and> (\<forall>i. filter (\<lambda>b. b \<notin> set D) (L' i) = filter (\<lambda>b. b \<notin> set D) (L i))
    \<and> (\<forall>b. b \<notin> set D \<longrightarrow> hs b = hook_heap st b)"
  using assms
proof (induction cs arbitrary: cur st L R)
  case Nil
  then show ?case
    by (subst clear_deleted_loop.simps)
      (auto intro!: exI [of _ "hook st"] exI [of _ "hook_heap st"] exI [of _ L])
next
  case (Cons c cs)
  then obtain it where it: "cur = Some c" "items (hooks_to_del st) c = Some it"
      "seg (items (hooks_to_del st)) (item_next it) cs None"
    by (auto split: option.splits)
  define a where "a = item_data it"
  define R' where "R' = nodes_data (items (hooks_to_del st)) cs"
  have R: "R = a # R'" using Cons.prems(3) it by (simp add: a_def R'_def)
  have aD: "a \<in> set D" "set R' \<subseteq> set D" using Cons.prems(4) R by auto
  obtain f hs L' where s: "remove_from_first a [0..<UC_HOOK_MAX] st = Some (st\<lparr>hook := f, hook_heap := hs\<rparr>)"
      "hooks_mid (st\<lparr>hook := f, hook_heap := hs\<rparr>) L' D R'"
      "\<forall>i. filter (\<lambda>b. b \<notin> set D) (L' i) = filter (\<lambda>b. b \<notin> set D) (L i)"
      "\<forall>b. b \<notin> set D \<longrightarrow> hs b = hook_heap st b"
    using remove_from_first_mid [OF Cons.prems(1) [unfolded R] aD(1)] by blast
  obtain h where h: "hook_heap st a = Some h" "hk_to_delete h"
    using Cons.prems(1) aD(1) by (auto simp: hooks_mid_def elim: heap_ok_deleted)
  let ?st = "st\<lparr>hook := f, hook_heap := hs\<rparr>"
  have step: "clear_deleted_loop cur st = clear_deleted_loop (item_next it) ?st"
    using it h s(1) by (subst clear_deleted_loop.simps) (simp add: a_def)
  have "seg (items (hooks_to_del ?st)) (item_next it) cs None"
    and "R' = nodes_data (items (hooks_to_del ?st)) cs"
    using it(3) by (simp_all add: R'_def)
  from Cons.IH [OF s(2) this aD(2)]
  obtain f' hs' L'' where e: "clear_deleted_loop (item_next it) ?st = Some (?st\<lparr>hook := f', hook_heap := hs'\<rparr>)"
      "hooks_mid (?st\<lparr>hook := f', hook_heap := hs'\<rparr>) L'' D []"
      "\<forall>i. filter (\<lambda>b. b \<notin> set D) (L'' i) = filter (\<lambda>b. b \<notin> set D) (L' i)"
      "\<forall>b. b \<notin> set D \<longrightarrow> hs' b = hook_heap ?st b"
    by blast
  have u: "?st\<lparr>hook := f', hook_heap := hs'\<rparr> = st\<lparr>hook := f', hook_heap := hs'\<rparr>" by simp
  show ?case
    using e(1,2) [unfolded u] e(3,4) step s(3,4)
    by (intro exI [of _ f'] exI [of _ hs'] exI [of _ L'']) simp
qed

lemma fold_hook_delete:
  assumes "\<forall>a. case hs a of None \<Rightarrow> count_list D a = 0
      | Some h \<Rightarrow> (a \<in> set D \<longrightarrow> hk_refs h = int (count_list D a))"
  shows "fold hook_delete D hs = (\<lambda>a. if a \<in> set D then None else hs a)"
  using assms
proof (induction D arbitrary: hs)
  case Nil
  then show ?case by simp
next
  case (Cons d D)
  have "case hs d of None \<Rightarrow> count_list (d # D) d = 0
      | Some h \<Rightarrow> (d \<in> set (d # D) \<longrightarrow> hk_refs h = int (count_list (d # D) d))"
    using Cons.prems by blast
  then obtain h where h: "hs d = Some h" "hk_refs h = int (Suc (count_list D d))"
    by (auto split: option.splits)
  have "fold hook_delete D (hook_delete d hs)
      = (\<lambda>a. if a \<in> set D then None else hook_delete d hs a)"
  proof (rule Cons.IH, rule allI)
    fix a
    show "case hook_delete d hs a of None \<Rightarrow> count_list D a = 0
      | Some h \<Rightarrow> (a \<in> set D \<longrightarrow> hk_refs h = int (count_list D a))"
      using Cons.prems [THEN spec, of a] h
      by (auto simp: hook_delete_def split: option.splits if_splits)
  qed
  moreover have "d \<notin> set D \<Longrightarrow> hook_delete d hs d = None"
    using h by (simp add: hook_delete_def)
  moreover have "a \<noteq> d \<Longrightarrow> hook_delete d hs a = hs a" for a
    by (simp add: hook_delete_def split: option.splits)
  ultimately show ?case by (auto simp: fun_eq_iff)
qed

lemma run_hook_delete [simp]: "run_delete (Some hook_delete) = hook_delete"
  by (simp add: run_delete_def fun_eq_iff)

text \<open>After the loop no list holds a deleted hook, and the heap is the old one elsewhere.\<close>

lemma clear_deleted_hooks_inv:
  assumes inv: "hooks_inv st L D"
  shows "\<exists>st'. clear_deleted_hooks st = Some st'
    \<and> hooks_inv st' (\<lambda>i. filter (\<lambda>a. a \<notin> set D) (L i)) []
    \<and> hook_heap st' = (\<lambda>a. if a \<in> set D then None else hook_heap st a)
    \<and> hooks_count st' = hooks_count st \<and> tb_invalidated st' = tb_invalidated st"
proof -
  from inv obtain as where as: "list_nodes (hooks_to_del st) as"
    and D: "D = nodes_data (items (hooks_to_del st)) as"
    and df: "delete_fn (hooks_to_del st) = Some hook_delete" and rD: "list_rep (hooks_to_del st) D"
    by (auto simp: hooks_mid_def lists_ok_def list_rep_def)
  from as have "seg (items (hooks_to_del st)) (head (hooks_to_del st)) as None"
    by (simp add: list_nodes_def)
  from clear_deleted_loop_mid [OF inv this D]
  obtain f hs L' where
    e: "clear_deleted_loop (head (hooks_to_del st)) st = Some (st\<lparr>hook := f, hook_heap := hs\<rparr>)"
      "hooks_mid (st\<lparr>hook := f, hook_heap := hs\<rparr>) L' D []"
      "\<forall>i. filter (\<lambda>b. b \<notin> set D) (L' i) = filter (\<lambda>b. b \<notin> set D) (L i)"
      "\<forall>b. b \<notin> set D \<longrightarrow> hs b = hook_heap st b"
    by blast
  have hk: "heap_ok hs L' D []" using e(2) by (simp add: hooks_mid_def)
  have gone: "occ L' a = 0" if "a \<in> set D" for a
    using heap_ok_deleted [OF hk that] heap_okD [OF hk, of a] that by (auto split: option.splits)
  have L': "L' i = filter (\<lambda>a. a \<notin> set D) (L i)" if "i < UC_HOOK_MAX" for i
  proof -
    have "filter (\<lambda>b. b \<notin> set D) (L' i) = L' i"
      using gone that by (auto simp: filter_id_conv occ_zero)
    with e(3) show ?thesis by simp
  qed
  have "\<forall>a. case hs a of None \<Rightarrow> count_list D a = 0
      | Some h \<Rightarrow> (a \<in> set D \<longrightarrow> hk_refs h = int (count_list D a))"
  proof
    fix a
    show "case hs a of None \<Rightarrow> count_list D a = 0
      | Some h \<Rightarrow> (a \<in> set D \<longrightarrow> hk_refs h = int (count_list D a))"
      using heap_okD [OF hk, of a] gone [of a] by (auto split: option.splits)
  qed
  from fold_hook_delete [OF this]
  have fd: "fold hook_delete D hs = (\<lambda>a. if a \<in> set D then None else hook_heap st a)"
    using e(4) by auto
  obtain l' where l': "list_clear (hooks_to_del st) hs = Some (l', fold hook_delete D hs)"
      "list_rep l' []" "delete_fn l' = Some hook_delete"
    using list_rep_clear [OF rD, of hs] df by auto
  define st' where "st' = st\<lparr>hook := f, hook_heap := fold hook_delete D hs, hooks_to_del := l'\<rparr>"
  have "clear_deleted_hooks st = Some st'"
    by (simp add: clear_deleted_hooks_def e(1) l'(1) st'_def)
  moreover have occ': "occ (\<lambda>i. filter (\<lambda>a. a \<notin> set D) (L i)) a = occ L' a" for a
    using L' by (simp add: occ_def)
  have "heap_ok (hook_heap st') (\<lambda>i. filter (\<lambda>a. a \<notin> set D) (L i)) [] []"
    unfolding heap_ok_def
  proof
    fix a
    show "case hook_heap st' a of
            None \<Rightarrow> occ (\<lambda>i. filter (\<lambda>a. a \<notin> set D) (L i)) a + count_list [] a = 0
          | Some h \<Rightarrow> hk_refs h = int (occ (\<lambda>i. filter (\<lambda>a. a \<notin> set D) (L i)) a + count_list [] a)
              \<and> 0 < hk_refs h \<and> (hk_to_delete h \<longleftrightarrow> a \<in> set [])
              \<and> (a \<in> set [] \<longrightarrow> occ (\<lambda>i. filter (\<lambda>a. a \<notin> set D) (L i)) a \<le> count_list [] a)"
      using heap_okD [OF hk, of a] gone [of a] e(4)
      by (auto simp: occ' st'_def fd split: option.splits)
  qed
  moreover have "lists_ok st' (\<lambda>i. filter (\<lambda>a. a \<notin> set D) (L i)) []"
    using e(2) L' l' by (simp add: hooks_mid_def lists_ok_def st'_def)
  ultimately show ?thesis by (simp add: hooks_mid_def st'_def fd)
qed

end
