(* ===== verification/Hook_Api.thy ===== *)
theory Hook_Api
  imports Hooks
begin

text \<open>
  The public operations on hooks keep the invariant of the registry: \<open>uc_hook_del\<close> and
  \<open>uc_hook_add\<close> on every list, the counters, and what a failed allocation leaves behind.
\<close>

section \<open>Deleting\<close>

lemma items_append_dom [simp]:
  "dom (items (snd (list_append (Some c) l d))) = insert c (dom (items l))"
  by (auto simp: list_append_def Let_def)

lemma hook_append_eq:
  "hook_append (Some c) l a hs = (Some c, snd (list_append (Some c) l a), hook_ref a hs)"
  by (simp add: hook_append_def list_append_def Let_def)

lemma hook_insert_eq:
  "hook_insert (Some c) l a hs = (Some c, snd (list_insert (Some c) l a), hook_ref a hs)"
  by (simp add: hook_insert_def list_insert_def Let_def)

lemma fold_invalidate [simp]:
  "fold hook_invalidate_region rs st = st\<lparr>tb_invalidated := tb_invalidated st @ rs\<rparr>"
  by (induction rs arbitrary: st) (simp_all add: hook_invalidate_region_def)

text \<open>The hook after it has been marked and entered \<open>k\<close> times into the list of deleted hooks.\<close>

definition hook_marked :: "nat \<Rightarrow> hook \<Rightarrow> hook" where
  "hook_marked k h =
     (if k = 0 then h
      else h\<lparr>hk_regions := [], hk_to_delete := True, hk_refs := hk_refs h + int k\<rparr>)"

lemma uc_hook_del_at_eq:
  assumes "list_rep (hook st i) ds" and "a \<in> set ds" and "hook_heap st a = Some h"
  shows "uc_hook_del_at (Some c) a i st =
    Some (st\<lparr>tb_invalidated := tb_invalidated st @ hk_regions h,
      hook_heap := (hook_heap st)(a \<mapsto> hook_marked 1 h),
      hooks_to_del := snd (list_append (Some c) (hooks_to_del st) a),
      hooks_count := (hooks_count st)(i := hooks_count st i - 1)\<rparr>)"
  using list_rep_exists [OF assms(1), of a] assms(2,3)
  by (simp add: uc_hook_del_at_def hook_append_eq hook_ref_def hook_marked_def)

lemma uc_hook_del_at_skip:
  assumes "list_rep (hook st i) ds" and "a \<notin> set ds"
  shows "uc_hook_del_at m a i st = Some st"
  using list_rep_exists [OF assms(1), of a] assms(2) by (simp add: uc_hook_del_at_def)

definition del_result :: "addr \<Rightarrow> hook \<Rightarrow> nat \<Rightarrow> (nat \<Rightarrow> bool) \<Rightarrow> hook_list
    \<Rightarrow> ('e) hook_state_scheme \<Rightarrow> ('e) hook_state_scheme" where
  "del_result a h k P l' st =
     st\<lparr>tb_invalidated := tb_invalidated st @ (if k = 0 then [] else hk_regions h),
       hook_heap := (if k = 0 then hook_heap st else (hook_heap st)(a \<mapsto> hook_marked k h)),
       hooks_to_del := l',
       hooks_count := (\<lambda>i. if P i then hooks_count st i - 1 else hooks_count st i)\<rparr>"

text \<open>
  The whole loop: \<open>k\<close> of the lists still to be visited hold the hook, which is entered
  \<open>k\<close> times into the list of deleted hooks; its regions are invalidated once.
\<close>

lemma uc_hook_del_from_eq:
  assumes "\<forall>i\<in>set is. list_rep (hook st i) (L i)" and "distinct is"
    and "list_rep (hooks_to_del st) D"
    and "\<forall>i\<in>set is. \<exists>c. m i = Some c \<and> c \<notin> dom (items (hooks_to_del st))"
    and "inj_on m (set is)"
    and "\<forall>i\<in>set is. a \<in> set (L i) \<longrightarrow> hook_heap st a = Some h"
    and "k = length (filter (\<lambda>i. a \<in> set (L i)) is)"
  shows "\<exists>l'. uc_hook_del_from m a is st
        = Some (del_result a h k (\<lambda>i. i \<in> set is \<and> a \<in> set (L i)) l' st)
    \<and> list_rep l' (D @ replicate k a) \<and> delete_fn l' = delete_fn (hooks_to_del st)"
  using assms
proof (induction "is" arbitrary: st D h k)
  case Nil
  then show ?case by (auto simp: del_result_def intro!: exI [of _ "hooks_to_del st"])
next
  case (Cons i "is")
  show ?case
  proof (cases "a \<in> set (L i)")
    case False
    have step: "uc_hook_del_from m a (i # is) st = uc_hook_del_from m a is st"
      using uc_hook_del_at_skip [of st i "L i" a] Cons.prems(1) False by simp
    have "(\<lambda>j. j \<in> set (i # is) \<and> a \<in> set (L j)) = (\<lambda>j. j \<in> set is \<and> a \<in> set (L j))"
      using False by auto
    moreover have "\<exists>l'. uc_hook_del_from m a is st
        = Some (del_result a h k (\<lambda>i. i \<in> set is \<and> a \<in> set (L i)) l' st)
      \<and> list_rep l' (D @ replicate k a) \<and> delete_fn l' = delete_fn (hooks_to_del st)"
      by (rule Cons.IH) (use Cons.prems False in \<open>auto simp: inj_on_def\<close>)
    ultimately show ?thesis unfolding step by simp
  next
    case True
    then have h: "hook_heap st a = Some h" using Cons.prems(6) by simp
    obtain c where c: "m i = Some c" "c \<notin> dom (items (hooks_to_del st))" using Cons.prems(4) by auto
    define l1 where "l1 = snd (list_append (Some c) (hooks_to_del st) a)"
    let ?st = "st\<lparr>tb_invalidated := tb_invalidated st @ hk_regions h,
      hook_heap := (hook_heap st)(a \<mapsto> hook_marked 1 h), hooks_to_del := l1,
      hooks_count := (hooks_count st)(i := hooks_count st i - 1)\<rparr>"
    have step: "uc_hook_del_from m a (i # is) st = uc_hook_del_from m a is ?st"
      using uc_hook_del_at_eq [OF _ True h, of i c] Cons.prems(1) c(1) by (simp add: l1_def)
    define k' where "k' = length (filter (\<lambda>i. a \<in> set (L i)) is)"
    have k: "k = Suc k'" using Cons.prems(7) True by (simp add: k'_def)
    have i: "i \<notin> set is" and mi: "m j \<noteq> m i" if "j \<in> set is" for j
      using Cons.prems(2,5) that by (auto simp: inj_on_def)
    have ih: "\<exists>l'. uc_hook_del_from m a is ?st
        = Some (del_result a (hook_marked 1 h) k' (\<lambda>i. i \<in> set is \<and> a \<in> set (L i)) l' ?st)
      \<and> list_rep l' ((D @ [a]) @ replicate k' a) \<and> delete_fn l' = delete_fn (hooks_to_del ?st)"
    proof (rule Cons.IH)
      show "list_rep (hooks_to_del ?st) (D @ [a])"
        using list_rep_append [OF Cons.prems(3) c(2)] by (simp add: l1_def)
      show "\<forall>j\<in>set is. \<exists>e. m j = Some e \<and> e \<notin> dom (items (hooks_to_del ?st))"
        using Cons.prems(4) c(1) mi by (fastforce simp: l1_def)
    qed (use Cons.prems in \<open>auto simp: k'_def inj_on_def\<close>)
    have m2: "hook_marked k' (hook_marked 1 h) = hook_marked k h" "hk_regions (hook_marked 1 h) = []"
      by (simp_all add: hook_marked_def k)
    have "del_result a (hook_marked 1 h) k' (\<lambda>i. i \<in> set is \<and> a \<in> set (L i)) l' ?st
        = del_result a h k (\<lambda>j. j \<in> set (i # is) \<and> a \<in> set (L j)) l' st" for l'
      using True Cons.prems(2) m2 k by (cases "k' = 0") (auto simp: del_result_def fun_eq_iff)
    with ih show ?thesis unfolding step k by (auto simp: l1_def)
  qed
qed

text \<open>The number of lists that hold a hook.\<close>

definition lists_with :: "(nat \<Rightarrow> addr list) \<Rightarrow> addr \<Rightarrow> nat" where
  "lists_with L a = length (filter (\<lambda>i. a \<in> set (L i)) [0..<UC_HOOK_MAX])"

lemma occ_lists_with:
  assumes "\<forall>i<UC_HOOK_MAX. distinct (L i)"
  shows "occ L a = lists_with L a"
proof -
  have "occ L a = (\<Sum>i<UC_HOOK_MAX. of_bool (a \<in> set (L i)))"
    using assms by (simp add: occ_def distinct_count_list)
  also have "\<dots> = card ({..<UC_HOOK_MAX} \<inter> {i. a \<in> set (L i)})"
    by simp
  also have "{..<UC_HOOK_MAX} \<inter> {i. a \<in> set (L i)} = set (filter (\<lambda>i. a \<in> set (L i)) [0..<UC_HOOK_MAX])"
    by auto
  also have "card \<dots> = lists_with L a"
    unfolding lists_with_def by (intro distinct_card) simp
  finally show ?thesis .
qed

text \<open>Fresh node addresses for the list of deleted hooks, one per visited list.\<close>

definition fresh_nodes :: "(nat \<Rightarrow> ptr) \<Rightarrow> hook_list \<Rightarrow> bool" where
  "fresh_nodes m l \<longleftrightarrow>
     (\<forall>i<UC_HOOK_MAX. \<exists>c. m i = Some c \<and> c \<notin> dom (items l)) \<and> inj_on m {..<UC_HOOK_MAX}"

lemma heap_ok_mark:
  assumes ok: "heap_ok hs L D D" and h: "hs a = Some h" and k: "0 < k" "occ L a = k"
  shows "heap_ok (hs(a \<mapsto> hook_marked k h)) L (D @ replicate k a) (D @ replicate k a)"
  unfolding heap_ok_def
proof
  fix b
  show "case (hs(a \<mapsto> hook_marked k h)) b of
            None \<Rightarrow> occ L b + count_list (D @ replicate k a) b = 0
          | Some h' \<Rightarrow> hk_refs h' = int (occ L b + count_list (D @ replicate k a) b) \<and> 0 < hk_refs h'
              \<and> (hk_to_delete h' \<longleftrightarrow> b \<in> set (D @ replicate k a))
              \<and> (b \<in> set (D @ replicate k a) \<longrightarrow> occ L b \<le> count_list (D @ replicate k a) b)"
    using heap_okD [OF ok, of b] h k
    by (cases "b = a") (auto simp: hook_marked_def split: option.splits)
qed

lemma uc_hook_del_inv:
  assumes inv: "hooks_inv st L D" and fresh: "fresh_nodes m (hooks_to_del st)"
    and k: "k = lists_with L a"
  shows "\<exists>h l'. uc_hook_del m a st
      = Some (UC_ERR_OK, del_result a h k (\<lambda>i. i < UC_HOOK_MAX \<and> a \<in> set (L i)) l' st)
    \<and> hooks_inv (del_result a h k (\<lambda>i. i < UC_HOOK_MAX \<and> a \<in> set (L i)) l' st) L (D @ replicate k a)
    \<and> (0 < k \<longrightarrow> hook_heap st a = Some h)"
proof -
  from inv have ls: "lists_ok st L D" and hk: "heap_ok (hook_heap st) L D D"
    by (simp_all add: hooks_mid_def)
  have ok: "occ L a = k"
    using ls k by (simp add: lists_ok_def occ_lists_with)
  obtain h where h: "\<forall>i\<in>set [0..<UC_HOOK_MAX]. a \<in> set (L i) \<longrightarrow> hook_heap st a = Some h"
  proof (cases "hook_heap st a")
    case None
    with heap_okD [OF hk, of a] have "occ L a = 0" by simp
    then show ?thesis using that by (auto simp: occ_zero)
  qed (use that in auto)
  have "\<exists>l'. uc_hook_del_from m a [0..<UC_HOOK_MAX] st
        = Some (del_result a h k (\<lambda>i. i \<in> set [0..<UC_HOOK_MAX] \<and> a \<in> set (L i)) l' st)
    \<and> list_rep l' (D @ replicate k a) \<and> delete_fn l' = delete_fn (hooks_to_del st)"
    by (rule uc_hook_del_from_eq)
      (use ls fresh h k in \<open>auto simp: lists_ok_def fresh_nodes_def lists_with_def lessThan_atLeast0\<close>)
  then obtain l' where l': "uc_hook_del m a st
      = Some (UC_ERR_OK, del_result a h k (\<lambda>i. i < UC_HOOK_MAX \<and> a \<in> set (L i)) l' st)"
      "list_rep l' (D @ replicate k a)" "delete_fn l' = delete_fn (hooks_to_del st)"
    by (auto simp: uc_hook_del_def)
  have ha: "hook_heap st a = Some h" if "0 < k"
  proof -
    have "\<exists>j<UC_HOOK_MAX. a \<in> set (L j)" using that ok occ_zero [of L a] by auto
    with h show ?thesis by auto
  qed
  have "heap_ok (hook_heap (del_result a h k (\<lambda>i. i < UC_HOOK_MAX \<and> a \<in> set (L i)) l' st)) L
      (D @ replicate k a) (D @ replicate k a)"
    using hk heap_ok_mark [OF hk ha _ ok] by (simp add: del_result_def)
  moreover have "lists_ok (del_result a h k (\<lambda>i. i < UC_HOOK_MAX \<and> a \<in> set (L i)) l' st) L (D @ replicate k a)"
    using ls l' by (simp add: lists_ok_def del_result_def)
  ultimately show ?thesis using l'(1) ha by (auto simp: hooks_mid_def)
qed

lemma counts_ok_del:
  assumes "counts_ok st L D" and "\<forall>i<UC_HOOK_MAX. distinct (L i)" and "a \<notin> set D" and "0 < k"
  shows "counts_ok (del_result a h k (\<lambda>i. i < UC_HOOK_MAX \<and> a \<in> set (L i)) l' st) L (D @ replicate k a)"
proof -
  have "int (length (filter (\<lambda>b. b \<notin> set (D @ replicate k a)) xs))
      = int (length (filter (\<lambda>b. b \<notin> set D) xs)) - of_bool (a \<in> set xs)" if "distinct xs" for xs
    using that assms(3,4) by (induction xs) auto
  with assms(1,2) show ?thesis by (simp add: counts_ok_def del_result_def)
qed

section \<open>Adding\<close>

lemma signed_shift_positive:
  assumes "\<not> bit (type :: u32) 31"
  shows "0 < sint (signed_drop_bit i type) \<longleftrightarrow> (\<exists>j\<ge>i. bit type j)"
proof -
  let ?w = "signed_drop_bit i type"
  have nn: "\<not> bit ?w 31" using assms by (cases i) (auto simp: bit_signed_drop_bit_iff)
  have "0 < sint ?w \<longleftrightarrow> ?w \<noteq> 0"
  proof -
    have "0 \<le> sint ?w" using nn bit_last_iff [of ?w] by simp
    moreover have "sint ?w = 0 \<longleftrightarrow> ?w = 0" by (metis signed_0 signed_word_eqI)
    ultimately show ?thesis by linarith
  qed
  also have "\<dots> \<longleftrightarrow> (\<exists>j\<ge>i. bit type j)"
  proof
    assume "?w \<noteq> 0"
    then obtain k where "bit ?w k" by (auto simp: bit_eq_iff)
    then show "\<exists>j\<ge>i. bit type j" using assms
      by (auto simp: bit_signed_drop_bit_iff split: if_splits intro: exI [of _ "i + k"])
  next
    assume "\<exists>j\<ge>i. bit type j"
    then obtain j where j: "i \<le> j" "bit type j" by blast
    then have "j < 32" using bit_imp_le_length by fastforce
    with j have "bit ?w (j - i)" by (auto simp: bit_signed_drop_bit_iff)
    then show "?w \<noteq> 0" by auto
  qed
  finally show ?thesis .
qed

definition put_list :: "bool \<Rightarrow> addr \<Rightarrow> addr list \<Rightarrow> addr list" where
  "put_list ins a xs = (if ins then a # xs else xs @ [a])"

lemma put_list_simps [simp]:
  "set (put_list ins a xs) = insert a (set xs)"
  "distinct (put_list ins a xs) \<longleftrightarrow> a \<notin> set xs \<and> distinct xs"
  "count_list (put_list ins a xs) b = (if a = b then 1 else 0) + count_list xs b"
  by (auto simp: put_list_def)

lemma hook_put_eq:
  assumes "list_rep (hook st i) xs" and "c \<notin> dom (items (hook st i))"
  shows "\<exists>l'. hook_put (Some c) i a st
      = (Some c, st\<lparr>hook := (hook st)(i := l'), hook_heap := hook_ref a (hook_heap st)\<rparr>)
    \<and> list_rep l' (put_list (hook_ins st) a xs) \<and> delete_fn l' = delete_fn (hook st i)"
  using list_rep_insert [OF assms, of a] list_rep_append [OF assms, of a]
  by (auto simp: hook_put_def hook_insert_eq hook_append_eq put_list_def)

text \<open>
  The registry while the hook \<open>a\<close> is being entered: everything else satisfies the
  invariant, and \<open>a\<close> counts the lists it already stands in.
\<close>

definition adding :: "('e) hook_state_scheme \<Rightarrow> (nat \<Rightarrow> addr list) \<Rightarrow> addr list \<Rightarrow> addr \<Rightarrow> hook \<Rightarrow> bool" where
  "adding st L D a h \<longleftrightarrow>
     lists_ok st L D \<and> a \<notin> set D \<and> \<not> hk_to_delete h
     \<and> hook_heap st a = Some (h\<lparr>hk_refs := int (occ L a)\<rparr>)
     \<and> (\<forall>b. b \<noteq> a \<longrightarrow> (case hook_heap st b of
            None \<Rightarrow> occ L b + count_list D b = 0
          | Some h \<Rightarrow> hk_refs h = int (occ L b + count_list D b) \<and> 0 < hk_refs h
              \<and> (hk_to_delete h \<longleftrightarrow> b \<in> set D) \<and> (b \<in> set D \<longrightarrow> occ L b \<le> count_list D b)))"

lemma adding_done:
  assumes "adding st L D a h" and "0 < occ L a"
  shows "hooks_inv st L D"
proof -
  have "heap_ok (hook_heap st) L D D"
    unfolding heap_ok_def
  proof
    fix b
    show "case hook_heap st b of
            None \<Rightarrow> occ L b + count_list D b = 0
          | Some h \<Rightarrow> hk_refs h = int (occ L b + count_list D b) \<and> 0 < hk_refs h
              \<and> (hk_to_delete h \<longleftrightarrow> b \<in> set D) \<and> (b \<in> set D \<longrightarrow> occ L b \<le> count_list D b)"
      using assms by (cases "b = a") (auto simp: adding_def count_list_0_iff)
  qed
  with assms(1) show ?thesis by (simp add: hooks_mid_def adding_def)
qed

lemma adding_put:
  assumes ad: "adding st L D a h" and i: "i < UC_HOOK_MAX" "a \<notin> set (L i)"
    and l': "list_rep l' (put_list ins a (L i))" "delete_fn l' = delete_fn (hook st i)"
  shows "adding (st\<lparr>hook := (hook st)(i := l'), hook_heap := hook_ref a (hook_heap st)\<rparr>)
    (L(i := put_list ins a (L i))) D a h"
proof -
  let ?L = "L(i := put_list ins a (L i))"
  have oc: "occ ?L b = (if b = a then Suc (occ L b) else occ L b)" for b
    using occ_upd [OF i(1), of L "put_list ins a (L i)" b] by auto
  have "lists_ok (st\<lparr>hook := (hook st)(i := l'), hook_heap := hook_ref a (hook_heap st)\<rparr>) ?L D"
    using ad i l' by (auto simp: adding_def lists_ok_def)
  moreover have "hook_ref a (hook_heap st) = (hook_heap st)(a \<mapsto> h\<lparr>hk_refs := int (occ ?L a)\<rparr>)"
    using ad by (simp add: adding_def hook_ref_def oc add.commute)
  ultimately show ?thesis using ad by (simp add: adding_def oc cong: option.case_cong)
qed

lemma adding_count_up [simp]: "adding (hook_count_up i st) L D a h = adding st L D a h"
  by (simp add: adding_def lists_ok_def hook_count_up_def)

text \<open>The lists after the hook has been entered at the indices of \<open>P\<close>.\<close>

definition put_lists :: "bool \<Rightarrow> addr \<Rightarrow> (nat \<Rightarrow> bool) \<Rightarrow> (nat \<Rightarrow> addr list) \<Rightarrow> nat \<Rightarrow> addr list" where
  "put_lists ins a P L = (\<lambda>j. if P j then put_list ins a (L j) else L j)"

definition put_counts :: "(nat \<Rightarrow> bool) \<Rightarrow> (nat \<Rightarrow> int) \<Rightarrow> nat \<Rightarrow> int" where
  "put_counts P f = (\<lambda>j. if P j then f j + 1 else f j)"

text \<open>Each list gets a fresh node.\<close>

definition fresh_hook_nodes :: "(nat \<Rightarrow> ptr) \<Rightarrow> ('e) hook_state_scheme \<Rightarrow> bool" where
  "fresh_hook_nodes m st \<longleftrightarrow> (\<forall>j<UC_HOOK_MAX. \<exists>c. m j = Some c \<and> c \<notin> dom (items (hook st j)))"

text \<open>What adding never touches.\<close>

definition same_rest :: "addr \<Rightarrow> ('e) hook_state_scheme \<Rightarrow> ('e) hook_state_scheme \<Rightarrow> bool" where
  "same_rest a st st' \<longleftrightarrow> (\<forall>b. b \<noteq> a \<longrightarrow> hook_heap st' b = hook_heap st b)
     \<and> hooks_to_del st' = hooks_to_del st \<and> hook_ins st' = hook_ins st
     \<and> tb_invalidated st' = tb_invalidated st \<and> hook_state.more st' = hook_state.more st"

abbreviation loop_bits :: "u32 \<Rightarrow> nat \<Rightarrow> nat \<Rightarrow> bool" where
  "loop_bits type i \<equiv> (\<lambda>j. i \<le> j \<and> j < UC_HOOK_MAX \<and> bit type j)"

lemma hook_add_loop_adding:
  assumes "adding st L D a h" and "\<not> bit type 31"
    and "\<forall>j. i \<le> j \<and> j < UC_HOOK_MAX \<longrightarrow> a \<notin> set (L j)"
    and "\<forall>j. i \<le> j \<and> j < UC_HOOK_MAX \<longrightarrow> (\<exists>c. m j = Some c \<and> c \<notin> dom (items (hook st j)))"
  shows "\<exists>st'. hook_add_loop type m a i st = (UC_ERR_OK, st')
    \<and> adding st' (put_lists (hook_ins st) a (loop_bits type i) L) D a h
    \<and> hooks_count st' = put_counts (loop_bits type i) (hooks_count st) \<and> same_rest a st st'"
  using assms
proof (induction type m a i st arbitrary: L rule: hook_add_loop.induct)
  case (1 type m a i st)
  show ?case
  proof (cases "i < 32 \<and> 0 < sint (signed_drop_bit i type)")
    case False
    have none: "loop_bits type i = (\<lambda>_. False)"
    proof (rule ext, rule iffI)
      fix j
      assume j: "loop_bits type i j"
      then have "i < 32" by (simp add: hook_consts)
      with False signed_shift_positive [OF 1(4), of i] j show False by auto
    qed simp
    show ?thesis unfolding none
      using False 1(3) by (subst hook_add_loop.simps) (auto simp: put_lists_def put_counts_def same_rest_def)
  next
    case run: True
    show ?thesis
    proof (cases "bit type i \<and> i < UC_HOOK_MAX")
      case False
      have "loop_bits type i = loop_bits type (Suc i)"
        using False by (auto simp: fun_eq_iff Suc_le_eq order.order_iff_strict)
      moreover have "hook_add_loop type m a i st = hook_add_loop type m a (Suc i) st"
        using run False by (subst hook_add_loop.simps) auto
      ultimately show ?thesis using 1(2) [OF run False 1(3,4)] 1(5,6) by simp
    next
      case True
      then obtain c where c: "m i = Some c" "c \<notin> dom (items (hook st i))" using 1(6) by blast
      have "list_rep (hook st i) (L i)" using 1(3) True by (simp add: adding_def lists_ok_def)
      from hook_put_eq [OF this c(2), of a] obtain l' where l':
        "hook_put (Some c) i a st
          = (Some c, st\<lparr>hook := (hook st)(i := l'), hook_heap := hook_ref a (hook_heap st)\<rparr>)"
        "list_rep l' (put_list (hook_ins st) a (L i))" "delete_fn l' = delete_fn (hook st i)" by blast
      let ?st = "st\<lparr>hook := (hook st)(i := l'), hook_heap := hook_ref a (hook_heap st)\<rparr>"
      let ?L = "L(i := put_list (hook_ins st) a (L i))"
      have ad: "adding (hook_count_up i ?st) ?L D a h"
        using adding_put [OF 1(3) _ _ l'(2,3)] True 1(5) by simp
      have step: "hook_add_loop type m a i st = hook_add_loop type m a (Suc i) (hook_count_up i ?st)"
        using run True c(1) l'(1) by (subst hook_add_loop.simps) simp
      have bits: "loop_bits type i j \<longleftrightarrow> j = i \<or> loop_bits type (Suc i) j" for j
        using True by (auto simp: Suc_le_eq order.order_iff_strict)
      have eqs: "put_lists (hook_ins st) a (loop_bits type (Suc i)) ?L = put_lists (hook_ins st) a (loop_bits type i) L"
        "put_counts (loop_bits type (Suc i)) ((hooks_count st)(i := hooks_count st i + 1))
          = put_counts (loop_bits type i) (hooks_count st)"
        unfolding put_lists_def put_counts_def bits by (auto simp: fun_eq_iff)
      have "\<exists>st'. hook_add_loop type m a (Suc i) (hook_count_up i ?st) = (UC_ERR_OK, st')
        \<and> adding st' (put_lists (hook_ins (hook_count_up i ?st)) a (loop_bits type (Suc i)) ?L) D a h
        \<and> hooks_count st' = put_counts (loop_bits type (Suc i)) (hooks_count (hook_count_up i ?st))
        \<and> same_rest a (hook_count_up i ?st) st'"
      proof (rule 1(1) [OF run True _ refl _ ad 1(4)])
        show "(Some c, ?st) = hook_put (m i) i a st" using l'(1) c(1) by simp
      qed (use 1(5,6) in \<open>auto simp: hook_count_up_def\<close>)
      then show ?thesis unfolding step
        by (auto simp: hook_count_up_def same_rest_def eqs hook_ref_def split: option.splits)
    qed
  qed
qed

text \<open>The lists a new hook of the given type belongs to.\<close>

definition hook_idxs :: "u32 \<Rightarrow> nat \<Rightarrow> bool" where
  "hook_idxs type j \<longleftrightarrow>
     (if bit type 1 then j = UC_HOOK_INSN_IDX
      else if bit type 16 then j = UC_HOOK_TCG_OPCODE_IDX
      else j < UC_HOOK_MAX \<and> bit type j)"

lemma and_single_bit:
  "type AND UC_HOOK_INSN \<noteq> 0 \<longleftrightarrow> bit type 1"
  "type AND UC_HOOK_TCG_OPCODE \<noteq> 0 \<longleftrightarrow> bit type 16"
proof -
  have "UC_HOOK_INSN = push_bit 1 1" "UC_HOOK_TCG_OPCODE = push_bit 16 1"
    by (simp_all add: hook_consts push_bit_eq_mult)
  then show "type AND UC_HOOK_INSN \<noteq> 0 \<longleftrightarrow> bit type 1" "type AND UC_HOOK_TCG_OPCODE \<noteq> 0 \<longleftrightarrow> bit type 16"
    by (simp_all add: bit_iff_and_push_bit_not_eq_0)
qed

lemma hook_add_single_adding:
  assumes ad: "adding st L D a h" and i: "i < UC_HOOK_MAX" "a \<notin> set (L i)"
    and m: "m = Some c" "c \<notin> dom (items (hook st i))"
  shows "\<exists>st'. hook_add_single True m i a st = (UC_ERR_OK, st')
    \<and> adding st' (put_lists (hook_ins st) a (\<lambda>j. j = i) L) D a h
    \<and> hooks_count st' = put_counts (\<lambda>j. j = i) (hooks_count st) \<and> same_rest a st st'"
proof -
  have "list_rep (hook st i) (L i)" using ad i by (simp add: adding_def lists_ok_def)
  from hook_put_eq [OF this m(2), of a] obtain l' where l':
    "hook_put (Some c) i a st
      = (Some c, st\<lparr>hook := (hook st)(i := l'), hook_heap := hook_ref a (hook_heap st)\<rparr>)"
    "list_rep l' (put_list (hook_ins st) a (L i))" "delete_fn l' = delete_fn (hook st i)" by blast
  let ?st = "st\<lparr>hook := (hook st)(i := l'), hook_heap := hook_ref a (hook_heap st)\<rparr>"
  have L: "put_lists (hook_ins st) a (\<lambda>j. j = i) L = L(i := put_list (hook_ins st) a (L i))"
    by (auto simp: put_lists_def fun_eq_iff)
  have "hook_add_single True m i a st = (UC_ERR_OK, hook_count_up i ?st)"
    using l'(1) m(1) by (simp add: hook_add_single_def)
  moreover have "adding (hook_count_up i ?st) (put_lists (hook_ins st) a (\<lambda>j. j = i) L) D a h"
    using adding_put [OF ad i l'(2,3)] unfolding L adding_count_up .
  moreover have "hooks_count (hook_count_up i ?st) = put_counts (\<lambda>j. j = i) (hooks_count st)"
    "same_rest a st (hook_count_up i ?st)"
    by (auto simp: hook_count_up_def put_counts_def same_rest_def fun_eq_iff hook_ref_def
        split: option.splits)
  ultimately show ?thesis by blast
qed

lemma adding_start:
  assumes inv: "hooks_inv st L D" and new: "hook_heap st a = None" and h: "hk_refs h = 0" "\<not> hk_to_delete h"
  shows "adding (st\<lparr>hook_heap := (hook_heap st)(a \<mapsto> h)\<rparr>) L D a h" "occ L a = 0" "a \<notin> set D"
proof -
  from inv have ls: "lists_ok st L D" and ok: "heap_ok (hook_heap st) L D D"
    by (simp_all add: hooks_mid_def)
  show o: "occ L a = 0" and d: "a \<notin> set D"
    using heap_okD [OF ok, of a] new by (auto simp: count_list_0_iff)
  have "h\<lparr>hk_refs := 0\<rparr> = h" using h(1) by (cases h) simp
  then show "adding (st\<lparr>hook_heap := (hook_heap st)(a \<mapsto> h)\<rparr>) L D a h"
    using ls o d h heap_okD [OF ok] by (simp add: adding_def lists_ok_def)
qed

lemma adding_unused:
  assumes "adding st L D a h" and "occ L a = 0"
  shows "hooks_inv (hook_free a st) L D"
proof -
  have "heap_ok (hook_heap (hook_free a st)) L D D"
    unfolding heap_ok_def
  proof
    fix b
    show "case hook_heap (hook_free a st) b of
            None \<Rightarrow> occ L b + count_list D b = 0
          | Some h \<Rightarrow> hk_refs h = int (occ L b + count_list D b) \<and> 0 < hk_refs h
              \<and> (hk_to_delete h \<longleftrightarrow> b \<in> set D) \<and> (b \<in> set D \<longrightarrow> occ L b \<le> count_list D b)"
      using assms by (cases "b = a") (auto simp: adding_def hook_free_def count_list_0_iff)
  qed
  with assms(1) show ?thesis by (simp add: hooks_mid_def adding_def lists_ok_def hook_free_def)
qed

lemma counts_ok_put:
  assumes "counts_ok st L D" and "hooks_count st' = put_counts P (hooks_count st)" and "a \<notin> set D"
  shows "counts_ok st' (put_lists ins a P L) D"
  using assms by (simp add: counts_ok_def put_counts_def put_lists_def put_list_def)

text \<open>The validators accept the arguments of an instruction or opcode hook.\<close>

definition hook_args_valid :: "(int \<Rightarrow> bool) option \<Rightarrow> (int \<Rightarrow> int \<Rightarrow> bool) option \<Rightarrow> u32
    \<Rightarrow> int \<Rightarrow> int \<Rightarrow> int \<Rightarrow> bool" where
  "hook_args_valid insn_valid op_valid type insn op op_flags \<longleftrightarrow>
     (if bit type 1 then (case insn_valid of None \<Rightarrow> True | Some f \<Rightarrow> f insn)
      else if bit type 16 then (case op_valid of None \<Rightarrow> True | Some f \<Rightarrow> f op op_flags)
      else True)"

lemma uc_hook_add_inv:
  assumes inv: "hooks_inv st L D" and new: "hook_heap st a = None"
    and fresh: "fresh_hook_nodes m st" and pos: "\<not> bit type 31"
    and valid: "hook_args_valid insn_valid op_valid type insn op op_flags"
  shows "\<exists>st' h. uc_hook_add insn_valid op_valid (Some a) m type callback user_data begin ed insn op op_flags st
      = (UC_ERR_OK, Some a, if \<exists>j. hook_idxs type j then st' else hook_free a st')
    \<and> adding st' (put_lists (hook_ins st) a (hook_idxs type) L) D a h
    \<and> hooks_count st' = put_counts (hook_idxs type) (hooks_count st) \<and> same_rest a st st'
    \<and> hk_type h = type \<and> hk_callback h = callback \<and> hk_user_data h = user_data
    \<and> hk_begin h = begin \<and> hk_end h = ed \<and> hk_regions h = []"
proof -
  define h where "h = \<lparr>hk_type = type, hk_insn = 0, hk_refs = 0, hk_op = 0, hk_op_flags = 0,
    hk_to_delete = False, hk_begin = begin, hk_end = ed, hk_callback = callback,
    hk_user_data = user_data, hk_regions = []\<rparr>"
  define h' where "h' = (if bit type 1 then h\<lparr>hk_insn := insn\<rparr>
    else if bit type 16 then h\<lparr>hk_op := op, hk_op_flags := op_flags\<rparr> else h)"
  define s where "s = st\<lparr>hook_heap := (hook_heap st)(a \<mapsto> h')\<rparr>"
  have h': "hk_refs h' = 0" "\<not> hk_to_delete h'" by (simp_all add: h'_def h_def)
  note start = adding_start [OF inv new h', folded s_def]
  have nin: "\<forall>j. j < UC_HOOK_MAX \<longrightarrow> a \<notin> set (L j)" using start(2) by (simp add: occ_zero)
  have rest: "same_rest a s t \<Longrightarrow> same_rest a st t" and s: "hook s = hook st" "hook_ins s = hook_ins st"
    "hooks_count s = hooks_count st" for t by (auto simp: same_rest_def s_def)
  have fm: "\<exists>c. m j = Some c \<and> c \<notin> dom (items (hook s j))" if "j < UC_HOOK_MAX" for j
    using fresh that by (simp add: fresh_hook_nodes_def s)
  have one: "\<exists>t. hook_add_single True (m i) i a s = (UC_ERR_OK, t)
    \<and> adding t (put_lists (hook_ins st) a (\<lambda>j. j = i) L) D a h'
    \<and> hooks_count t = put_counts (\<lambda>j. j = i) (hooks_count st) \<and> same_rest a st t" if "i < UC_HOOK_MAX" for i
  proof -
    obtain c where "m i = Some c" "c \<notin> dom (items (hook s i))" using fm \<open>i < UC_HOOK_MAX\<close> by blast
    from hook_add_single_adding [OF start(1) that _ this] nin that rest show ?thesis by (auto simp: s)
  qed
  have flds: "hk_type h' = type \<and> hk_callback h' = callback \<and> hk_user_data h' = user_data
    \<and> hk_begin h' = begin \<and> hk_end h' = ed \<and> hk_regions h' = []" by (simp add: h'_def h_def)
  consider "bit type 1" | "\<not> bit type 1" "bit type 16" | "\<not> bit type 1" "\<not> bit type 16" by blast
  then show ?thesis
  proof cases
    case 1
    have idx: "hook_idxs type = (\<lambda>j. j = UC_HOOK_INSN_IDX)" using 1 by (auto simp: hook_idxs_def)
    obtain t where t: "hook_add_single True (m UC_HOOK_INSN_IDX) UC_HOOK_INSN_IDX a s = (UC_ERR_OK, t)"
      "adding t (put_lists (hook_ins st) a (\<lambda>j. j = UC_HOOK_INSN_IDX) L) D a h'"
      "hooks_count t = put_counts (\<lambda>j. j = UC_HOOK_INSN_IDX) (hooks_count st)" "same_rest a st t"
      using one [of UC_HOOK_INSN_IDX] by (auto simp: hook_consts)
    have "uc_hook_add insn_valid op_valid (Some a) m type callback user_data begin ed insn op op_flags st
      = (UC_ERR_OK, Some a, t)"
      using t(1) 1 valid
      by (simp add: uc_hook_add_def and_single_bit hook_args_valid_def s_def h'_def h_def Let_def)
    with t flds show ?thesis unfolding idx by auto
  next
    case 2
    have idx: "hook_idxs type = (\<lambda>j. j = UC_HOOK_TCG_OPCODE_IDX)" using 2 by (auto simp: hook_idxs_def)
    obtain t where t: "hook_add_single True (m UC_HOOK_TCG_OPCODE_IDX) UC_HOOK_TCG_OPCODE_IDX a s = (UC_ERR_OK, t)"
      "adding t (put_lists (hook_ins st) a (\<lambda>j. j = UC_HOOK_TCG_OPCODE_IDX) L) D a h'"
      "hooks_count t = put_counts (\<lambda>j. j = UC_HOOK_TCG_OPCODE_IDX) (hooks_count st)" "same_rest a st t"
      using one [of UC_HOOK_TCG_OPCODE_IDX] by (auto simp: hook_consts)
    have "uc_hook_add insn_valid op_valid (Some a) m type callback user_data begin ed insn op op_flags st
      = (UC_ERR_OK, Some a, t)"
      using t(1) 2 valid
      by (simp add: uc_hook_add_def and_single_bit hook_args_valid_def s_def h'_def h_def Let_def)
    with t flds show ?thesis unfolding idx by auto
  next
    case 3
    have idx: "hook_idxs type = loop_bits type 0" using 3 by (auto simp: hook_idxs_def)
    obtain t where t: "hook_add_loop type m a 0 s = (UC_ERR_OK, t)"
      "adding t (put_lists (hook_ins st) a (loop_bits type 0) L) D a h'"
      "hooks_count t = put_counts (loop_bits type 0) (hooks_count st)" "same_rest a st t"
      using hook_add_loop_adding [OF start(1) pos, of 0 m] nin fm rest by (auto simp: s)
    have "occ (put_lists (hook_ins st) a (loop_bits type 0) L) a = 0 \<longleftrightarrow> (\<nexists>j. loop_bits type 0 j)"
      using nin by (auto simp: occ_zero put_lists_def)
    then have refs: "(case hook_heap t a of None \<Rightarrow> False | Some k \<Rightarrow> hk_refs k = 0) \<longleftrightarrow> (\<nexists>j. hook_idxs type j)"
      using t(2) by (simp add: adding_def idx)
    have "uc_hook_add insn_valid op_valid (Some a) m type callback user_data begin ed insn op op_flags st
      = (UC_ERR_OK, Some a, if \<exists>j. hook_idxs type j then t else hook_free a t)"
      using t(1) refs 3 by (auto simp: uc_hook_add_def and_single_bit s_def h'_def h_def)
    with t flds show ?thesis unfolding idx by blast
  qed
qed

section \<open>The registry as a whole\<close>

text \<open>A registry that satisfies the invariant, with exact counters.\<close>

definition registry :: "('e) hook_state_scheme \<Rightarrow> (nat \<Rightarrow> addr list) \<Rightarrow> addr list \<Rightarrow> bool" where
  "registry st L D \<longleftrightarrow> hooks_inv st L D \<and> counts_ok st L D"

lemma registry_cong:
  assumes "registry st L D" and "\<And>i. i < UC_HOOK_MAX \<Longrightarrow> L' i = L i"
  shows "registry st L' D"
proof -
  have "occ L' = occ L" using assms(2) by (simp add: occ_def fun_eq_iff)
  then have "heap_ok hs L' D D = heap_ok hs L D D" for hs
    unfolding heap_ok_def by (simp cong: option.case_cong)
  then show ?thesis
    using assms by (simp add: registry_def hooks_mid_def lists_ok_def counts_ok_def)
qed

lemma registry_init: "registry hooks_init (\<lambda>_. []) []"
proof -
  have "list_rep hook_list_init []"
    using list_rep_new by (simp add: hook_list_init_def list_rep_def list_nodes_def list_new_def)
  moreover have "occ (\<lambda>_. []) a = 0" for a by (simp add: occ_def)
  ultimately show ?thesis
    by (simp add: registry_def hooks_mid_def lists_ok_def heap_ok_def counts_ok_def hooks_init_def
        hook_list_init_def)
qed

lemma fresh_nodes_init: "fresh_nodes Some (hooks_to_del hooks_init)" "fresh_hook_nodes Some hooks_init"
  by (auto simp: fresh_nodes_def fresh_hook_nodes_def hooks_init_def hook_list_init_def list_new_def)

lemma lists_with_pos: "0 < lists_with L a \<longleftrightarrow> (\<exists>i<UC_HOOK_MAX. a \<in> set (L i))"
  by (auto simp: lists_with_def filter_empty_conv)

lemma registry_add:
  assumes reg: "registry st L D" and new: "hook_heap st a = None"
    and fresh: "fresh_hook_nodes m st" and pos: "\<not> bit type 31"
    and valid: "hook_args_valid insn_valid op_valid type insn op op_flags"
  shows "\<exists>st'. uc_hook_add insn_valid op_valid (Some a) m type callback user_data begin ed insn op op_flags st
      = (UC_ERR_OK, Some a, st')
    \<and> registry st' (put_lists (hook_ins st) a (hook_idxs type) L) D
    \<and> (if \<exists>j. hook_idxs type j
       then \<exists>h. hook_heap st' a = Some h \<and> hk_callback h = callback \<and> hk_user_data h = user_data
         \<and> hk_begin h = begin \<and> hk_end h = ed \<and> \<not> hk_to_delete h
       else hook_heap st' a = None)
    \<and> (\<forall>b. b \<noteq> a \<longrightarrow> hook_heap st' b = hook_heap st b)"
proof -
  have inv: "hooks_inv st L D" and cnt: "counts_ok st L D" using reg by (simp_all add: registry_def)
  have d: "a \<notin> set D" and o: "occ L a = 0"
    using heap_okD [of "hook_heap st" L D D a] inv new by (auto simp: hooks_mid_def count_list_0_iff)
  let ?L = "put_lists (hook_ins st) a (hook_idxs type) L"
  obtain s h where s: "uc_hook_add insn_valid op_valid (Some a) m type callback user_data begin ed insn op op_flags st
      = (UC_ERR_OK, Some a, if \<exists>j. hook_idxs type j then s else hook_free a s)"
    "adding s ?L D a h" "hooks_count s = put_counts (hook_idxs type) (hooks_count st)" "same_rest a st s"
    "hk_callback h = callback" "hk_user_data h = user_data" "hk_begin h = begin" "hk_end h = ed"
    using uc_hook_add_inv [OF inv new fresh pos valid, of callback user_data "begin" ed] by blast
  have cnt': "counts_ok s ?L D" by (rule counts_ok_put [OF cnt s(3) d])
  have idx: "hook_idxs type j \<Longrightarrow> j < UC_HOOK_MAX" for j
    by (auto simp: hook_idxs_def hook_consts split: if_splits)
  show ?thesis
  proof (cases "\<exists>j. hook_idxs type j")
    case True
    then obtain j where "hook_idxs type j" by blast
    with idx [OF this] have "0 < occ ?L a" by (intro occ_pos) (auto simp: put_lists_def)
    with s True adding_done [OF s(2)] cnt' show ?thesis
      by (auto simp: registry_def same_rest_def adding_def)
  next
    case False
    then have L: "?L = L" by (auto simp: put_lists_def)
    with s(2) adding_unused o have "hooks_inv (hook_free a s) L D" by auto
    with False s L cnt' show ?thesis
      by (auto simp: registry_def same_rest_def hook_free_def counts_ok_def)
  qed
qed

lemma registry_del:
  assumes reg: "registry st L D" and fresh: "fresh_nodes m (hooks_to_del st)"
    and a: "a \<notin> set D" "hook_heap st a = Some h"
  shows "\<exists>st'. uc_hook_del m a st = Some (UC_ERR_OK, st')
    \<and> registry st' L (D @ replicate (lists_with L a) a)
    \<and> 0 < lists_with L a
    \<and> hook_heap st' = (hook_heap st)(a \<mapsto> hook_marked (lists_with L a) h)
    \<and> tb_invalidated st' = tb_invalidated st @ hk_regions h"
proof -
  have inv: "hooks_inv st L D" and cnt: "counts_ok st L D" using reg by (simp_all add: registry_def)
  have ds: "\<forall>i<UC_HOOK_MAX. distinct (L i)" using inv by (simp add: hooks_mid_def lists_ok_def)
  have pos: "0 < lists_with L a"
    using heap_okD [of "hook_heap st" L D D a] inv a occ_lists_with [OF ds, of a]
    by (auto simp: hooks_mid_def)
  from uc_hook_del_inv [OF inv fresh refl, of a] pos a(2) obtain l' where
    l': "uc_hook_del m a st = Some (UC_ERR_OK, del_result a h (lists_with L a) (\<lambda>i. i < UC_HOOK_MAX \<and> a \<in> set (L i)) l' st)"
      "hooks_inv (del_result a h (lists_with L a) (\<lambda>i. i < UC_HOOK_MAX \<and> a \<in> set (L i)) l' st) L (D @ replicate (lists_with L a) a)"
    by auto
  with counts_ok_del [OF cnt ds a(1) pos] pos show ?thesis
    by (auto simp: registry_def del_result_def)
qed

lemma registry_clear:
  assumes reg: "registry st L D"
  shows "\<exists>st'. clear_deleted_hooks st = Some st'
    \<and> registry st' (\<lambda>i. filter (\<lambda>a. a \<notin> set D) (L i)) []
    \<and> hook_heap st' = (\<lambda>a. if a \<in> set D then None else hook_heap st a)
    \<and> hooks_count st' = hooks_count st \<and> tb_invalidated st' = tb_invalidated st"
  using clear_deleted_hooks_inv [of st L D] reg
  by (auto simp: registry_def counts_ok_def)

lemma registry_del_clear:
  assumes reg: "registry st L D" and fresh: "fresh_nodes m (hooks_to_del st)"
    and a: "a \<notin> set D" "hook_heap st a = Some h"
  shows "\<exists>st1 st2. uc_hook_del m a st = Some (UC_ERR_OK, st1) \<and> clear_deleted_hooks st1 = Some st2
    \<and> registry st2 (\<lambda>i. filter (\<lambda>b. b \<noteq> a \<and> b \<notin> set D) (L i)) []
    \<and> hook_heap st2 = (\<lambda>b. if b = a \<or> b \<in> set D then None else hook_heap st b)
    \<and> (\<forall>i. hooks_count st2 i = hooks_count st1 i)"
proof -
  obtain st1 where st1: "uc_hook_del m a st = Some (UC_ERR_OK, st1)"
    "registry st1 L (D @ replicate (lists_with L a) a)" "0 < lists_with L a"
    "hook_heap st1 = (hook_heap st)(a \<mapsto> hook_marked (lists_with L a) h)"
    using registry_del [OF reg fresh a] by blast
  have D: "b \<in> set (D @ replicate (lists_with L a) a) \<longleftrightarrow> b = a \<or> b \<in> set D" for b
    using st1(3) by auto
  from registry_clear [OF st1(2)] st1(1,4) show ?thesis
    unfolding D by (auto simp: fun_eq_iff conj_commute)
qed

text \<open>The nodes of the list of deleted hooks after a deletion.\<close>

lemma uc_hook_del_from_dom:
  "uc_hook_del_from m a is st = Some st' \<Longrightarrow> \<forall>i\<in>set is. \<exists>c. m i = Some c \<Longrightarrow>
   dom (items (hooks_to_del st')) \<subseteq> dom (items (hooks_to_del st)) \<union> (the \<circ> m) ` set is"
proof (induction "is" arbitrary: st)
  case (Cons i "is")
  then obtain c where c: "m i = Some c" by auto
  from Cons.prems(1) obtain s where s: "uc_hook_del_at (m i) a i st = Some s" "uc_hook_del_from m a is s = Some st'"
    by (auto split: option.splits)
  have "hooks_to_del s = hooks_to_del st \<or> hooks_to_del s = snd (list_append (Some c) (hooks_to_del st) a)"
    using s(1) c by (auto simp: uc_hook_del_at_def hook_append_eq split: option.splits bool.splits)
  then have "dom (items (hooks_to_del s)) \<subseteq> insert c (dom (items (hooks_to_del st)))"
    using items_append_dom [of c "hooks_to_del st" a] by (elim disjE) (simp_all add: subset_insertI)
  then have "dom (items (hooks_to_del s)) \<union> (the \<circ> m) ` set is
      \<subseteq> dom (items (hooks_to_del st)) \<union> (the \<circ> m) ` set (i # is)"
    unfolding list.set image_insert comp_apply c option.sel by blast
  moreover have "dom (items (hooks_to_del st')) \<subseteq> dom (items (hooks_to_del s)) \<union> (the \<circ> m) ` set is"
    using Cons.IH [OF s(2)] Cons.prems(2) by simp
  ultimately show ?case by (rule order_trans [rotated])
qed simp

lemma uc_hook_del_dom:
  assumes "registry st L D" and "fresh_nodes m (hooks_to_del st)"
  shows "\<exists>st'. uc_hook_del m a st = Some (UC_ERR_OK, st')
    \<and> dom (items (hooks_to_del st')) \<subseteq> dom (items (hooks_to_del st)) \<union> (the \<circ> m) ` {..<UC_HOOK_MAX}"
proof -
  obtain st' where st': "uc_hook_del m a st = Some (UC_ERR_OK, st')"
    using uc_hook_del_inv [of st L D m, OF _ assms(2) refl] assms(1) by (auto simp: registry_def)
  then have "uc_hook_del_from m a [0..<UC_HOOK_MAX] st = Some st'" by (auto simp: uc_hook_del_def)
  moreover have "\<forall>i\<in>set [0..<UC_HOOK_MAX]. \<exists>c. m i = Some c" using assms(2) by (auto simp: fresh_nodes_def)
  ultimately have "dom (items (hooks_to_del st')) \<subseteq> dom (items (hooks_to_del st)) \<union> (the \<circ> m) ` set [0..<UC_HOOK_MAX]"
    by (rule uc_hook_del_from_dom)
  with st' show ?thesis unfolding set_upt lessThan_atLeast0 by blast
qed

section \<open>Properties\<close>

text \<open>
  C20. Adding a hook to a well-formed registry: every list the type selects, and no other,
  gets the hook, at the front or at the end as \<open>hook_insert\<close> says; the reference count is
  the number of these lists; the counters stay exact; no other hook is touched; and a hook
  that no list took is freed. The call reports success.
\<close>

theorem uc_hook_add_correct:
  assumes "registry st L D" and "hook_heap st a = None"
    and "fresh_hook_nodes m st" and "\<not> bit type 31"
    and "hook_args_valid insn_valid op_valid type insn op op_flags"
  shows "\<exists>st'. uc_hook_add insn_valid op_valid (Some a) m type callback user_data begin ed insn op op_flags st
      = (UC_ERR_OK, Some a, st')
    \<and> registry st' (put_lists (hook_ins st) a (hook_idxs type) L) D
    \<and> (if \<exists>j. hook_idxs type j
       then \<exists>h. hook_heap st' a = Some h \<and> hk_callback h = callback \<and> hk_user_data h = user_data
         \<and> hk_begin h = begin \<and> hk_end h = ed \<and> \<not> hk_to_delete h
       else hook_heap st' a = None)
    \<and> (\<forall>b. b \<noteq> a \<longrightarrow> hook_heap st' b = hook_heap st b)"
  using registry_add [OF assms] by blast

theorem uc_hook_add_correct_witness:
  "\<exists>st'. uc_hook_add None None (Some 100) Some 12 7 8 1 0 0 0 0 hooks_init = (UC_ERR_OK, Some 100, st')
    \<and> registry st' (put_lists False 100 (hook_idxs 12) (\<lambda>_. [])) []"
proof -
  have "hook_heap hooks_init 100 = None" "hook_ins hooks_init = False" by (simp_all add: hooks_init_def)
  moreover have "\<not> bit (12 :: u32) 31" by (simp add: bit_numeral_rec)
  moreover have "hook_args_valid None None 12 0 0 0" by (simp add: hook_args_valid_def)
  ultimately show ?thesis
    using uc_hook_add_correct [OF registry_init _ fresh_nodes_init(2), of 100 12 None None 0 0 0 7 8 1 0]
    by auto
qed

text \<open>
  C21. Deleting a live hook: the call returns, marks the hook, and from then on no address
  passes its bound check; every region it instrumented is invalidated; the counters stay
  exact. The next \<open>clear_deleted_hooks\<close> takes it (and every hook deleted before) out of
  every list, keeps the others in order, frees exactly the deleted hooks, and leaves
  nothing pending.
\<close>

theorem uc_hook_del_correct:
  assumes "registry st L D" and "fresh_nodes m (hooks_to_del st)"
    and "a \<notin> set D" and "hook_heap st a = Some h"
  shows "\<exists>st1 st2 h1. uc_hook_del m a st = Some (UC_ERR_OK, st1) \<and> clear_deleted_hooks st1 = Some st2
    \<and> registry st1 L (D @ replicate (lists_with L a) a)
    \<and> hook_heap st1 a = Some h1 \<and> (\<forall>x. \<not> HOOK_BOUND_CHECK h1 x)
    \<and> tb_invalidated st1 = tb_invalidated st @ hk_regions h
    \<and> registry st2 (\<lambda>i. filter (\<lambda>b. b \<noteq> a \<and> b \<notin> set D) (L i)) []
    \<and> hook_heap st2 = (\<lambda>b. if b = a \<or> b \<in> set D then None else hook_heap st b)"
proof -
  have "\<not> HOOK_BOUND_CHECK (hook_marked k h) x" if "0 < k" for k x
    using that by (simp add: HOOK_BOUND_CHECK_def hook_marked_def)
  with registry_del [OF assms] registry_del_clear [OF assms] show ?thesis by fastforce
qed

lemma registry_one_hook:
  "\<exists>st h. uc_hook_add None None (Some 100) Some 12 7 8 1 0 0 0 0 hooks_init = (UC_ERR_OK, Some 100, st)
    \<and> registry st (put_lists False 100 (hook_idxs 12) (\<lambda>_. [])) [] \<and> hook_heap st 100 = Some h
    \<and> hooks_to_del st = hooks_to_del hooks_init"
proof -
  have h: "hook_heap hooks_init 100 = None" "hook_ins hooks_init = False" by (simp_all add: hooks_init_def)
  have b: "\<not> bit (12 :: u32) 31" "hook_idxs 12 2" by (simp_all add: bit_numeral_rec hook_idxs_def hook_consts)
  have v: "hook_args_valid None None 12 0 0 0" by (simp add: hook_args_valid_def)
  have inv: "hooks_inv hooks_init (\<lambda>_. []) []" using registry_init by (simp add: registry_def)
  have "\<exists>j. hook_idxs 12 j" using b by blast
  with registry_add [OF registry_init h(1) fresh_nodes_init(2) b(1) v, of 7 8 1 0]
    uc_hook_add_inv [OF inv h(1) fresh_nodes_init(2) b(1) v, of 7 8 1 0] h(2)
  show ?thesis by (auto simp: same_rest_def)
qed

theorem uc_hook_del_correct_witness:
  "\<exists>st st1 st2. uc_hook_add None None (Some 100) Some 12 7 8 1 0 0 0 0 hooks_init = (UC_ERR_OK, Some 100, st)
    \<and> uc_hook_del Some 100 st = Some (UC_ERR_OK, st1) \<and> clear_deleted_hooks st1 = Some st2
    \<and> hook_heap st2 100 = None"
proof -
  obtain st h where st: "uc_hook_add None None (Some 100) Some 12 7 8 1 0 0 0 0 hooks_init = (UC_ERR_OK, Some 100, st)"
    "registry st (put_lists False 100 (hook_idxs 12) (\<lambda>_. [])) []" "hook_heap st 100 = Some h"
    "hooks_to_del st = hooks_to_del hooks_init" using registry_one_hook by blast
  have "fresh_nodes Some (hooks_to_del st)" using fresh_nodes_init(1) by (simp add: st(4))
  with uc_hook_del_correct [OF st(2), of Some 100 h] st show ?thesis by auto
qed

text \<open>
  C22. Adding, deleting and clearing is the identity: a hook that is registered, deleted and
  cleared leaves the lists, the objects on the heap and the set of pending deletions of a
  registry with no pending deletion as they were.
\<close>

theorem hook_add_del_clear_roundtrip:
  assumes "registry st L []" and "hook_heap st a = None"
    and "fresh_hook_nodes m st" and "fresh_nodes m' (hooks_to_del st)" and "\<not> bit type 31"
    and "hook_args_valid insn_valid op_valid type insn op op_flags" and "\<exists>j. hook_idxs type j"
  shows "\<exists>st1 st2 st3. uc_hook_add insn_valid op_valid (Some a) m type cb ud bg ed insn op op_flags st
      = (UC_ERR_OK, Some a, st1)
    \<and> uc_hook_del m' a st1 = Some (UC_ERR_OK, st2) \<and> clear_deleted_hooks st2 = Some st3
    \<and> registry st3 L [] \<and> hook_heap st3 = hook_heap st"
proof -
  let ?L = "put_lists (hook_ins st) a (hook_idxs type) L"
  obtain st1 h where st1: "uc_hook_add insn_valid op_valid (Some a) m type cb ud bg ed insn op op_flags st
      = (UC_ERR_OK, Some a, st1)" "registry st1 ?L []" "hook_heap st1 a = Some h"
      "\<forall>b. b \<noteq> a \<longrightarrow> hook_heap st1 b = hook_heap st b"
    using registry_add [OF assms(1,2,3,5,6), of cb ud bg ed] assms(7) by auto
  have inv: "hooks_inv st L []" using assms(1) by (simp add: registry_def)
  have "hooks_to_del st1 = hooks_to_del st"
    using uc_hook_add_inv [OF inv assms(2,3,5,6), of cb ud bg ed] st1(1) assms(7)
    by (auto simp: same_rest_def)
  with registry_del_clear [OF st1(2) _ _ st1(3), of m'] assms(4)
  obtain st2 st3 where st3: "uc_hook_del m' a st1 = Some (UC_ERR_OK, st2)" "clear_deleted_hooks st2 = Some st3"
    "registry st3 (\<lambda>i. filter (\<lambda>b. b \<noteq> a) (?L i)) []"
    "hook_heap st3 = (\<lambda>b. if b = a then None else hook_heap st1 b)" by auto
  have nin: "i < UC_HOOK_MAX \<Longrightarrow> a \<notin> set (L i)" for i
    using heap_okD [of "hook_heap st" L "[]" "[]" a] inv assms(2) by (simp add: hooks_mid_def occ_zero)
  have "i < UC_HOOK_MAX \<Longrightarrow> filter (\<lambda>b. b \<noteq> a) (?L i) = L i" for i
    using nin by (auto simp: put_lists_def put_list_def filter_id_conv)
  then have "registry st3 L []" using registry_cong [OF st3(3), of L] by simp
  moreover have "hook_heap st3 = hook_heap st" using st3(4) st1(4) assms(2) by (auto simp: fun_eq_iff)
  ultimately show ?thesis using st1(1) st3(1,2) by blast
qed

theorem hook_add_del_clear_roundtrip_witness:
  "\<exists>st1 st2 st3. uc_hook_add None None (Some 100) Some 12 7 8 1 0 0 0 0 hooks_init = (UC_ERR_OK, Some 100, st1)
    \<and> uc_hook_del Some 100 st1 = Some (UC_ERR_OK, st2) \<and> clear_deleted_hooks st2 = Some st3
    \<and> hook_heap st3 = hook_heap hooks_init"
proof -
  have "hook_heap hooks_init 100 = None" by (simp add: hooks_init_def)
  moreover have "\<not> bit (12 :: u32) 31" "hook_idxs 12 2"
    by (simp_all add: bit_numeral_rec hook_idxs_def hook_consts)
  moreover have "hook_args_valid None None 12 0 0 0" by (simp add: hook_args_valid_def)
  ultimately show ?thesis
    using hook_add_del_clear_roundtrip [OF registry_init _ fresh_nodes_init(2,1), of 100 12 None None 0 0 0 7 8 1 0]
    by blast
qed

text \<open>
  C23. Deleting a hook that is already deleted but not yet cleared lowers the counter of
  every list that holds it a second time, so the counter no longer is the number of live
  hooks (the translator picks its fast path for \<open>hooks_count[UC_HOOK_CODE_IDX] == 1\<close>).
\<close>

theorem uc_hook_del_twice_miscounts:
  assumes "registry st L D" and "fresh_nodes m (hooks_to_del st)"
    and "a \<in> set D" and "i < UC_HOOK_MAX" and "a \<in> set (L i)"
  shows "\<exists>st'. uc_hook_del m a st = Some (UC_ERR_OK, st')
    \<and> hooks_count st' i = int (length (filter (\<lambda>b. b \<notin> set D) (L i))) - 1"
proof -
  have inv: "hooks_inv st L D" "counts_ok st L D" using assms(1) by (simp_all add: registry_def)
  from uc_hook_del_inv [OF inv(1) assms(2) refl, of a] inv(2) assms(4,5) show ?thesis
    by (auto simp: del_result_def counts_ok_def)
qed

theorem uc_hook_del_twice_miscounts_witness:
  "\<exists>st st1 st2. uc_hook_add None None (Some 100) Some 12 7 8 1 0 0 0 0 hooks_init = (UC_ERR_OK, Some 100, st)
    \<and> uc_hook_del Some 100 st = Some (UC_ERR_OK, st1)
    \<and> uc_hook_del (\<lambda>i. Some (i + 50)) 100 st1 = Some (UC_ERR_OK, st2) \<and> hooks_count st2 2 = -1"
proof -
  let ?L = "put_lists False 100 (hook_idxs 12) (\<lambda>_. [])"
  obtain st h where st: "uc_hook_add None None (Some 100) Some 12 7 8 1 0 0 0 0 hooks_init = (UC_ERR_OK, Some 100, st)"
    "registry st ?L []" "hook_heap st 100 = Some h"
    "hooks_to_del st = hooks_to_del hooks_init" using registry_one_hook by blast
  have f: "fresh_nodes Some (hooks_to_del st)" using fresh_nodes_init(1) by (simp add: st(4))
  have idx: "hook_idxs 12 2" by (simp add: bit_numeral_rec hook_idxs_def hook_consts)
  then have L2: "?L 2 = [100]" by (simp add: put_lists_def put_list_def)
  have two: "(2::nat) < UC_HOOK_MAX" by (simp add: hook_consts)
  define D where "D = replicate (lists_with ?L 100) (100 :: addr)"
  have D: "set D = {100}" using lists_with_pos [of ?L 100] L2 two by (auto simp: D_def)
  obtain st1 where st1: "uc_hook_del Some 100 st = Some (UC_ERR_OK, st1)" "registry st1 ?L D"
    using registry_del [OF st(2) f _ st(3)] by (auto simp: D_def)
  have e: "dom (items (hooks_to_del st)) = {}"
    by (simp add: st(4) hooks_init_def hook_list_init_def list_new_def)
  have "dom (items (hooks_to_del st1)) \<subseteq> {..<18}"
    using uc_hook_del_dom [OF st(2) f, of 100] st1(1) by (simp add: e hook_consts)
  then have "c + 50 \<notin> dom (items (hooks_to_del st1))" for c by auto
  then have "fresh_nodes (\<lambda>i. Some (i + 50)) (hooks_to_del st1)"
    by (simp add: fresh_nodes_def inj_on_def)
  from uc_hook_del_twice_miscounts [OF st1(2) this, of 100 2] D two
  obtain st2 where "uc_hook_del (\<lambda>i. Some (i + 50)) 100 st1 = Some (UC_ERR_OK, st2)" "hooks_count st2 2 = -1"
    unfolding L2 by auto
  with st(1) st1(1) show ?thesis by blast
qed

end
