(* ===== verification/Emu.thy ===== *)
theory Emu
  imports Hook_Api
begin

text \<open>
  Running the emulation: \<open>uc_emu_start\<close>, \<open>uc_emu_stop\<close>, the instruction counter
  \<open>hook_count_cb\<close> and the helpers that call hooks at run time, \<open>helper_uc_tracecode\<close> and
  \<open>helper_uc_traceopcode\<close>, with the bookkeeping of hooked regions of \<open>include/uc_priv.h\<close>.

  The state extends the hook registry. A callback is a number, \<open>HOOK_COUNT_CB\<close> is the
  address of \<open>hook_count_cb\<close>, and what every other callback does is an argument, as is
  \<open>vm_start\<close>, the execution of translated code. \<open>JIT_CALLBACK_GUARD\<close> only switches the
  protection of the code buffer and is the identity here.
\<close>

section \<open>State\<close>

datatype arch = UC_ARCH_M68K | UC_ARCH_X86 | UC_ARCH_ARM | UC_ARCH_ARM64 | UC_ARCH_MIPS
  | UC_ARCH_SPARC | UC_ARCH_PPC | UC_ARCH_RISCV | UC_ARCH_S390X | UC_ARCH_TRICORE

datatype pc_reg = UC_M68K_REG_PC | UC_X86_REG_IP | UC_X86_REG_EIP | UC_X86_REG_RIP | UC_ARM_REG_R15
  | UC_ARM64_REG_PC | UC_MIPS_REG_PC | UC_SPARC_REG_PC | UC_PPC_REG_PC | UC_RISCV_REG_PC
  | UC_S390X_REG_PC | UC_TRICORE_REG_PC

record emu_state = hook_state +
  emu_arch :: arch
  emu_mode :: u32
  emu_counter :: u64
  emu_count :: u64
  invalid_error :: uc_err
  emulation_done :: bool
  size_recur_mem :: int
  timed_out :: bool
  timer_ns :: "u64 option"
  first_tb :: bool
  nested_level :: nat
  skip_sync_pc :: bool
  emu_stop :: bool
  emu_quit :: bool
  cpu_exit :: bool
  count_hook :: ptr
  use_exits :: bool
  exits :: "nat \<Rightarrow> u64"
  tb_flushes :: nat
  reg_cs :: u16
  reg_pc :: "(pc_reg \<times> u64) option"

type_synonym callback = "u64 \<Rightarrow> int \<Rightarrow> nat \<Rightarrow> emu_state \<Rightarrow> emu_state"

definition UC_MAX_NESTED_LEVEL :: nat where "UC_MAX_NESTED_LEVEL = 64"
definition UC_MODE_16 :: u32 where "UC_MODE_16 = 2"
definition UC_MODE_32 :: u32 where "UC_MODE_32 = 4"
definition UC_MODE_64 :: u32 where "UC_MODE_64 = 8"
definition UC_HOOK_FLAG_NO_STOP :: u32 where "UC_HOOK_FLAG_NO_STOP = 64"
definition UC_HOOK_IDX_MASK :: u32 where "UC_HOOK_IDX_MASK = 63"
definition HOOK_COUNT_CB :: nat where "HOOK_COUNT_CB = 0"

section \<open>Stopping\<close>

definition break_translation_loop :: "emu_state \<Rightarrow> emu_state" where
  "break_translation_loop st = (if emulation_done st then st else st\<lparr>cpu_exit := True\<rparr>)"

definition uc_emu_stop :: "emu_state \<Rightarrow> uc_err \<times> emu_state" where
  "uc_emu_stop st = (UC_ERR_OK, break_translation_loop (st\<lparr>emu_stop := True\<rparr>))"

definition revert_uc_emu_stop :: "emu_state \<Rightarrow> emu_state" where
  "revert_uc_emu_stop st = st\<lparr>emu_stop := False, cpu_exit := False\<rparr>"

definition hook_count_cb :: callback where
  "hook_count_cb address sz user_data st =
     (let st1 = st\<lparr>emu_counter := emu_counter st + 1\<rparr>
      in if emu_counter st1 > emu_count st1 then snd (uc_emu_stop st1) else st1)"

section \<open>Calling hooks\<close>

definition run_callback :: "(nat \<Rightarrow> callback) \<Rightarrow> hook \<Rightarrow> u64 \<Rightarrow> int \<Rightarrow> emu_state \<Rightarrow> emu_state" where
  "run_callback user h address sz st =
     (if hk_callback h = HOOK_COUNT_CB then hook_count_cb address sz (hk_user_data h) st
      else user (hk_callback h) address sz (hk_user_data h) st)"

text \<open>
  The loop of \<open>helper_uc_tracecode\<close> from the list item \<open>cur\<close> on. The link to the next item is
  read after the callback has run, so that hooks added by it are seen. \<open>None\<close> is a use of a
  freed item or hook.
\<close>

definition next_item :: "nat \<Rightarrow> addr \<Rightarrow> emu_state \<Rightarrow> ptr option" where
  "next_item i c st = map_option item_next (items (hook st i) c)"

partial_function (option) tracecode_loop ::
  "(nat \<Rightarrow> callback) \<Rightarrow> bool \<Rightarrow> int \<Rightarrow> nat \<Rightarrow> u64 \<Rightarrow> ptr \<Rightarrow> emu_state \<Rightarrow> emu_state option" where
  "tracecode_loop user no_stop sz i address cur st =
     (case cur of
        None \<Rightarrow> Some st
      | Some c \<Rightarrow>
          (case items (hook st i) c of
             None \<Rightarrow> None
           | Some it \<Rightarrow>
               (case hook_heap st (item_data it) of
                  None \<Rightarrow> None
                | Some h \<Rightarrow>
                    if hk_to_delete h then tracecode_loop user no_stop sz i address (item_next it) st
                    else if sz = 0 then
                      Some (if i = UC_HOOK_CODE_IDX \<and> count_hook st \<noteq> None
                            then run_callback user h address sz st else st)
                    else
                      (let st1 = (if HOOK_BOUND_CHECK h address then run_callback user h address sz st else st)
                       in if \<not> no_stop \<and> emu_stop st1 then Some st1
                          else
                            (let st2 = (if no_stop \<and> emu_stop st1 then revert_uc_emu_stop st1 else st1)
                             in case next_item i c st2 of
                                  None \<Rightarrow> None
                                | Some nx \<Rightarrow> tracecode_loop user no_stop sz i address nx st2)))))"

definition helper_uc_tracecode ::
  "(nat \<Rightarrow> callback) \<Rightarrow> int \<Rightarrow> u32 \<Rightarrow> u64 \<Rightarrow> emu_state \<Rightarrow> emu_state option" where
  "helper_uc_tracecode user sz index address st =
     (let no_stop = (index AND UC_HOOK_FLAG_NO_STOP \<noteq> 0);
          i = unat (index AND UC_HOOK_IDX_MASK)
      in if emu_stop st \<and> \<not> no_stop then Some st
         else
           (let st1 = (if no_stop \<and> emu_stop st then revert_uc_emu_stop st else st)
            in tracecode_loop user no_stop sz i address (head (hook st1 i)) st1))"

text \<open>\<open>helper_uc_traceopcode\<close>; the callback gets the two operands of the traced operation.\<close>

definition helper_uc_traceopcode ::
  "(nat \<Rightarrow> u64 \<Rightarrow> u64 \<Rightarrow> u64 \<Rightarrow> u32 \<Rightarrow> nat \<Rightarrow> emu_state \<Rightarrow> emu_state) \<Rightarrow> addr \<Rightarrow> u64 \<Rightarrow> u64 \<Rightarrow> u32 \<Rightarrow> u64
    \<Rightarrow> emu_state \<Rightarrow> emu_state option" where
  "helper_uc_traceopcode user a arg1 arg2 sz address st =
     (if emu_stop st then Some st
      else case hook_heap st a of
        None \<Rightarrow> None
      | Some h \<Rightarrow>
          if hk_to_delete h then Some st
          else Some (user (hk_callback h) address arg1 arg2 sz (hk_user_data h) st))"

section \<open>Hooked regions\<close>

text \<open>\<open>hooked_regions\<close> is a hash table with the regions as keys, hence a list without repetitions.\<close>

definition hooked_regions_add :: "u64 \<Rightarrow> u64 \<Rightarrow> hook \<Rightarrow> hook" where
  "hooked_regions_add start len h =
     (if (start, len) \<in> set (hk_regions h) then h
      else h\<lparr>hk_regions := hk_regions h @ [(start, len)]\<rparr>)"

partial_function (option) hooked_regions_check_single ::
  "hook_list \<Rightarrow> u64 \<Rightarrow> u64 \<Rightarrow> ptr \<Rightarrow> hook_heap \<Rightarrow> hook_heap option" where
  "hooked_regions_check_single l start len cur hs =
     (case cur of
        None \<Rightarrow> Some hs
      | Some c \<Rightarrow>
          (case items l c of
             None \<Rightarrow> None
           | Some it \<Rightarrow>
               (case hs (item_data it) of
                  None \<Rightarrow> None
                | Some h \<Rightarrow>
                    hooked_regions_check_single l start len (item_next it)
                      (if HOOK_BOUND_CHECK h start
                       then hs(item_data it \<mapsto> hooked_regions_add start len h) else hs))))"

definition hooked_regions_check :: "u64 \<Rightarrow> u64 \<Rightarrow> emu_state \<Rightarrow> emu_state option" where
  "hooked_regions_check start len st =
     (let code = hook st UC_HOOK_CODE_IDX; block = hook st UC_HOOK_BLOCK_IDX
      in case hooked_regions_check_single code start len (head code) (hook_heap st) of
           None \<Rightarrow> None
         | Some hs \<Rightarrow>
             map_option (\<lambda>hs'. st\<lparr>hook_heap := hs'\<rparr>)
               (hooked_regions_check_single block start len (head block) hs))"

section \<open>Starting\<close>

text \<open>\<open>uc_reg_write\<close> of a program counter.\<close>

definition write_pc :: "pc_reg \<Rightarrow> u64 \<Rightarrow> emu_state \<Rightarrow> emu_state" where
  "write_pc r v st =
     break_translation_loop (st\<lparr>reg_pc := Some (r, v), emu_quit := True, skip_sync_pc := True\<rparr>)"

definition set_begin :: "u64 \<Rightarrow> emu_state \<Rightarrow> emu_state" where
  "set_begin start st =
     (let pc32 = ucast (ucast start :: u32)
      in case emu_arch st of
        UC_ARCH_M68K \<Rightarrow> write_pc UC_M68K_REG_PC pc32 st
      | UC_ARCH_X86 \<Rightarrow>
          (if emu_mode st = UC_MODE_16 then
             write_pc UC_X86_REG_IP (ucast (ucast (start - ucast (reg_cs st) * 16) :: u16)) st
           else if emu_mode st = UC_MODE_32 then write_pc UC_X86_REG_EIP pc32 st
           else if emu_mode st = UC_MODE_64 then write_pc UC_X86_REG_RIP start st
           else st)
      | UC_ARCH_ARM \<Rightarrow> write_pc UC_ARM_REG_R15 pc32 st
      | UC_ARCH_ARM64 \<Rightarrow> write_pc UC_ARM64_REG_PC start st
      | UC_ARCH_MIPS \<Rightarrow>
          write_pc UC_MIPS_REG_PC (if emu_mode st AND UC_MODE_64 \<noteq> 0 then start else pc32) st
      | UC_ARCH_SPARC \<Rightarrow> write_pc UC_SPARC_REG_PC start st
      | UC_ARCH_PPC \<Rightarrow>
          write_pc UC_PPC_REG_PC (if emu_mode st AND UC_MODE_64 \<noteq> 0 then start else pc32) st
      | UC_ARCH_RISCV \<Rightarrow>
          write_pc UC_RISCV_REG_PC (if emu_mode st AND UC_MODE_64 \<noteq> 0 then start else pc32) st
      | UC_ARCH_S390X \<Rightarrow> write_pc UC_S390X_REG_PC start st
      | UC_ARCH_TRICORE \<Rightarrow> write_pc UC_TRICORE_REG_PC pc32 st)"

text \<open>The count hook: removed when no count is given, added at the front of the code hooks otherwise.\<close>

definition drop_count_hook :: "(nat \<Rightarrow> ptr) \<Rightarrow> emu_state \<Rightarrow> emu_state option" where
  "drop_count_hook m st =
     (case count_hook st of
        None \<Rightarrow> Some st
      | Some a \<Rightarrow>
          map_option (\<lambda>(err, st'). st'\<lparr>count_hook := None, tb_flushes := tb_flushes st' + 1\<rparr>)
            (uc_hook_del m a st))"

definition add_count_hook :: "ptr \<Rightarrow> (nat \<Rightarrow> ptr) \<Rightarrow> emu_state \<Rightarrow> uc_err \<times> emu_state" where
  "add_count_hook hk m st =
     (if count_hook st \<noteq> None then (UC_ERR_OK, st)
      else
        (let (err, h, st') = uc_hook_add None None hk m UC_HOOK_CODE HOOK_COUNT_CB 0 1 0 0 0 0 (st\<lparr>hook_ins := True\<rparr>)
         in (err, st'\<lparr>hook_ins := False, count_hook := (if hk = None then count_hook st' else h)\<rparr>)))"

text \<open>
  \<open>uc_emu_start\<close>. \<open>hk\<close> and \<open>m\<close> are the allocations for the count hook, \<open>m'\<close> those for its
  deletion. \<open>vm\<close> is \<open>vm_start\<close>.
\<close>

definition emu_finish :: "emu_state \<Rightarrow> (uc_err \<times> emu_state) option" where
  "emu_finish st =
     map_option (\<lambda>st'. (invalid_error st', st'\<lparr>invalid_error := UC_ERR_OK\<rparr>))
       (let st1 = st\<lparr>nested_level := nested_level st - 1\<rparr>
        in if nested_level st1 = 0 then clear_deleted_hooks (st1\<lparr>emulation_done := True\<rparr>) else Some st1)"

definition uc_emu_start ::
  "(emu_state \<Rightarrow> emu_state) \<Rightarrow> ptr \<Rightarrow> (nat \<Rightarrow> ptr) \<Rightarrow> (nat \<Rightarrow> ptr) \<Rightarrow> u64 \<Rightarrow> u64 \<Rightarrow> u64 \<Rightarrow> u64
    \<Rightarrow> emu_state \<Rightarrow> (uc_err \<times> emu_state) option" where
  "uc_emu_start vm hk m m' start until timeout count st =
     (let st0 = st\<lparr>emu_counter := 0, invalid_error := UC_ERR_OK, emulation_done := False,
                   size_recur_mem := 0, timed_out := False, first_tb := True\<rparr>
      in if nested_level st0 \<ge> UC_MAX_NESTED_LEVEL then Some (UC_ERR_RESOURCE, st0)
         else
           (let st1 = set_begin start (st0\<lparr>nested_level := nested_level st0 + 1\<rparr>);
                st2 = st1\<lparr>skip_sync_pc := False, emu_stop := False, emu_count := count\<rparr>
            in case (if count = 0 then drop_count_hook m' st2 else Some st2) of
                 None \<Rightarrow> None
               | Some st3 \<Rightarrow>
                   (let (err, st4) = (if count > 0 then add_count_hook hk m st3 else (UC_ERR_OK, st3))
                    in if err \<noteq> UC_ERR_OK then Some (err, st4\<lparr>nested_level := nested_level st4 - 1\<rparr>)
                       else
                         (let st5 = (if use_exits st4 then st4
                                     else st4\<lparr>exits := (exits st4)(nested_level st4 - 1 := until)\<rparr>);
                              st6 = (if timeout \<noteq> 0 then st5\<lparr>timer_ns := Some (timeout * 1000)\<rparr> else st5)
                          in emu_finish (vm st6)))))"

end
