(* ===== verification/Emu_Props.thy ===== *)
theory Emu_Props
  imports Emu
begin

text \<open>
  What running the hooks does: the helper calls exactly the live hooks whose range contains
  the address, in list order; the count hook ends the emulation after the requested number
  of instructions; and starting the emulation is balanced in the nesting level and leaves
  no deleted hook behind.
\<close>

section \<open>Calling the hooks of a list\<close>

text \<open>Callbacks that leave the hook registry alone.\<close>

definition same_hooks :: "emu_state \<Rightarrow> emu_state \<Rightarrow> bool" where
  "same_hooks st st' \<longleftrightarrow> hook_heap st' = hook_heap st \<and> hook st' = hook st \<and> hooks_to_del st' = hooks_to_del st
     \<and> hooks_count st' = hooks_count st"

definition keeps_hooks :: "(nat \<Rightarrow> callback) \<Rightarrow> bool" where
  "keeps_hooks user \<longleftrightarrow> (\<forall>c a s u st. same_hooks st (user c a s u st))"

fun run_until_stop :: "bool \<Rightarrow> (emu_state \<Rightarrow> emu_state) list \<Rightarrow> emu_state \<Rightarrow> emu_state" where
  "run_until_stop no_stop [] st = st"
| "run_until_stop no_stop (f # fs) st =
     (if \<not> emu_stop (f st) then run_until_stop no_stop fs (f st)
      else if no_stop then run_until_stop no_stop fs (revert_uc_emu_stop (f st))
      else f st)"

definition callbacks_at :: "(nat \<Rightarrow> callback) \<Rightarrow> u64 \<Rightarrow> int \<Rightarrow> hook list \<Rightarrow> (emu_state \<Rightarrow> emu_state) list" where
  "callbacks_at user address sz hs =
     map (\<lambda>h. run_callback user h address sz) (filter (\<lambda>h. HOOK_BOUND_CHECK h address) hs)"

lemma same_hooks_refl [simp]: "same_hooks st st"
  by (simp add: same_hooks_def)

lemma same_hooks_trans: "same_hooks a b \<Longrightarrow> same_hooks b c \<Longrightarrow> same_hooks a c"
  by (simp add: same_hooks_def)

lemma same_hooks_stop [simp]: "same_hooks st (snd (uc_emu_stop st))" "same_hooks st (revert_uc_emu_stop st)"
  by (simp_all add: same_hooks_def uc_emu_stop_def break_translation_loop_def revert_uc_emu_stop_def)

lemma same_hooks_count: "same_hooks st (hook_count_cb a s u st)"
  by (simp add: hook_count_cb_def Let_def uc_emu_stop_def break_translation_loop_def same_hooks_def)

lemma same_hooks_run: "keeps_hooks user \<Longrightarrow> same_hooks st (run_callback user h a s st)"
  by (simp add: run_callback_def same_hooks_count keeps_hooks_def)

lemma revert_stop [simp]: "emu_stop (revert_uc_emu_stop st) = False"
  by (simp add: revert_uc_emu_stop_def)

text \<open>From any point of the list on, the loop runs the callbacks of the remaining hooks.\<close>

lemma tracecode_loop_seg:
  assumes user: "keeps_hooks user" and sz: "sz \<noteq> 0"
  shows "seg (items (hook st i)) cur as None \<Longrightarrow> \<forall>a\<in>set as. hook_heap st (item_data (the (items (hook st i) a))) = Some (H a)
     \<Longrightarrow> \<not> emu_stop st \<Longrightarrow>
    tracecode_loop user no_stop sz i address cur st = Some (run_until_stop no_stop (callbacks_at user address sz (map H as)) st)"
proof (induction as arbitrary: cur st)
  case Nil
  then show ?case by (subst tracecode_loop.simps) (simp add: callbacks_at_def)
next
  case (Cons a as)
  then obtain it where cur: "cur = Some a" and it: "items (hook st i) a = Some it"
    and sg: "seg (items (hook st i)) (item_next it) as None" by (auto split: option.splits)
  have h: "hook_heap st (item_data it) = Some (H a)" using Cons.prems(2) it by simp
  define st1 where "st1 = (if HOOK_BOUND_CHECK (H a) address then run_callback user (H a) address sz st else st)"
  have s1: "same_hooks st st1" using same_hooks_run [OF user] by (simp add: st1_def)
  have IH: "tracecode_loop user no_stop sz i address (item_next it) s =
      Some (run_until_stop no_stop (callbacks_at user address sz (map H as)) s)"
    if "same_hooks st s" "\<not> emu_stop s" for s
    using Cons.IH [of s "item_next it"] Cons.prems(2) sg that by (simp add: same_hooks_def)
  have nx: "next_item i a s = Some (item_next it)" if "same_hooks st s" for s
    using that it by (simp add: next_item_def same_hooks_def)
  show ?case
  proof (cases "hk_to_delete (H a)")
    case True
    then show ?thesis using cur it h IH [of st] Cons.prems(3)
      by (subst tracecode_loop.simps) (simp add: callbacks_at_def HOOK_BOUND_CHECK_def)
  next
    case False
    have "tracecode_loop user no_stop sz i address cur st =
      (if \<not> no_stop \<and> emu_stop st1 then Some st1
       else Some (run_until_stop no_stop (callbacks_at user address sz (map H as))
              (if no_stop \<and> emu_stop st1 then revert_uc_emu_stop st1 else st1)))"
      using cur it h False sz nx [OF s1] nx [OF same_hooks_trans [OF s1 same_hooks_stop(2)]]
        IH [OF s1] IH [OF same_hooks_trans [OF s1 same_hooks_stop(2)]]
      by (subst tracecode_loop.simps) (cases no_stop; simp add: Let_def flip: st1_def)
    then show ?thesis using Cons.prems(3) by (auto simp: callbacks_at_def st1_def)
  qed
qed

lemma tracecode_helper:
  assumes user: "keeps_hooks user" and sz: "sz \<noteq> 0" and i: "i = unat (index AND UC_HOOK_IDX_MASK)"
    and rep: "list_rep (hook st i) as" and heap: "\<forall>a\<in>set as. hook_heap st a = Some (H a)"
    and go: "\<not> emu_stop st"
  shows "helper_uc_tracecode user sz index address st =
    Some (run_until_stop (index AND UC_HOOK_FLAG_NO_STOP \<noteq> 0) (callbacks_at user address sz (map H as)) st)"
proof -
  obtain ns where ns: "list_nodes (hook st i) ns" "as = nodes_data (items (hook st i)) ns"
    using rep by (auto simp: list_rep_def)
  have "tracecode_loop user b sz i address (head (hook st i)) st =
      Some (run_until_stop b (callbacks_at user address sz (map (\<lambda>n. H (item_data (the (items (hook st i) n)))) ns)) st)" for b
    using tracecode_loop_seg [OF user sz, of st i "head (hook st i)" ns "\<lambda>n. H (item_data (the (items (hook st i) n)))"]
      ns heap go by (auto simp: list_nodes_def nodes_data_def)
  moreover have "map (\<lambda>n. H (item_data (the (items (hook st i) n)))) ns = map H as"
    by (simp add: ns(2) nodes_data_def)
  ultimately show ?thesis using go by (simp add: helper_uc_tracecode_def Let_def flip: i)
qed

section \<open>The instruction counter\<close>

text \<open>Callbacks that also leave the counters and the stop request alone.\<close>

definition quiet :: "(nat \<Rightarrow> callback) \<Rightarrow> bool" where
  "quiet user \<longleftrightarrow> keeps_hooks user \<and> (\<forall>c a s u st. let st' = user c a s u st in
     emu_counter st' = emu_counter st \<and> emu_count st' = emu_count st \<and> emu_stop st' = emu_stop st)"

definition count_entry :: "hook \<Rightarrow> bool" where
  "count_entry h \<longleftrightarrow> hk_callback h = HOOK_COUNT_CB \<and> hk_begin h > hk_end h \<and> \<not> hk_to_delete h"

text \<open>One call of the code hooks per executed instruction.\<close>

fun trace_instrs :: "(nat \<Rightarrow> callback) \<Rightarrow> (u64 \<times> int) list \<Rightarrow> emu_state \<Rightarrow> emu_state option" where
  "trace_instrs user [] st = Some st"
| "trace_instrs user ((address, sz) # ins) st =
     (case helper_uc_tracecode user sz (of_nat UC_HOOK_CODE_IDX) address st of
        None \<Rightarrow> None | Some st' \<Rightarrow> trace_instrs user ins st')"

lemma run_quiet:
  assumes q: "quiet user" and no: "\<forall>h\<in>set hs. hk_callback h \<noteq> HOOK_COUNT_CB" and go: "\<not> emu_stop st"
  shows "let st' = run_until_stop b (callbacks_at user a s hs) st
    in same_hooks st st' \<and> emu_counter st' = emu_counter st \<and> emu_count st' = emu_count st \<and> \<not> emu_stop st'"
  using no go
proof (induction hs arbitrary: st)
  case Nil
  then show ?case by (simp add: callbacks_at_def)
next
  case (Cons h hs)
  let ?st1 = "run_callback user h a s st"
  have "same_hooks st ?st1 \<and> emu_counter ?st1 = emu_counter st \<and> emu_count ?st1 = emu_count st \<and> \<not> emu_stop ?st1"
    using q Cons.prems by (auto simp: run_callback_def quiet_def keeps_hooks_def Let_def)
  then show ?case using Cons.IH [of ?st1] Cons.IH [of st] Cons.prems same_hooks_trans [of st ?st1]
    by (auto simp: callbacks_at_def Let_def)
qed

lemma tracecode_count:
  assumes q: "quiet user" and sz: "sz \<noteq> 0" and rep: "list_rep (hook st UC_HOOK_CODE_IDX) (c # as)"
    and heap: "\<forall>a\<in>set (c # as). hook_heap st a = Some (H a)" and ce: "count_entry (H c)"
    and no: "\<forall>a\<in>set as. hk_callback (H a) \<noteq> HOOK_COUNT_CB" and go: "\<not> emu_stop st"
  shows "\<exists>st'. helper_uc_tracecode user sz (of_nat UC_HOOK_CODE_IDX) address st = Some st' \<and> same_hooks st st'
    \<and> emu_counter st' = emu_counter st + 1 \<and> emu_count st' = emu_count st
    \<and> (emu_stop st' \<longleftrightarrow> emu_counter st + 1 > emu_count st)"
proof -
  let ?st1 = "run_callback user (H c) address sz st"
  have c: "same_hooks st ?st1" "emu_counter ?st1 = emu_counter st + 1" "emu_count ?st1 = emu_count st"
    "emu_stop ?st1 \<longleftrightarrow> emu_counter st + 1 > emu_count st"
    using ce go same_hooks_count
    by (auto simp: run_callback_def count_entry_def hook_count_cb_def Let_def uc_emu_stop_def break_translation_loop_def
        same_hooks_def)
  have k: "keeps_hooks user" using q by (simp add: quiet_def)
  have idx: "UC_HOOK_CODE_IDX = unat ((of_nat UC_HOOK_CODE_IDX :: u32) AND UC_HOOK_IDX_MASK)"
    "(of_nat UC_HOOK_CODE_IDX :: u32) AND UC_HOOK_FLAG_NO_STOP = 0"
    by (simp_all add: hook_consts UC_HOOK_IDX_MASK_def UC_HOOK_FLAG_NO_STOP_def)
  have bc: "HOOK_BOUND_CHECK (H c) address" using ce by (auto simp: count_entry_def HOOK_BOUND_CHECK_def)
  have r: "helper_uc_tracecode user sz (of_nat UC_HOOK_CODE_IDX) address st =
      Some (if emu_stop ?st1 then ?st1 else run_until_stop False (callbacks_at user address sz (map H as)) ?st1)"
    using tracecode_helper [OF k sz idx(1) rep heap go, of address] bc by (simp add: callbacks_at_def idx(2))
  show ?thesis
  proof (cases "emu_stop ?st1")
    case True
    then show ?thesis using r c by auto
  next
    case False
    then show ?thesis
      using r c run_quiet [OF q, of "map H as" ?st1 False address sz] no same_hooks_trans [OF c(1)]
      by (auto simp: Let_def)
  qed
qed

section \<open>Hook operations leave the rest of the engine alone\<close>

lemma hook_put_more: "hook_put m i a st = (item, st') \<Longrightarrow> hook_state.more st' = hook_state.more st"
  by (auto simp: hook_put_def split: prod.splits)

lemma hook_count_up_more [simp]: "hook_state.more (hook_count_up i st) = hook_state.more st"
  "hook_state.more (hook_free a st) = hook_state.more st"
  by (simp_all add: hook_count_up_def hook_free_def)

lemma hook_add_loop_more: "hook_add_loop type m a i st = (err, st') \<Longrightarrow> hook_state.more st' = hook_state.more st"
proof (induction type m a i st rule: hook_add_loop.induct)
  case (1 type m a i st)
  then show ?case
    by (subst (asm) (3) hook_add_loop.simps)
      (auto simp: hook_put_more split: if_splits prod.splits dest!: hook_put_more)
qed

lemma hook_add_single_more: "hook_add_single v m i a st = (err, st') \<Longrightarrow> hook_state.more st' = hook_state.more st"
  by (auto simp: hook_add_single_def split: if_splits prod.splits dest!: hook_put_more)

lemma uc_hook_add_more:
  "uc_hook_add iv ov hk m type cb ud b e insn op fl st = (err, h, st') \<Longrightarrow> hook_state.more st' = hook_state.more st"
  unfolding uc_hook_add_def Let_def
  by (auto split: option.splits if_splits prod.splits dest!: hook_add_loop_more hook_add_single_more)

lemma remove_from_first_more: "remove_from_first a is st = Some st' \<Longrightarrow> hook_state.more st' = hook_state.more st"
  by (induction "is" arbitrary: st) (auto simp: Let_def split: option.splits if_splits)

lemma clear_deleted_loop_more: "clear_deleted_loop cur st = Some st' \<Longrightarrow> hook_state.more st' = hook_state.more st"
proof (erule clear_deleted_loop.raw_induct [rotated, where P = "\<lambda>cur st st'. hook_state.more st' = hook_state.more st"])
  fix f :: "ptr \<Rightarrow> 'a hook_state_scheme \<Rightarrow> 'a hook_state_scheme option" and cur st st'
  assume IH: "\<And>cur st st'. f cur st = Some st' \<Longrightarrow> hook_state.more st' = hook_state.more st"
  assume "(case cur of None \<Rightarrow> Some st
      | Some c \<Rightarrow> (case items (hooks_to_del st) c of None \<Rightarrow> None
         | Some it \<Rightarrow> (case hook_heap st (item_data it) of None \<Rightarrow> None
           | Some h \<Rightarrow> if \<not> hk_to_delete h then None
               else (case remove_from_first (item_data it) [0..<UC_HOOK_MAX] st of
                       None \<Rightarrow> None | Some st' \<Rightarrow> f (item_next it) st')))) = Some st'"
  then show "hook_state.more st' = hook_state.more st"
    by (auto split: option.splits if_splits dest!: remove_from_first_more IH)
qed

lemma clear_deleted_hooks_more: "clear_deleted_hooks st = Some st' \<Longrightarrow> hook_state.more st' = hook_state.more st"
  by (auto simp: clear_deleted_hooks_def split: option.splits dest!: clear_deleted_loop_more)

section \<open>Starting and ending a run\<close>

lemma registry_same_hooks: "same_hooks st st' \<Longrightarrow> registry st' L D = registry st L D"
  by (simp add: registry_def hooks_mid_def lists_ok_def counts_ok_def same_hooks_def)

lemma registry_frame [simp]:
  "registry (hook_ins_update f st) L D = registry st L D"
  "registry (st :: emu_state) L D \<Longrightarrow> registry (st\<lparr>nested_level := n\<rparr>) L D"
  by (simp_all add: registry_def hooks_mid_def lists_ok_def counts_ok_def)

lemma registry_heap: "registry st L D \<Longrightarrow> i < UC_HOOK_MAX \<Longrightarrow> a \<in> set (L i) \<Longrightarrow> \<exists>h. hook_heap st a = Some h"
  using heap_okD [of "hook_heap st" L D D a] occ_pos [of i a L]
  by (auto simp: registry_def hooks_mid_def split: option.splits)

lemma registry_list: "registry st L D \<Longrightarrow> i < UC_HOOK_MAX \<Longrightarrow> list_rep (hook st i) (L i)"
  by (simp add: registry_def hooks_mid_def lists_ok_def)

lemma set_begin_cases: "set_begin b st = st \<or> (\<exists>r v. set_begin b st = write_pc r v st)"
  unfolding set_begin_def Let_def by (cases "emu_arch st") auto

lemma set_begin_keeps:
  "same_hooks st (set_begin b st)" "hook_ins (set_begin b st) = hook_ins st"
  "emu_counter (set_begin b st) = emu_counter st"
  "invalid_error (set_begin b st) = invalid_error st" "nested_level (set_begin b st) = nested_level st"
  "count_hook (set_begin b st) = count_hook st" "use_exits (set_begin b st) = use_exits st"
  "exits (set_begin b st) = exits st" "emulation_done (set_begin b st) = emulation_done st"
  using set_begin_cases [of b st] by (auto simp: write_pc_def break_translation_loop_def same_hooks_def split: if_splits)

text \<open>What is assumed of \<open>vm_start\<close>: nested runs are balanced and the registry stays well-formed.\<close>

definition vm_keeps :: "(emu_state \<Rightarrow> emu_state) \<Rightarrow> bool" where
  "vm_keeps vm \<longleftrightarrow> (\<forall>s L D. registry s L D \<longrightarrow>
     nested_level (vm s) = nested_level s \<and> (\<exists>L' D'. registry (vm s) L' D'))"

text \<open>\<open>s\<close> differs from \<open>t\<close> in the hook registry at most.\<close>

definition only_hooks :: "emu_state \<Rightarrow> emu_state \<Rightarrow> bool" where
  "only_hooks t s \<longleftrightarrow> s = t\<lparr>hook_heap := hook_heap s, hook := hook s, hooks_to_del := hooks_to_del s,
     hooks_count := hooks_count s, hook_ins := hook_ins s, tb_invalidated := tb_invalidated s\<rparr>"

lemma only_hooks_more: "hook_state.more s = hook_state.more t \<Longrightarrow> only_hooks t s"
  unfolding only_hooks_def by (rule hook_state.equality) simp_all

lemma only_hooks_field:
  assumes "only_hooks t s"
    and "\<And>u a b c d e f. F (u\<lparr>hook_heap := a, hook := b, hooks_to_del := c, hooks_count := d, hook_ins := e, tb_invalidated := f\<rparr>) = F u"
  shows "F s = F t"
  by (subst assms(1) [unfolded only_hooks_def]) (rule assms(2))

lemma only_hooks_fields:
  assumes "only_hooks t s"
  shows "nested_level s = nested_level t" "emulation_done s = emulation_done t" "invalid_error s = invalid_error t"
    "emu_counter s = emu_counter t" "emu_count s = emu_count t" "emu_stop s = emu_stop t"
    "use_exits s = use_exits t" "exits s = exits t" "count_hook s = count_hook t"
    "reg_pc s = reg_pc t"
  by (rule only_hooks_field [OF assms], simp)+

lemma emu_finish_spec:
  assumes reg: "registry st L D" and lv: "nested_level st = Suc n"
  shows "\<exists>st'. emu_finish st = Some (invalid_error st, st') \<and> nested_level st' = n \<and> invalid_error st' = UC_ERR_OK
    \<and> (if n = 0 then emulation_done st' \<and> registry st' (\<lambda>i. filter (\<lambda>a. a \<notin> set D) (L i)) []
       else registry st' L D)"
proof (cases "n = 0")
  case True
  let ?s = "st\<lparr>nested_level := 0, emulation_done := True\<rparr>"
  have "registry ?s L D" using reg by (simp add: registry_def hooks_mid_def lists_ok_def counts_ok_def)
  from registry_clear [OF this] obtain s where s: "clear_deleted_hooks ?s = Some s"
    "registry s (\<lambda>i. filter (\<lambda>a. a \<notin> set D) (L i)) []" by blast
  have m: "hook_state.more s = hook_state.more ?s" using clear_deleted_hooks_more [OF s(1)] .
  have e: "nested_level s = 0" "emulation_done s" "invalid_error s = invalid_error st"
    using only_hooks_fields [OF only_hooks_more [OF m]] by simp_all
  have "registry (s\<lparr>invalid_error := UC_ERR_OK\<rparr>) (\<lambda>i. filter (\<lambda>a. a \<notin> set D) (L i)) []"
    using s(2) by (simp add: registry_def hooks_mid_def lists_ok_def counts_ok_def)
  then show ?thesis using True lv s(1) e by (simp add: emu_finish_def)
next
  case False
  have "registry (st\<lparr>nested_level := n, invalid_error := UC_ERR_OK\<rparr>) L D"
    using reg by (simp add: registry_def hooks_mid_def lists_ok_def counts_ok_def)
  then show ?thesis using False lv by (simp add: emu_finish_def)
qed

lemma bit_UC_HOOK_CODE: "bit UC_HOOK_CODE j \<longleftrightarrow> j = 2"
proof -
  have e: "UC_HOOK_CODE = push_bit 2 1" by (simp add: UC_HOOK_CODE_def push_bit_eq_mult)
  show ?thesis unfolding e bit_push_bit_iff bit_1_iff by auto
qed

lemma add_count_hook_spec:
  assumes reg: "registry st L D" and none: "count_hook st = None"
    and new: "hook_heap st a = None" and fresh: "fresh_hook_nodes m st"
  shows "\<exists>st'. add_count_hook (Some a) m st = (UC_ERR_OK, st')
    \<and> registry st' (L(UC_HOOK_CODE_IDX := a # L UC_HOOK_CODE_IDX)) D
    \<and> (\<exists>h. hook_heap st' a = Some h \<and> count_entry h) \<and> (\<forall>b. b \<noteq> a \<longrightarrow> hook_heap st' b = hook_heap st b)
    \<and> only_hooks (st\<lparr>count_hook := Some a\<rparr>) st'"
proof -
  let ?s = "st\<lparr>hook_ins := True\<rparr>"
  have bits: "hook_idxs UC_HOOK_CODE = (\<lambda>j. j = UC_HOOK_CODE_IDX)" "\<not> bit UC_HOOK_CODE 31"
    "hook_args_valid None None UC_HOOK_CODE 0 0 0"
    by (auto simp: hook_idxs_def fun_eq_iff hook_args_valid_def bit_UC_HOOK_CODE) (simp_all add: hook_consts)
  have r: "registry ?s L D" "hook_heap ?s a = None" "fresh_hook_nodes m ?s"
    using reg new fresh by (simp_all add: fresh_hook_nodes_def)
  obtain s h where s: "uc_hook_add None None (Some a) m UC_HOOK_CODE HOOK_COUNT_CB 0 1 0 0 0 0 ?s = (UC_ERR_OK, Some a, s)"
    "registry s (put_lists True a (hook_idxs UC_HOOK_CODE) L) D"
    "hook_heap s a = Some h" "hk_callback h = HOOK_COUNT_CB" "hk_begin h = 1" "hk_end h = 0" "\<not> hk_to_delete h"
    "\<forall>b. b \<noteq> a \<longrightarrow> hook_heap s b = hook_heap st b"
    using registry_add [OF r bits(2,3), of HOOK_COUNT_CB 0 1 0] bits(1) by auto
  have m: "hook_state.more s = hook_state.more st" using uc_hook_add_more [OF s(1)] by simp
  have "put_lists True a (hook_idxs UC_HOOK_CODE) L = L(UC_HOOK_CODE_IDX := a # L UC_HOOK_CODE_IDX)"
    by (auto simp: put_lists_def bits put_list_def)
  moreover have "registry (s\<lparr>hook_ins := False, count_hook := Some a\<rparr>) L' D = registry s L' D" for L'
    by (simp add: registry_def hooks_mid_def lists_ok_def counts_ok_def)
  moreover have "only_hooks (st\<lparr>count_hook := Some a\<rparr>) (s\<lparr>hook_ins := False, count_hook := Some a\<rparr>)"
    unfolding only_hooks_def by (subst only_hooks_more [OF m, unfolded only_hooks_def]) simp
  ultimately show ?thesis using s none by (simp add: add_count_hook_def count_entry_def)
qed

text \<open>The state in which \<open>vm_start\<close> is entered when a count is given.\<close>

definition vm_entry :: "u64 \<Rightarrow> u64 \<Rightarrow> addr \<Rightarrow> emu_state \<Rightarrow> emu_state \<Rightarrow> bool" where
  "vm_entry until count a st s \<longleftrightarrow>
     nested_level s = Suc (nested_level st) \<and> emu_counter s = 0 \<and> emu_count s = count \<and> \<not> emu_stop s
     \<and> invalid_error s = UC_ERR_OK \<and> \<not> emulation_done s \<and> count_hook s = Some a
     \<and> use_exits s = use_exits st
     \<and> exits s = (if use_exits st then exits st else (exits st)(nested_level st := until))
     \<and> (\<exists>h. hook_heap s a = Some h \<and> count_entry h) \<and> (\<forall>b. b \<noteq> a \<longrightarrow> hook_heap s b = hook_heap st b)"

lemma uc_emu_start_counted:
  assumes reg: "registry st L D" and lv: "nested_level st < UC_MAX_NESTED_LEVEL"
    and none: "count_hook st = None" and count: "0 < count"
    and new: "hook_heap st a = None" and fresh: "fresh_hook_nodes m st"
  shows "\<exists>s. uc_emu_start vm (Some a) m m' start until timeout count st = emu_finish (vm s)
    \<and> registry s (L(UC_HOOK_CODE_IDX := a # L UC_HOOK_CODE_IDX)) D \<and> vm_entry until count a st s"
proof -
  define s0 where "s0 = st\<lparr>emu_counter := 0, invalid_error := UC_ERR_OK, emulation_done := False,
    size_recur_mem := 0, timed_out := False, first_tb := True, nested_level := nested_level st + 1\<rparr>"
  define s1 where "s1 = set_begin start s0"
  define s2 where "s2 = s1\<lparr>skip_sync_pc := False, emu_stop := False, emu_count := count\<rparr>"
  have s1: "same_hooks st s1" "emu_counter s1 = 0" "invalid_error s1 = UC_ERR_OK" "\<not> emulation_done s1"
    "nested_level s1 = Suc (nested_level st)" "count_hook s1 = None" "use_exits s1 = use_exits st" "exits s1 = exits st"
    using none set_begin_keeps(1) [of s0 start] by (simp_all add: s1_def s0_def set_begin_keeps same_hooks_def)
  have s2: "same_hooks st s2" "count_hook s2 = None" using s1(1,6) by (simp_all add: s2_def same_hooks_def)
  have r: "registry s2 L D" "hook_heap s2 a = None" "fresh_hook_nodes m s2"
    using reg new fresh s2(1) registry_same_hooks [OF s2(1)] by (simp_all add: fresh_hook_nodes_def same_hooks_def)
  from add_count_hook_spec [OF r(1) s2(2) r(2,3)] obtain s4 where s4: "add_count_hook (Some a) m s2 = (UC_ERR_OK, s4)"
    "registry s4 (L(UC_HOOK_CODE_IDX := a # L UC_HOOK_CODE_IDX)) D"
    "\<exists>h. hook_heap s4 a = Some h \<and> count_entry h" "\<forall>b. b \<noteq> a \<longrightarrow> hook_heap s4 b = hook_heap s2 b"
    "only_hooks (s2\<lparr>count_hook := Some a\<rparr>) s4" by blast
  define s5 where "s5 = (if use_exits s4 then s4 else s4\<lparr>exits := (exits s4)(nested_level s4 - 1 := until)\<rparr>)"
  define s6 where "s6 = (if timeout \<noteq> 0 then s5\<lparr>timer_ns := Some (timeout * 1000)\<rparr> else s5)"
  have "uc_emu_start vm (Some a) m m' start until timeout count st = emu_finish (vm s6)"
    using lv count s4(1) word_gt_0 [of count]
    by (simp add: uc_emu_start_def Let_def s0_def s1_def s2_def s5_def s6_def)
  moreover have "same_hooks s4 s6" by (simp add: s5_def s6_def same_hooks_def)
  then have "registry s6 (L(UC_HOOK_CODE_IDX := a # L UC_HOOK_CODE_IDX)) D"
    using s4(2) registry_same_hooks by blast
  moreover have "hook_heap s2 = hook_heap st" using s2(1) by (simp add: same_hooks_def)
  then have "vm_entry until count a st s6"
    using s1 s4(3,4) only_hooks_fields [OF s4(5)] by (simp add: vm_entry_def s6_def s5_def s2_def)
  ultimately show ?thesis by blast
qed

lemma trace_instrs_stopped: "emu_stop st \<Longrightarrow> trace_instrs user ins st = Some st"
proof (induction ins)
  case (Cons i ins)
  have "(of_nat UC_HOOK_CODE_IDX :: u32) AND UC_HOOK_FLAG_NO_STOP = 0"
    by (simp add: hook_consts UC_HOOK_FLAG_NO_STOP_def)
  with Cons show ?case by (cases i) (simp add: helper_uc_tracecode_def)
qed simp

lemma trace_instrs_count:
  assumes q: "quiet user" and ce: "count_entry (H c)" and no: "\<forall>a\<in>set as. hk_callback (H a) \<noteq> HOOK_COUNT_CB"
  shows "list_rep (hook st UC_HOOK_CODE_IDX) (c # as) \<Longrightarrow> \<forall>a\<in>set (c # as). hook_heap st a = Some (H a)
    \<Longrightarrow> \<not> emu_stop st \<Longrightarrow> \<forall>(a, sz)\<in>set ins. sz \<noteq> 0 \<Longrightarrow> emu_counter st \<le> emu_count st
    \<Longrightarrow> unat (emu_counter st) + length ins < 2 ^ 64 \<Longrightarrow>
    \<exists>st'. trace_instrs user ins st = Some st' \<and> (emu_stop st' \<longleftrightarrow> unat (emu_count st) < unat (emu_counter st) + length ins)
      \<and> unat (emu_counter st') = min (unat (emu_counter st) + length ins) (Suc (unat (emu_count st)))"
proof (induction ins arbitrary: st)
  case Nil
  then show ?case by (simp add: word_le_nat_alt)
next
  case (Cons i ins)
  obtain ad sz where i: "i = (ad, sz)" "sz \<noteq> 0" using Cons.prems(4) by (cases i) auto
  from tracecode_count [OF q i(2) Cons.prems(1,2) ce no Cons.prems(3), of ad] obtain s where
    s: "helper_uc_tracecode user sz (of_nat UC_HOOK_CODE_IDX) ad st = Some s" "same_hooks st s"
      "emu_counter s = emu_counter st + 1" "emu_count s = emu_count st"
      "emu_stop s \<longleftrightarrow> emu_counter st + 1 > emu_count st" by blast
  have u: "unat (emu_counter s) = Suc (unat (emu_counter st))"
    using Cons.prems(6) unat_add_lem [of "emu_counter st" 1] by (simp add: s(3))
  have st: "emu_stop s \<longleftrightarrow> unat (emu_count st) < Suc (unat (emu_counter st))"
    using s(3,5) u by (simp add: word_less_nat_alt)
  show ?case
  proof (cases "emu_stop s")
    case True
    then show ?thesis using s(1) i st u Cons.prems(5) by (simp add: trace_instrs_stopped word_le_nat_alt)
  next
    case False
    have "\<exists>st'. trace_instrs user ins s = Some st' \<and> (emu_stop st' \<longleftrightarrow> unat (emu_count s) < unat (emu_counter s) + length ins)
      \<and> unat (emu_counter st') = min (unat (emu_counter s) + length ins) (Suc (unat (emu_count s)))"
      using Cons.IH [of s] Cons.prems False s(2,4) st u by (simp add: same_hooks_def word_le_nat_alt)
    then show ?thesis using s(1,4) i u by simp
  qed
qed

end
