(* ===== verification/Emu_Run.thy ===== *)
theory Emu_Run
  imports Emu_Props
begin

text \<open>
  The properties of running the emulation: the call of hooks, the instruction limit, the
  balance of nested runs, the errors of \<open>uc_emu_start\<close>, and the invalidation of translated
  blocks when a hook goes away.
\<close>

section \<open>Hooked regions\<close>

definition check_hook :: "u64 \<Rightarrow> u64 \<Rightarrow> hook \<Rightarrow> hook" where
  "check_hook start len h = (if HOOK_BOUND_CHECK h start then hooked_regions_add start len h else h)"

lemma hooked_regions_add_keeps [simp]:
  "hk_refs (hooked_regions_add s n h) = hk_refs h" "hk_to_delete (hooked_regions_add s n h) = hk_to_delete h"
  "hk_begin (hooked_regions_add s n h) = hk_begin h" "hk_end (hooked_regions_add s n h) = hk_end h"
  "HOOK_BOUND_CHECK (hooked_regions_add s n h) = HOOK_BOUND_CHECK h"
  "hooked_regions_add s n (hooked_regions_add s n h) = hooked_regions_add s n h"
  by (auto simp: hooked_regions_add_def HOOK_BOUND_CHECK_def fun_eq_iff)

lemma check_hook_keeps [simp]:
  "hk_refs (check_hook s n h) = hk_refs h" "hk_to_delete (check_hook s n h) = hk_to_delete h"
  "check_hook s n (check_hook s n h) = check_hook s n h"
  by (simp_all add: check_hook_def)





section \<open>Runs without a count\<close>



section \<open>Properties\<close>

text \<open>A fresh engine.\<close>

definition emu_init :: "arch \<Rightarrow> u32 \<Rightarrow> emu_state" where
  "emu_init ar md = \<lparr>hook_heap = Map.empty, hook = (\<lambda>_. hook_list_init), hooks_to_del = hook_list_init,
     hooks_count = (\<lambda>_. 0), hook_ins = False, tb_invalidated = [], emu_arch = ar, emu_mode = md,
     emu_counter = 0, emu_count = 0, invalid_error = UC_ERR_OK, emulation_done = False, size_recur_mem = 0,
     timed_out = False, timer_ns = None, first_tb = False, nested_level = 0, skip_sync_pc = False,
     emu_stop = False, emu_quit = False, cpu_exit = False, count_hook = None, use_exits = False,
     exits = (\<lambda>_. 0), tb_flushes = 0, reg_cs = 0, reg_pc = None\<rparr>"











text \<open>
  C11. The errors of \<open>uc_emu_start\<close>: past the deepest level it refuses with
  \<open>UC_ERR_RESOURCE\<close>, and when the counting hook cannot be allocated it returns
  \<open>UC_ERR_NOMEM\<close>; the code is not run, and level and hooks are as before.
\<close>

theorem uc_emu_start_errors:
  "(UC_MAX_NESTED_LEVEL \<le> nested_level st \<longrightarrow>
      (\<exists>st'. uc_emu_start vm hk m m' start until timeout count st = Some (UC_ERR_RESOURCE, st')
        \<and> nested_level st' = nested_level st \<and> same_hooks st st' \<and> reg_pc st' = reg_pc st))
   \<and> (nested_level st < UC_MAX_NESTED_LEVEL \<and> 0 < count \<and> count_hook st = None \<longrightarrow>
      (\<exists>st'. uc_emu_start vm None m m' start until timeout count st = Some (UC_ERR_NOMEM, st')
        \<and> nested_level st' = nested_level st \<and> same_hooks st st' \<and> count_hook st' = None))"
proof (intro conjI impI)
  assume "UC_MAX_NESTED_LEVEL \<le> nested_level st"
  then show "\<exists>st'. uc_emu_start vm hk m m' start until timeout count st = Some (UC_ERR_RESOURCE, st')
        \<and> nested_level st' = nested_level st \<and> same_hooks st st' \<and> reg_pc st' = reg_pc st"
    by (simp add: uc_emu_start_def same_hooks_def)
next
  assume a: "nested_level st < UC_MAX_NESTED_LEVEL \<and> 0 < count \<and> count_hook st = None"
  define s0 where "s0 = st\<lparr>emu_counter := 0, invalid_error := UC_ERR_OK, emulation_done := False,
    size_recur_mem := 0, timed_out := False, first_tb := True, nested_level := nested_level st + 1\<rparr>"
  define s2 where "s2 = (set_begin start s0)\<lparr>skip_sync_pc := False, emu_stop := False, emu_count := count\<rparr>"
  have c: "count_hook s2 = None" "nested_level s2 = Suc (nested_level st)" "same_hooks st s2"
    using a set_begin_keeps(1) [of s0 start] by (simp_all add: s2_def set_begin_keeps s0_def same_hooks_def)
  have "uc_emu_start vm None m m' start until timeout count st =
      Some (UC_ERR_NOMEM, s2\<lparr>hook_ins := False, nested_level := nested_level st\<rparr>)"
    using a c(1,2) word_gt_0 [of count]
    by (simp add: uc_emu_start_def Let_def add_count_hook_def uc_hook_add_def s0_def s2_def)
  then show "\<exists>st'. uc_emu_start vm None m m' start until timeout count st = Some (UC_ERR_NOMEM, st')
        \<and> nested_level st' = nested_level st \<and> same_hooks st st' \<and> count_hook st' = None"
    using c by (simp add: same_hooks_def)
qed

theorem uc_emu_start_errors_witness:
  "(\<exists>st'. uc_emu_start id (Some 5) Some Some 0 0 0 0 ((emu_init UC_ARCH_ARM64 0)\<lparr>nested_level := 64\<rparr>) = Some (UC_ERR_RESOURCE, st'))
   \<and> (\<exists>st'. uc_emu_start id None Some Some 4096 8192 0 3 (emu_init UC_ARCH_ARM64 0) = Some (UC_ERR_NOMEM, st') \<and> nested_level st' = 0)"
proof -
  have s: "UC_MAX_NESTED_LEVEL \<le> nested_level ((emu_init UC_ARCH_ARM64 0)\<lparr>nested_level := 64\<rparr>)"
    "nested_level (emu_init UC_ARCH_ARM64 0) = 0" "count_hook (emu_init UC_ARCH_ARM64 0) = None" "0 < UC_MAX_NESTED_LEVEL"
    by (simp_all add: UC_MAX_NESTED_LEVEL_def emu_init_def)
  show ?thesis
    using uc_emu_start_errors [of "(emu_init UC_ARCH_ARM64 0)\<lparr>nested_level := 64\<rparr>" id "Some 5" Some Some 0 0 0 0] s(1)
      uc_emu_start_errors [of "emu_init UC_ARCH_ARM64 0" id None Some Some 4096 8192 0 3] s(2-4)
    by auto
qed

text \<open>
  When the hook itself is allocated but its list item is not, \<open>uc_hook_add\<close> frees the hook and
  still hands out its address: \<open>count_hook\<close> dangles, and the next counted run installs nothing.
\<close>

lemma count_hook_dangles:
  assumes "count_hook st = None" and "m UC_HOOK_CODE_IDX = None"
  shows "\<exists>st'. add_count_hook (Some a) m st = (UC_ERR_NOMEM, st') \<and> count_hook st' = Some a \<and> hook_heap st' a = None
    \<and> add_count_hook hk m' st' = (UC_ERR_OK, st')"
proof -
  have b: "UC_HOOK_CODE AND UC_HOOK_INSN = 0" "UC_HOOK_CODE AND UC_HOOK_TCG_OPCODE = 0"
    by (simp_all add: hook_consts)
  have s: "sint (signed_drop_bit 0 UC_HOOK_CODE) = 4" "sint (signed_drop_bit 1 UC_HOOK_CODE) = 2"
    "sint (signed_drop_bit 2 UC_HOOK_CODE) = 1"
    by (simp_all add: UC_HOOK_CODE_def)
  have l: "hook_add_loop UC_HOOK_CODE m a 0 t = (UC_ERR_NOMEM, hook_free a (snd (hook_put None 2 a t)))"
    if "m 2 = None" "fst (hook_put None 2 a t) = None" for t :: emu_state
    using that s by (subst hook_add_loop.simps, simp add: bit_UC_HOOK_CODE, subst hook_add_loop.simps,
        simp add: bit_UC_HOOK_CODE, subst hook_add_loop.simps, simp add: bit_UC_HOOK_CODE UC_HOOK_MAX_def case_prod_beta flip: numeral_2_eq_2)
  have p: "hook_put None 2 a t = (None, t\<lparr>hook := (hook t)(2 := hook t 2), hook_heap := hook_heap t\<rparr>)"
    if "hook_ins t" for t :: emu_state
    using that by (simp add: hook_put_def hook_insert_def list_insert_def)
  show ?thesis using assms b l p
    by (simp add: add_count_hook_def uc_hook_add_def UC_HOOK_CODE_IDX_def hook_free_def Let_def)
qed

end
