(* ===== verification/Int128.thy ===== *)
theory Int128
  imports Uc_Prelude
begin

text \<open>
  The portable 128-bit integers of \<open>src/unicorn/qemu/include/qemu/int128.h\<close> (the branch
  without \<open>CONFIG_INT128\<close>): a low unsigned and a high signed 64-bit half, with carries
  written out. Every operation is shown to compute on the integer the pair denotes, so
  that the other theories may use mathematical integers for \<open>Int128\<close>.
\<close>

section \<open>The structure and its operations\<close>

record int128 =
  lo :: u64
  hi :: u64

definition int128_make64 :: "u64 \<Rightarrow> int128" where
  "int128_make64 a = \<lparr>lo = a, hi = 0\<rparr>"

definition int128_make128 :: "u64 \<Rightarrow> u64 \<Rightarrow> int128" where
  "int128_make128 l h = \<lparr>lo = l, hi = h\<rparr>"

text \<open>\<open>None\<close> is the failed assertion.\<close>

definition int128_get64_struct :: "int128 \<Rightarrow> u64 option" where
  "int128_get64_struct a = (if hi a \<noteq> 0 then None else Some (lo a))"

definition int128_zero :: int128 where "int128_zero = int128_make64 0"

definition int128_one :: int128 where "int128_one = int128_make64 1"

definition int128_2_64 :: int128 where "int128_2_64 = \<lparr>lo = 0, hi = 1\<rparr>"

definition int128_exts64 :: "u64 \<Rightarrow> int128" where
  "int128_exts64 a = \<lparr>lo = a, hi = (if sint a < 0 then -1 else 0)\<rparr>"

definition int128_and :: "int128 \<Rightarrow> int128 \<Rightarrow> int128" where
  "int128_and a b = \<lparr>lo = lo a AND lo b, hi = hi a AND hi b\<rparr>"

definition int128_rshift :: "int128 \<Rightarrow> nat \<Rightarrow> int128" where
  "int128_rshift a n =
     (if n = 0 then a
      else let h = signed_drop_bit (n mod 64) (hi a)
           in if n \<ge> 64 then int128_make128 h (signed_drop_bit 63 h)
              else int128_make128 (drop_bit n (lo a) OR push_bit (64 - n) (hi a)) h)"

definition int128_add :: "int128 \<Rightarrow> int128 \<Rightarrow> int128" where
  "int128_add a b =
     (let l = lo a + lo b
      in int128_make128 l (hi a + hi b + (if l < lo a then 1 else 0)))"

definition int128_neg :: "int128 \<Rightarrow> int128" where
  "int128_neg a =
     (let l = - lo a in int128_make128 l (NOT (hi a) + (if l = 0 then 1 else 0)))"

definition int128_sub :: "int128 \<Rightarrow> int128 \<Rightarrow> int128" where
  "int128_sub a b =
     int128_make128 (lo a - lo b) (hi a - hi b - (if lo a < lo b then 1 else 0))"

definition int128_nonneg :: "int128 \<Rightarrow> bool" where
  "int128_nonneg a \<longleftrightarrow> 0 \<le> sint (hi a)"

definition int128_eq :: "int128 \<Rightarrow> int128 \<Rightarrow> bool" where
  "int128_eq a b \<longleftrightarrow> lo a = lo b \<and> hi a = hi b"

definition int128_ne :: "int128 \<Rightarrow> int128 \<Rightarrow> bool" where
  "int128_ne a b \<longleftrightarrow> \<not> int128_eq a b"

definition int128_ge :: "int128 \<Rightarrow> int128 \<Rightarrow> bool" where
  "int128_ge a b \<longleftrightarrow> sint (hi a) > sint (hi b) \<or> (hi a = hi b \<and> lo a \<ge> lo b)"

definition int128_lt :: "int128 \<Rightarrow> int128 \<Rightarrow> bool" where
  "int128_lt a b \<longleftrightarrow> \<not> int128_ge a b"

definition int128_le :: "int128 \<Rightarrow> int128 \<Rightarrow> bool" where
  "int128_le a b \<longleftrightarrow> int128_ge b a"

definition int128_gt :: "int128 \<Rightarrow> int128 \<Rightarrow> bool" where
  "int128_gt a b \<longleftrightarrow> \<not> int128_le a b"

definition int128_nz :: "int128 \<Rightarrow> bool" where
  "int128_nz a \<longleftrightarrow> lo a \<noteq> 0 \<or> hi a \<noteq> 0"

definition int128_min :: "int128 \<Rightarrow> int128 \<Rightarrow> int128" where
  "int128_min a b = (if int128_le a b then a else b)"

definition int128_max :: "int128 \<Rightarrow> int128 \<Rightarrow> int128" where
  "int128_max a b = (if int128_ge a b then a else b)"

section \<open>The denoted integer\<close>

definition int128_val :: "int128 \<Rightarrow> int" where
  "int128_val a = sint (hi a) * 2 ^ 64 + uint (lo a)"

text \<open>The same bits read without a sign.\<close>

definition int128_uval :: "int128 \<Rightarrow> int" where
  "int128_uval a = uint (hi a) * 2 ^ 64 + uint (lo a)"

lemma u64_bounds: "0 \<le> uint (x :: u64)" "uint (x :: u64) < 18446744073709551616"
  using uint_bounded [of x] by simp_all

lemma s64_bounds: "-9223372036854775808 \<le> sint (x :: u64)" "sint (x :: u64) < 9223372036854775808"
  using sint_greater_eq [of x] sint_less [of x] by simp_all

lemma pow_eqs:
  "(2 :: int) ^ 64 = 18446744073709551616"
  "(2 :: int) ^ 127 = 170141183460469231731687303715884105728"
  "(2 :: int) ^ 128 = 340282366920938463463374607431768211456"
  by simp_all

lemma sint_uint_64: "sint (x :: u64) = uint x - (if sint x < 0 then 2 ^ 64 else 0)"
proof -
  have "sint x = signed_take_bit 63 (uint x)" by (simp add: sint_uint)
  also have "\<dots> = take_bit 64 (uint x) - 2 ^ 64 * of_bool (bit (uint x) 63)"
    by (simp only: signed_take_bit_eq_take_bit_minus) simp
  also have "take_bit 64 (uint x) = uint x" by (simp add: take_bit_eq_mod u64_bounds)
  finally show ?thesis using bit_last_iff [of x] by (simp add: bit_uint_iff)
qed

lemma int128_val_range: "- (2 ^ 127) \<le> int128_val a" "int128_val a < 2 ^ 127"
  unfolding int128_val_def pow_eqs using u64_bounds [of "lo a"] s64_bounds [of "hi a"] by linarith+

lemma int128_val_uval: "int128_val a mod 2 ^ 128 = int128_uval a mod 2 ^ 128"
proof -
  have "int128_val a = int128_uval a \<or> int128_val a = int128_uval a - 2 ^ 128"
    using sint_uint_64 [of "hi a"] by (auto simp: int128_val_def int128_uval_def split: if_splits)
  then show ?thesis by auto
qed

lemma mod_eq_exact:
  assumes "x mod 2 ^ 128 = y mod (2 :: int) ^ 128" "- (2 ^ 127) \<le> x" "x < 2 ^ 127" "- (2 ^ 127) \<le> y" "y < 2 ^ 127"
  shows "x = y"
proof -
  have "(2 ^ 128) dvd (x - y)" using assms(1) mod_eq_dvd_iff by blast
  then obtain k where "x - y = 2 ^ 128 * k" by (auto simp: dvd_def)
  then have "k = 0" using assms(2-) by simp
  with \<open>x - y = 2 ^ 128 * k\<close> show ?thesis by simp
qed

section \<open>Arithmetic\<close>

lemma uint_add_64: "uint (a + b :: u64) = uint a + uint b - (if uint a + uint b \<ge> 2 ^ 64 then 2 ^ 64 else 0)"
  using uint_plus_if_size [of a b] by (simp add: word_size)

lemma uint_sub_64: "uint (a - b :: u64) = uint a - uint b + (if uint a < uint b then 2 ^ 64 else 0)"
  using uint_sub_if_size [of a b] by (simp add: word_size)

lemma mod_64_128: "uint (x :: u64) * 2 ^ 64 mod 2 ^ 128 = y * 2 ^ 64 mod 2 ^ 128" if "uint x = y mod 2 ^ 64"
proof -
  have "2 ^ 64 * (y mod 2 ^ 64) = (2 ^ 64 * y) mod (2 ^ 64 * 2 ^ 64 :: int)" by (rule mult_mod_right)
  then show ?thesis using that by (simp add: mult.commute)
qed

lemma uval_mod:
  "int128_uval \<lparr>lo = l, hi = h\<rparr> mod 2 ^ 128 = (y * 2 ^ 64 + uint l) mod 2 ^ 128" if "uint h = y mod 2 ^ 64"
proof -
  have "int128_uval \<lparr>lo = l, hi = h\<rparr> = uint h * 2 ^ 64 + uint l" unfolding int128_uval_def int128.simps ..
  with mod_add_cong [OF mod_64_128 [OF that] refl, of "uint l"] show ?thesis by simp
qed

lemma int128_add_mod: "int128_val (int128_add a b) mod 2 ^ 128 = (int128_val a + int128_val b) mod 2 ^ 128"
proof -
  let ?c = "if lo a + lo b < lo a then 1 else 0 :: int"
  have c: "lo a + lo b < lo a \<longleftrightarrow> uint (lo a) + uint (lo b) \<ge> 2 ^ 64"
    unfolding word_less_def uint_add_64 using u64_bounds [of "lo b"] by (simp add: pow_eqs)
  have h: "uint (hi a + hi b + (if lo a + lo b < lo a then 1 else 0)) = (uint (hi a) + uint (hi b) + ?c) mod 2 ^ 64"
    unfolding uint_word_ariths by (simp add: mod_simps)
  have "int128_val (int128_add a b) mod 2 ^ 128
      = ((uint (hi a) + uint (hi b) + ?c) * 2 ^ 64 + uint (lo a + lo b)) mod 2 ^ 128"
    unfolding int128_val_uval int128_add_def Let_def int128_make128_def by (rule uval_mod [OF h])
  also have "(uint (hi a) + uint (hi b) + ?c) * 2 ^ 64 + uint (lo a + lo b) = int128_uval a + int128_uval b"
    unfolding int128_uval_def uint_add_64 c by (simp add: algebra_simps)
  also have "\<dots> mod 2 ^ 128 = (int128_val a + int128_val b) mod 2 ^ 128"
    using int128_val_uval [of a] int128_val_uval [of b] by (metis mod_add_eq)
  finally show ?thesis .
qed

lemma int128_sub_mod: "int128_val (int128_sub a b) mod 2 ^ 128 = (int128_val a - int128_val b) mod 2 ^ 128"
proof -
  let ?c = "if lo a < lo b then 1 else 0 :: int"
  have h: "uint (hi a - hi b - (if lo a < lo b then 1 else 0)) = (uint (hi a) - uint (hi b) - ?c) mod 2 ^ 64"
    unfolding uint_word_ariths by (simp add: mod_simps)
  have "int128_val (int128_sub a b) mod 2 ^ 128
      = ((uint (hi a) - uint (hi b) - ?c) * 2 ^ 64 + uint (lo a - lo b)) mod 2 ^ 128"
    unfolding int128_val_uval int128_sub_def int128_make128_def by (rule uval_mod [OF h])
  also have "(uint (hi a) - uint (hi b) - ?c) * 2 ^ 64 + uint (lo a - lo b) = int128_uval a - int128_uval b"
    unfolding int128_uval_def uint_sub_64 word_less_def by (simp add: algebra_simps)
  also have "\<dots> mod 2 ^ 128 = (int128_val a - int128_val b) mod 2 ^ 128"
    using int128_val_uval [of a] int128_val_uval [of b] by (metis mod_diff_eq)
  finally show ?thesis .
qed

lemma int128_neg_sub: "int128_neg a = int128_sub int128_zero a"
  by (auto simp: int128_neg_def int128_sub_def int128_zero_def int128_make64_def int128_make128_def
      Let_def not_eq_complement word_gt_0)

lemma int128_val_simps [simp]:
  "int128_val int128_zero = 0" "int128_val int128_one = 1" "int128_val int128_2_64 = 2 ^ 64"
  "int128_val (int128_make64 x) = uint x"
  by (simp_all add: int128_val_def int128_zero_def int128_one_def int128_2_64_def int128_make64_def)

lemma int128_val_exts64 [simp]: "int128_val (int128_exts64 x) = sint x"
proof (cases "sint x < 0")
  case True
  then have "sint x = uint x - 2 ^ 64" using sint_uint_64 [of x] by (simp only: if_True)
  with True show ?thesis by (simp add: int128_val_def int128_exts64_def)
next
  case False
  then have "sint x = uint x" using sint_uint_64 [of x] by (simp only: if_False)
  with False show ?thesis by (simp add: int128_val_def int128_exts64_def)
qed

lemma int128_ge_val: "int128_ge a b \<longleftrightarrow> int128_val b \<le> int128_val a"
proof -
  have "hi a = hi b \<longleftrightarrow> sint (hi a) = sint (hi b)" by (metis signed_word_eqI)
  then show ?thesis
    unfolding int128_ge_def int128_val_def word_le_def pow_eqs
    using u64_bounds [of "lo a"] u64_bounds [of "lo b"] by linarith
qed

lemma int128_eq_val: "int128_eq a b \<longleftrightarrow> int128_val a = int128_val b"
proof -
  have "int128_eq a b \<longleftrightarrow> int128_ge a b \<and> int128_ge b a"
    by (auto simp: int128_eq_def int128_ge_def)
  then show ?thesis by (auto simp: int128_ge_val)
qed

lemma bit_sint_64: "bit (sint (w :: u64)) k \<longleftrightarrow> bit w (min 63 k)"
  by (simp add: bit_signed_iff)

lemma bit_int128_val:
  "bit (int128_val a) k \<longleftrightarrow> (if k < 64 then bit (lo a) k else bit (hi a) (min 63 (k - 64)))"
proof -
  have "int128_val a = push_bit 64 (sint (hi a)) + uint (lo a)"
    by (simp add: int128_val_def push_bit_eq_mult)
  also have "\<dots> = push_bit 64 (sint (hi a)) OR uint (lo a)"
    by (rule disjunctive_add_eq_or, rule bit_eqI)
      (auto simp: bit_and_iff bit_push_bit_iff bit_uint_iff dest: bit_imp_le_length)
  finally show ?thesis
    by (auto simp: bit_or_iff bit_push_bit_iff bit_uint_iff bit_sint_64)
qed

lemma bit_sdrop_64: "m < 64 \<Longrightarrow> k < 64 \<Longrightarrow> bit (signed_drop_bit m (w :: u64)) k \<longleftrightarrow> bit w (min 63 (m + k))"
proof -
  assume "m < 64" "k < 64"
  then have "min 63 (m + k) = (if 64 - m \<le> k then 63 else m + k)" by auto
  with \<open>k < 64\<close> show ?thesis by (simp add: bit_signed_drop_bit_iff)
qed

lemma int128_rshift_val:
  assumes "n < 128"
  shows "int128_val (int128_rshift a n) = int128_val a div 2 ^ n"
proof -
  have "int128_val (int128_rshift a n) = drop_bit n (int128_val a)"
  proof (rule bit_eqI)
    fix k
    show "bit (int128_val (int128_rshift a n)) k \<longleftrightarrow> bit (drop_bit n (int128_val a)) k"
    proof (cases "n < 64")
      case True
      then show ?thesis
        by (auto simp: int128_rshift_def Let_def bit_int128_val int128_make128_def bit_drop_bit_eq
            bit_or_iff bit_push_bit_iff bit_sdrop_64 min_def not_less add.commute [of k n] dest: bit_imp_le_length)
    next
      case False
      then have "n mod 64 = n - 64" "n - 64 < 64" using assms by (simp_all add: mod_if)
      with False show ?thesis
        by (auto simp: int128_rshift_def Let_def bit_int128_val int128_make128_def bit_drop_bit_eq
            bit_sdrop_64 min_def not_less simp del: signed_drop_bit_signed_drop_bit)
    qed
  qed
  then show ?thesis by (simp add: drop_bit_eq_div)
qed

section \<open>Properties\<close>

text \<open>
  C38. Every operation of the two-halves representation computes on the denoted signed
  integer: sums, differences and negations modulo 2 to the 128, constants and
  conversions exactly, and all comparisons, minimum and maximum exactly.
\<close>

theorem int128_refines_int:
  "int128_val (int128_add a b) mod 2 ^ 128 = (int128_val a + int128_val b) mod 2 ^ 128
   \<and> int128_val (int128_sub a b) mod 2 ^ 128 = (int128_val a - int128_val b) mod 2 ^ 128
   \<and> int128_val (int128_neg a) mod 2 ^ 128 = (- int128_val a) mod 2 ^ 128
   \<and> int128_val (int128_make64 x) = uint x \<and> int128_val (int128_exts64 x) = sint x
   \<and> int128_get64_struct a = (if 0 \<le> int128_val a \<and> int128_val a < 2 ^ 64 then Some (lo a) else None)
   \<and> (int128_ge a b \<longleftrightarrow> int128_val a \<ge> int128_val b) \<and> (int128_lt a b \<longleftrightarrow> int128_val a < int128_val b)
   \<and> (int128_eq a b \<longleftrightarrow> int128_val a = int128_val b)
   \<and> (int128_nonneg a \<longleftrightarrow> 0 \<le> int128_val a) \<and> (int128_nz a \<longleftrightarrow> int128_val a \<noteq> 0)
   \<and> int128_val (int128_min a b) = min (int128_val a) (int128_val b)
   \<and> int128_val (int128_max a b) = max (int128_val a) (int128_val b)"
proof -
  have nn: "int128_nonneg a \<longleftrightarrow> 0 \<le> int128_val a"
    unfolding int128_nonneg_def int128_val_def pow_eqs using u64_bounds [of "lo a"] by linarith
  have nz: "int128_nz a \<longleftrightarrow> int128_val a \<noteq> 0"
  proof -
    have "int128_nz a \<longleftrightarrow> \<not> int128_eq a int128_zero"
      by (simp add: int128_nz_def int128_eq_def int128_zero_def int128_make64_def)
    then show ?thesis by (simp add: int128_eq_val)
  qed
  have z: "hi a = 0 \<longleftrightarrow> sint (hi a) = 0" by (metis signed_0 signed_word_eqI)
  have g: "hi a = 0 \<longleftrightarrow> 0 \<le> int128_val a \<and> int128_val a < 2 ^ 64"
    unfolding int128_val_def pow_eqs z using u64_bounds [of "lo a"] by linarith
  show ?thesis
  proof (intro conjI)
    show "int128_get64_struct a = (if 0 \<le> int128_val a \<and> int128_val a < 2 ^ 64 then Some (lo a) else None)"
      unfolding int128_get64_struct_def g [symmetric] by simp
    show "int128_val (int128_neg a) mod 2 ^ 128 = (- int128_val a) mod 2 ^ 128"
      using int128_sub_mod [of int128_zero a] unfolding int128_neg_sub int128_val_simps by simp
    show "int128_val (int128_min a b) = min (int128_val a) (int128_val b)"
      "int128_val (int128_max a b) = max (int128_val a) (int128_val b)"
      by (simp_all add: int128_min_def int128_max_def int128_le_def int128_ge_val)
  qed (use nn nz in \<open>simp_all only: int128_add_mod int128_sub_mod int128_val_simps int128_val_exts64
      int128_ge_val int128_lt_def int128_eq_val not_le\<close>)
qed

text \<open>
  \<open>int128_rshift\<close> is the arithmetic shift: for every shift below 128 it is the floor
  division of the denoted integer by the power of two.
\<close>

theorem int128_rshift_correct:
  assumes "n < 128"
  shows "int128_val (int128_rshift a n) = int128_val a div 2 ^ n"
  by (rule int128_rshift_val [OF assms])

theorem int128_rshift_correct_witness:
  "int128_val (int128_rshift \<lparr>lo = 0, hi = -3\<rparr> 65) = - 2"
  using int128_rshift_correct [of 65 "\<lparr>lo = 0, hi = -3\<rparr>"]
  by (simp add: int128_val_def)

end
