(* ===== verification/Host_Utils.thy ===== *)
theory Host_Utils
  imports Int128
begin

text \<open>
  The 128-bit helpers of \<open>src/unicorn/qemu/util/host-utils.c\<close> and
  \<open>src/unicorn/qemu/include/qemu/host-utils.h\<close>: multiplication, division and shifts on
  pairs of 64-bit words. Results come back as a pair \<open>(*plow, *phigh)\<close>.
\<close>

section \<open>Multiplication\<close>

text \<open>The union \<open>LL\<close>: a 64-bit word and its two 32-bit halves.\<close>

definition ll_low :: "u64 \<Rightarrow> u32" where "ll_low x = ucast x"

definition ll_high :: "u64 \<Rightarrow> u32" where "ll_high x = ucast (drop_bit 32 x)"

definition ll_make :: "u32 \<Rightarrow> u32 \<Rightarrow> u64" where
  "ll_make l h = push_bit 32 (ucast h) OR ucast l"

definition mul64 :: "u64 \<Rightarrow> u64 \<Rightarrow> u64 \<times> u64" where
  "mul64 a b =
     (let rl = (ucast (ll_low a) :: u64) * ucast (ll_low b);
          rm = (ucast (ll_low a) :: u64) * ucast (ll_high b);
          rn = (ucast (ll_high a) :: u64) * ucast (ll_low b);
          rh = (ucast (ll_high a) :: u64) * ucast (ll_high b);
          c = (ucast (ll_high rl) :: u64) + ucast (ll_low rm) + ucast (ll_low rn);
          rl = ll_make (ll_low rl) (ucast c);
          c = drop_bit 32 c;
          c = c + ucast (ll_high rm) + ucast (ll_high rn) + ucast (ll_low rh);
          rh = ll_make (ucast c) (ll_high rh);
          rh = ll_make (ll_low rh) (ll_high rh + ucast (drop_bit 32 c))
      in (rl, rh))"

definition mulu64 :: "u64 \<Rightarrow> u64 \<Rightarrow> u64 \<times> u64" where
  "mulu64 a b = mul64 a b"

definition muls64 :: "u64 \<Rightarrow> u64 \<Rightarrow> u64 \<times> u64" where
  "muls64 a b =
     (let (low, rh) = mul64 a b;
          rh = (if sint b < 0 then rh - a else rh);
          rh = (if sint a < 0 then rh - b else rh)
      in (low, rh))"

text \<open>The fallback of \<open>muldiv64\<close>; division by zero is undefined behaviour.\<close>

definition muldiv64 :: "u64 \<Rightarrow> u32 \<Rightarrow> u32 \<Rightarrow> u64 option" where
  "muldiv64 a b c =
     (if c = 0 then None
      else let rl = (ucast (ll_low a) :: u64) * ucast b;
               rh = (ucast (ll_high a) :: u64) * ucast b;
               rh = rh + drop_bit 32 rl;
               resh = (ucast (rh div ucast c) :: u32);
               resl = (ucast ((push_bit 32 (rh mod ucast c) + (rl AND 0xffffffff)) div ucast c) :: u32)
           in Some (ll_make resl resh))"

section \<open>Division\<close>

text \<open>One iteration of the loop of \<open>divu128\<close> on \<open>(dlo, dhi)\<close>.\<close>

definition divu128_step :: "u64 \<Rightarrow> u64 \<times> u64 \<Rightarrow> u64 \<times> u64" where
  "divu128_step divisor = (\<lambda>(dlo, dhi).
     let carry = drop_bit 63 dhi;
         dhi = push_bit 1 dhi OR drop_bit 63 dlo;
         (dhi, carry) = (if carry \<noteq> 0 \<or> dhi \<ge> divisor then (dhi - divisor, 1) else (dhi, 0))
     in (push_bit 1 dlo OR carry, dhi))"

primrec divu128_loop :: "nat \<Rightarrow> u64 \<Rightarrow> u64 \<times> u64 \<Rightarrow> u64 \<times> u64" where
  "divu128_loop 0 divisor s = s"
| "divu128_loop (Suc n) divisor s = divu128_loop n divisor (divu128_step divisor s)"

text \<open>The result is \<open>(return value, *plow, *phigh)\<close>.\<close>

definition divu128 :: "u64 \<Rightarrow> u64 \<Rightarrow> u64 \<Rightarrow> int \<times> u64 \<times> u64" where
  "divu128 plow phigh divisor =
     (if divisor = 0 then (1, plow, phigh)
      else if phigh = 0 then (0, plow div divisor, plow mod divisor)
      else if phigh > divisor then (1, plow, phigh)
      else (0, divu128_loop 64 divisor (plow, phigh)))"

definition divs128 :: "u64 \<Rightarrow> u64 \<Rightarrow> u64 \<Rightarrow> int \<times> u64 \<times> u64" where
  "divs128 plow phigh divisor =
     (let sgn_dvdnd = sint phigh < 0;
          sgn_divsr = sint divisor < 0;
          (plow, phigh) =
            (if sgn_dvdnd
             then (let l = NOT plow; h = NOT phigh in if l = -1 then (0, h + 1) else (l + 1, h))
             else (plow, phigh));
          divisor = (if sgn_divsr then 0 - divisor else divisor);
          (overflow, plow, phigh) = divu128 plow phigh divisor;
          plow = (if sgn_dvdnd \<noteq> sgn_divsr then 0 - plow else plow);
          overflow = (if overflow = 0 \<and> (sint plow < 0) \<noteq> (sgn_dvdnd \<noteq> sgn_divsr) then 1 else overflow)
      in (overflow, plow, phigh))"

text \<open>C division truncates towards zero.\<close>

definition tdiv :: "int \<Rightarrow> int \<Rightarrow> int" where
  "tdiv a b = sgn a * sgn b * (\<bar>a\<bar> div \<bar>b\<bar>)"

definition tmod :: "int \<Rightarrow> int \<Rightarrow> int" where
  "tmod a b = a - b * tdiv a b"

text \<open>
  \<open>divs128\<close> of the header under \<open>CONFIG_INT128\<close>: \<open>*plow\<close> is an \<open>int64_t\<close>, so the
  bitwise or extends its sign.
\<close>

definition divs128_native :: "u64 \<Rightarrow> u64 \<Rightarrow> u64 \<Rightarrow> int \<times> u64 \<times> u64" where
  "divs128_native plow phigh divisor =
     (if divisor = 0 then (1, plow, phigh)
      else let dividend = push_bit 64 (sint phigh) OR sint plow;
               result = tdiv dividend (sint divisor);
               low = word_of_int result;
               high = word_of_int (tmod dividend (sint divisor))
           in (if result \<noteq> sint (low :: u64) then 1 else 0, low, high))"

section \<open>Shifts\<close>

definition urshift :: "u64 \<Rightarrow> u64 \<Rightarrow> u32 \<Rightarrow> u64 \<times> u64" where
  "urshift plow phigh shift =
     (let s = unat (shift AND 127)
      in if s = 0 then (plow, phigh)
         else let h = drop_bit (s mod 64) phigh
              in if s \<ge> 64 then (h, 0)
                 else (drop_bit (s mod 64) plow OR push_bit (64 - s mod 64) phigh, h))"

definition ulshift :: "u64 \<Rightarrow> u64 \<Rightarrow> u32 \<Rightarrow> bool \<Rightarrow> (u64 \<times> u64) \<times> bool" where
  "ulshift plow phigh shift overflow =
     (let s = unat (shift AND 127)
      in if s = 0 then ((plow, phigh), overflow)
         else let (low, high) = urshift plow phigh (of_nat (128 - s));
                  overflow = (if low OR high \<noteq> 0 then True else overflow)
              in if s \<ge> 64 then ((0, push_bit (s mod 64) plow), overflow)
                 else ((push_bit s plow, drop_bit (64 - s mod 64) plow OR push_bit (s mod 64) phigh), overflow))"

section \<open>Multiplication is exact\<close>

abbreviation pair_val :: "u64 \<Rightarrow> u64 \<Rightarrow> int" where
  "pair_val l h \<equiv> uint h * 2 ^ 64 + uint l"

lemma uint_ll_low: "uint (ll_low x) = uint x mod 2 ^ 32"
  by (simp add: ll_low_def unsigned_ucast_eq take_bit_eq_mod)

lemma uint_drop: "uint (drop_bit n (x :: u64)) = uint x div 2 ^ n"
  unfolding drop_bit_eq_div [symmetric] by (rule bit_eqI) (auto simp: bit_uint_iff bit_drop_bit_eq dest: bit_imp_le_length)

lemma u32_bounds: "0 \<le> uint (x :: u32)" "uint (x :: u32) < 4294967296"
  using uint_bounded [of x] by simp_all

lemma uint_ll_high: "uint (ll_high x) = uint x div 2 ^ 32"
proof -
  have "uint x div 2 ^ 32 < 2 ^ 32" using u64_bounds [of x] by (simp add: div_less_iff_less_mult)
  moreover have "0 \<le> uint x div 2 ^ 32" by (simp add: pos_imp_zdiv_nonneg_iff)
  moreover have "uint (ll_high x) = uint x div 2 ^ 32 mod 2 ^ 32"
    unfolding ll_high_def unsigned_ucast_eq uint_drop take_bit_eq_mod by simp
  ultimately show ?thesis by simp
qed

lemma ll_low_make [simp]: "ll_low (ll_make l h) = l"
  by (rule bit_word_eqI) (auto simp: ll_low_def ll_make_def bit_ucast_iff bit_or_iff bit_push_bit_iff)

lemma ll_high_make [simp]: "ll_high (ll_make l h) = h"
  by (rule bit_word_eqI) (auto simp: ll_high_def ll_make_def bit_ucast_iff bit_or_iff bit_push_bit_iff
      bit_drop_bit_eq dest: bit_imp_le_length)

lemma uint_ll_make: "uint (ll_make l h) = uint h * 2 ^ 32 + uint l"
proof -
  let ?y = "ll_make l h"
  have "uint ?y = uint ?y div 2 ^ 32 * 2 ^ 32 + uint ?y mod 2 ^ 32" by (simp only: div_mult_mod_eq)
  then show ?thesis unfolding uint_ll_low [symmetric] uint_ll_high [symmetric] by simp
qed

lemma uint_split: "uint (x :: u64) = uint (ll_high x) * 2 ^ 32 + uint (ll_low x)"
  unfolding uint_ll_low uint_ll_high by (simp only: div_mult_mod_eq)

lemma uint_ucast_32_64 [simp]: "uint (ucast (x :: u32) :: u64) = uint x"
  using u32_bounds [of x] by (simp add: unsigned_ucast_eq take_bit_eq_mod)

lemma uint_mul_32: "uint ((ucast (x :: u32) :: u64) * ucast y) = uint x * uint (y :: u32)"
proof -
  have "uint x * uint y \<le> 4294967295 * 4294967295"
    using u32_bounds [of x] u32_bounds [of y] by (intro mult_mono) simp_all
  then have "uint x * uint y < 2 ^ 64" by simp
  moreover have "0 \<le> uint x * uint y" by simp
  ultimately show ?thesis unfolding uint_word_ariths uint_ucast_32_64 by simp
qed

lemma uint_add_exact: "uint a + uint b < 2 ^ 64 \<Longrightarrow> uint (a + b :: u64) = uint a + uint b"
  by (simp add: uint_add_64)

lemma uint_ucast_64_32: "uint (ucast (x :: u64) :: u32) = uint x mod 2 ^ 32"
  by (simp add: unsigned_ucast_eq take_bit_eq_mod)

lemma carry_sum:
  assumes "c1 = hl + lm + ln" "c1 = d1 * 2 ^ 32 + m1" "c2 = d1 + hm + hn + lh" "c2 = d2 * 2 ^ 32 + (m2 :: int)"
  shows "(hh * 2 ^ 32 + lh) * 2 ^ 64 + ((hm * 2 ^ 32 + lm) + (hn * 2 ^ 32 + ln)) * 2 ^ 32 + (hl * 2 ^ 32 + ll)
    = (hh + d2) * 2 ^ 96 + m2 * 2 ^ 64 + m1 * 2 ^ 32 + ll"
proof -
  have "lh = d2 * 2 ^ 32 + m2 - d1 - hm - hn" "hl = d1 * 2 ^ 32 + m1 - lm - ln" using assms by simp_all
  then show ?thesis by (simp add: algebra_simps)
qed

lemma top_bound:
  "X * 2 ^ 96 + m2 * 2 ^ 64 + m1 * 2 ^ 32 + ll \<le> (2 ^ 64 - 1) * (2 ^ 64 - 1) \<Longrightarrow> 0 \<le> m2 \<Longrightarrow> 0 \<le> m1 \<Longrightarrow> 0 \<le> ll
   \<Longrightarrow> X < (2 ^ 32 :: int)"
  by simp

lemma mul64_exact: "mul64 a b = (l, h) \<Longrightarrow> pair_val l h = uint a * uint b"
proof -
  assume r: "mul64 a b = (l, h)"
  define rl rm rn rh where
    "rl = (ucast (ll_low a) :: u64) * ucast (ll_low b)" and
    "rm = (ucast (ll_low a) :: u64) * ucast (ll_high b)" and
    "rn = (ucast (ll_high a) :: u64) * ucast (ll_low b)" and
    "rh = (ucast (ll_high a) :: u64) * ucast (ll_high b)"
  define c1 where "c1 = (ucast (ll_high rl) :: u64) + ucast (ll_low rm) + ucast (ll_low rn)"
  define c2 where "c2 = drop_bit 32 c1 + ucast (ll_high rm) + ucast (ll_high rn) + ucast (ll_low rh)"
  note half = u32_bounds
  have c1: "uint c1 = uint (ll_high rl) + uint (ll_low rm) + uint (ll_low rn)"
    unfolding c1_def using half [of "ll_high rl"] half [of "ll_low rm"] half [of "ll_low rn"]
    by (simp add: uint_add_exact)
  have c1s: "uint c1 = uint c1 div 2 ^ 32 * 2 ^ 32 + uint c1 mod 2 ^ 32" "uint c1 div 2 ^ 32 < 2 ^ 32"
    "0 \<le> uint c1 div 2 ^ 32"
    using u64_bounds [of c1] by (simp_all only: div_mult_mod_eq) (simp_all add: div_less_iff_less_mult pos_imp_zdiv_nonneg_iff)
  have c2: "uint c2 = uint c1 div 2 ^ 32 + uint (ll_high rm) + uint (ll_high rn) + uint (ll_low rh)"
    unfolding c2_def using c1s(2,3) half [of "ll_high rm"] half [of "ll_high rn"] half [of "ll_low rh"]
    by (simp add: uint_add_exact uint_drop)
  have l: "l = ll_make (ll_low rl) (ucast c1)"
    and h: "h = ll_make (ucast c2) (ll_high rh + ucast (drop_bit 32 c2))"
    using r by (simp_all add: mul64_def Let_def rl_def rm_def rn_def rh_def c1_def c2_def)
  define X where "X = uint (ll_high rh) + uint c2 div 2 ^ 32"
  have c2s: "uint c2 = uint c2 div 2 ^ 32 * 2 ^ 32 + uint c2 mod 2 ^ 32" "uint c2 div 2 ^ 32 < 2 ^ 32"
    "0 \<le> uint c2 div 2 ^ 32" "0 \<le> uint c2 mod 2 ^ 32" "0 \<le> uint c1 mod 2 ^ 32"
    using u64_bounds [of c2] by (simp_all only: div_mult_mod_eq) (simp_all add: div_less_iff_less_mult pos_imp_zdiv_nonneg_iff)
  have prods: "uint (ll_high rl) * 2 ^ 32 + uint (ll_low rl) = uint (ll_low a) * uint (ll_low b)"
    "uint (ll_high rm) * 2 ^ 32 + uint (ll_low rm) = uint (ll_low a) * uint (ll_high b)"
    "uint (ll_high rn) * 2 ^ 32 + uint (ll_low rn) = uint (ll_high a) * uint (ll_low b)"
    "uint (ll_high rh) * 2 ^ 32 + uint (ll_low rh) = uint (ll_high a) * uint (ll_high b)"
    by (simp_all only: uint_split [symmetric] rl_def rm_def rn_def rh_def uint_mul_32)
  have "uint a * uint b = (uint (ll_high a) * 2 ^ 32 + uint (ll_low a)) * (uint (ll_high b) * 2 ^ 32 + uint (ll_low b))"
    by (simp only: uint_split [symmetric])
  also have "\<dots> = uint (ll_high a) * uint (ll_high b) * 2 ^ 64
      + (uint (ll_low a) * uint (ll_high b) + uint (ll_high a) * uint (ll_low b)) * 2 ^ 32
      + uint (ll_low a) * uint (ll_low b)" by (simp add: algebra_simps)
  also have "\<dots> = X * 2 ^ 96 + (uint c2 mod 2 ^ 32) * 2 ^ 64 + (uint c1 mod 2 ^ 32) * 2 ^ 32 + uint (ll_low rl)"
    unfolding prods [symmetric] X_def by (rule carry_sum [OF c1 c1s(1) c2 c2s(1)])
  finally have eq: "uint a * uint b
      = X * 2 ^ 96 + (uint c2 mod 2 ^ 32) * 2 ^ 64 + (uint c1 mod 2 ^ 32) * 2 ^ 32 + uint (ll_low rl)" .
  have "uint a * uint b \<le> (2 ^ 64 - 1) * (2 ^ 64 - 1)"
    using u64_bounds [of a] u64_bounds [of b] by (intro mult_mono) simp_all
  then have "X < 2 ^ 32" unfolding eq by (rule top_bound [OF _ c2s(4,5) half(1)])
  moreover have "0 \<le> X" using c2s(3) half(1) [of "ll_high rh"] by (simp add: X_def)
  ultimately have "uint (ll_high rh + ucast (drop_bit 32 c2)) = X"
    using c2s(2,3) by (simp add: uint_word_ariths(1) uint_ucast_64_32 uint_drop X_def)
  then show ?thesis
    unfolding l h uint_ll_make uint_ucast_64_32 eq by simp
qed

lemma muls64_exact:
  assumes "muls64 a b = (l, h)"
  shows "int128_val \<lparr>lo = l, hi = h\<rparr> = sint a * sint b"
proof -
  obtain rl rh where m: "mul64 a b = (rl, rh)" by fastforce
  let ?A = "if sint a < 0 then 1 else 0 :: int" and ?B = "if sint b < 0 then 1 else 0 :: int"
  have l: "l = rl" and h: "h = rh - (if sint b < 0 then a else 0) - (if sint a < 0 then b else 0)"
    using assms m by (auto simp: muls64_def Let_def)
  have hm: "uint h = (uint rh - ?B * uint a - ?A * uint b) mod 2 ^ 64"
    unfolding h by (auto simp: uint_word_ariths mod_simps)
  have "int128_val \<lparr>lo = l, hi = h\<rparr> mod 2 ^ 128 = ((uint rh - ?B * uint a - ?A * uint b) * 2 ^ 64 + uint l) mod 2 ^ 128"
    unfolding int128_val_uval by (rule uval_mod [OF hm])
  also have "(uint rh - ?B * uint a - ?A * uint b) * 2 ^ 64 + uint l
      = uint a * uint b - (?B * uint a + ?A * uint b) * 2 ^ 64"
    using mul64_exact [OF m] unfolding l by (simp add: algebra_simps)
  also have "\<dots> = sint a * sint b - ?A * ?B * 2 ^ 128"
  proof -
    have "uint a = sint a + ?A * 2 ^ 64" "uint b = sint b + ?B * 2 ^ 64"
      using sint_uint_64 [of a] sint_uint_64 [of b] by (simp_all split: if_splits)
    then show ?thesis by (auto simp: algebra_simps)
  qed
  also have "\<dots> mod 2 ^ 128 = (sint a * sint b) mod 2 ^ 128"
    by (simp add: mod_diff_right_eq [symmetric] del: mod_diff_right_eq)
  finally have "int128_val \<lparr>lo = l, hi = h\<rparr> mod 2 ^ 128 = (sint a * sint b) mod 2 ^ 128" .
  moreover have "\<bar>sint a * sint b\<bar> \<le> 2 ^ 63 * 2 ^ 63"
    unfolding abs_mult using s64_bounds [of a] s64_bounds [of b] by (intro mult_mono) (auto simp: abs_le_iff)
  then have "- (2 ^ 127) \<le> sint a * sint b" "sint a * sint b < 2 ^ 127" by (simp_all add: abs_le_iff)
  ultimately show ?thesis using mod_eq_exact int128_val_range by blast
qed

section \<open>Division\<close>

lemma uint_shift_in:
  "uint (push_bit 1 x OR drop_bit 63 (y :: u64)) = (2 * uint x + uint y div 2 ^ 63) mod 2 ^ 64"
proof -
  have y: "uint y div 2 ^ 63 < 2" "0 \<le> uint y div 2 ^ 63"
    using u64_bounds [of y] by (simp_all add: div_less_iff_less_mult pos_imp_zdiv_nonneg_iff)
  have "push_bit 1 x OR drop_bit 63 y = push_bit 1 x + drop_bit 63 y" (is "?l = _")
    by (rule disjunctive_add_eq_or [symmetric], rule bit_word_eqI)
      (auto simp: bit_and_iff bit_drop_bit_eq mult.commute [of x 2] bit_double_iff dest: bit_imp_le_length)
  also have "\<dots> = 2 * x + drop_bit 63 y" by (simp add: push_bit_eq_mult)
  finally have e: "?l = 2 * x + drop_bit 63 y" .
  show ?thesis unfolding e by (simp add: uint_word_ariths uint_drop mod_simps)
qed

lemma uint_shift_bit: "uint (push_bit 1 (x :: u64) OR of_bool b) = (2 * uint x) mod 2 ^ 64 + of_bool b"
proof -
  have "push_bit 1 x OR of_bool b = push_bit 1 x + of_bool b"
    by (rule disjunctive_add_eq_or [symmetric], rule bit_word_eqI)
      (auto simp: bit_and_iff mult.commute [of x 2] bit_double_iff bit_of_bool_iff)
  then have "uint (push_bit 1 x OR of_bool b) = (2 * uint x + of_bool b) mod 2 ^ 64"
    by (simp add: push_bit_eq_mult uint_word_ariths mod_simps mult.commute)
  also have "\<dots> = (2 * uint x) mod 2 ^ 64 + of_bool b"
  proof -
    have "(2 * uint x) mod 2 ^ 64 = 2 * (uint x mod 2 ^ 63)" by (simp add: mult_mod_right)
    moreover have "uint x mod 2 ^ 63 < 2 ^ 63" "0 \<le> uint x mod 2 ^ 63" by simp_all
    ultimately have "0 \<le> (2 * uint x) mod 2 ^ 64 + of_bool b" "(2 * uint x) mod 2 ^ 64 + of_bool b < 2 ^ 64"
      by (cases b; simp)+
    then show ?thesis by (metis mod_add_left_eq mod_pos_pos_trivial)
  qed
  finally show ?thesis .
qed

text \<open>One step doubles the pair and moves one quotient bit from the high to the low half.\<close>

lemma divu128_step_val:
  assumes "dhi < d" and "divu128_step d (dlo, dhi) = (l, h)"
  shows "\<exists>q \<in> {0, 1}. pair_val l h = 2 * pair_val dlo dhi - q * (uint d * 2 ^ 64 - 1) \<and> h < d"
proof -
  define t where "t = 2 * uint dhi + uint dlo div 2 ^ 63"
  have D: "uint dhi < uint d" using assms(1) by (simp add: word_less_def)
  have b: "uint dlo div 2 ^ 63 < 2" "0 \<le> uint dlo div 2 ^ 63"
    using u64_bounds [of dlo] by (simp_all add: div_less_iff_less_mult pos_imp_zdiv_nonneg_iff)
  have t: "0 \<le> t" "t < 2 * uint d" using D b u64_bounds(1) [of dhi] by (simp_all add: t_def)
  have carry: "drop_bit 63 dhi \<noteq> 0 \<longleftrightarrow> 2 ^ 64 \<le> t"
  proof -
    have "drop_bit 63 dhi \<noteq> 0 \<longleftrightarrow> uint (drop_bit 63 dhi) \<noteq> 0" by (simp add: uint_0_iff)
    also have "\<dots> \<longleftrightarrow> 2 ^ 63 \<le> uint dhi"
      unfolding uint_drop using u64_bounds [of dhi] by (auto simp: zdiv_eq_0_iff not_less)
    finally show ?thesis using b by (auto simp: t_def)
  qed
  define n where "n = push_bit 1 dhi OR drop_bit 63 dlo"
  have n: "uint n = t mod 2 ^ 64" unfolding n_def t_def by (rule uint_shift_in)
  have ge: "drop_bit 63 dhi \<noteq> 0 \<or> n \<ge> d \<longleftrightarrow> t \<ge> uint d"
  proof (cases "2 ^ 64 \<le> t")
    case True
    then show ?thesis using carry u64_bounds [of d] by auto
  next
    case False
    then show ?thesis using carry n t by (simp add: word_le_def)
  qed
  have lh: "l = push_bit 1 dlo OR of_bool (t \<ge> uint d)" "h = (if t \<ge> uint d then n - d else n)"
    using assms(2) ge by (auto simp: divu128_step_def Let_def n_def split: if_splits)
  have "uint h = t - (if t \<ge> uint d then uint d else 0)"
  proof (cases "t \<ge> uint d")
    case True
    then have "uint (n - d) = (t - uint d) mod 2 ^ 64"
      by (simp add: uint_word_ariths n mod_simps)
    then show ?thesis using True lh(2) t u64_bounds [of d] by simp
  next
    case False
    then show ?thesis using lh(2) n t u64_bounds [of d] by simp
  qed
  moreover have "uint l = (2 * uint dlo) mod 2 ^ 64 + of_bool (t \<ge> uint d)"
    unfolding lh(1) by (rule uint_shift_bit)
  moreover have "(2 * uint dlo) mod 2 ^ 64 = 2 * uint dlo - uint dlo div 2 ^ 63 * 2 ^ 64"
  proof -
    have "(2 * uint dlo) mod 2 ^ 64 = 2 * (uint dlo mod 2 ^ 63)" by (simp add: mult_mod_right)
    also have "uint dlo mod 2 ^ 63 = uint dlo - uint dlo div 2 ^ 63 * 2 ^ 63"
      by (simp only: minus_div_mult_eq_mod)
    finally show ?thesis by simp
  qed
  ultimately show ?thesis
    using t by (intro bexI [of _ "of_bool (t \<ge> uint d)"]) (auto simp: t_def word_less_def algebra_simps)
qed

lemma divu128_loop_val:
  assumes "dhi < d" and "divu128_loop n d (dlo, dhi) = (l, h)"
  shows "\<exists>Q. 0 \<le> Q \<and> Q < 2 ^ n \<and> h < d \<and> pair_val l h = 2 ^ n * pair_val dlo dhi - Q * (uint d * 2 ^ 64 - 1)"
  using assms
proof (induction n arbitrary: dlo dhi)
  case 0
  then show ?case by (intro exI [of _ 0]) simp
next
  case (Suc n)
  obtain l1 h1 where s: "divu128_step d (dlo, dhi) = (l1, h1)" by fastforce
  from divu128_step_val [OF Suc.prems(1) s] obtain q where
    q: "q \<in> {0, 1}" "pair_val l1 h1 = 2 * pair_val dlo dhi - q * (uint d * 2 ^ 64 - 1)" "h1 < d" by blast
  from Suc.IH [OF q(3), of l1] Suc.prems(2) s obtain Q where
    Q: "0 \<le> Q" "Q < 2 ^ n" "h < d" "pair_val l h = 2 ^ n * pair_val l1 h1 - Q * (uint d * 2 ^ 64 - 1)" by auto
  have "pair_val l h = 2 ^ Suc n * pair_val dlo dhi - (2 ^ n * q + Q) * (uint d * 2 ^ 64 - 1)"
    unfolding Q(4) q(2) by (simp add: algebra_simps)
  moreover have "0 \<le> 2 ^ n * q + Q" "2 ^ n * q + Q < 2 ^ Suc n" using q(1) Q(1,2) by auto
  ultimately show ?case using Q(3) by blast
qed

lemma divmod_shifted: "0 \<le> q \<Longrightarrow> q < b \<Longrightarrow> (k * b + q) div b = (k :: int) \<and> (k * b + q) mod b = q"
  by simp

lemma divu128_exact:
  assumes "phigh < divisor"
  shows "\<exists>q r. divu128 plow phigh divisor = (0, q, r)
    \<and> uint q = pair_val plow phigh div uint divisor \<and> uint r = pair_val plow phigh mod uint divisor"
proof (cases "phigh = 0")
  case True
  have "divisor \<noteq> 0" using assms by auto
  with True show ?thesis by (simp add: divu128_def uint_div uint_mod)
next
  case False
  have ne: "divisor \<noteq> 0" using assms by auto
  obtain q r where qr: "divu128_loop 64 divisor (plow, phigh) = (q, r)" by fastforce
  let ?V = "pair_val plow phigh" and ?D = "uint divisor"
  from divu128_loop_val [OF assms qr] obtain Q where
    Q: "0 \<le> Q" "Q < 2 ^ 64" "r < divisor" "pair_val q r = 2 ^ 64 * ?V - Q * (?D * 2 ^ 64 - 1)" by blast
  have e: "pair_val q r = (?V - Q * ?D) * 2 ^ 64 + Q" unfolding Q(4) by (simp add: algebra_simps)
  have r: "uint r = ?V - Q * ?D" and q: "uint q = Q"
  proof -
    have "pair_val q r div 2 ^ 64 = uint r" "pair_val q r mod 2 ^ 64 = uint q"
      using u64_bounds [of q] by simp_all
    moreover have "((?V - Q * ?D) * 2 ^ 64 + Q) div 2 ^ 64 = ?V - Q * ?D"
      "((?V - Q * ?D) * 2 ^ 64 + Q) mod 2 ^ 64 = Q"
      using divmod_shifted [OF Q(1,2)] by blast+
    ultimately show "uint r = ?V - Q * ?D" "uint q = Q" unfolding e by simp_all
  qed
  have V: "?V = Q * ?D + uint r" using r by (simp add: algebra_simps)
  have "0 \<le> uint r" "uint r < ?D" using Q(3) by (simp_all add: word_less_def)
  from divmod_shifted [OF this, of Q] have "?V div ?D = Q" "?V mod ?D = uint r" unfolding V by blast+
  with q False assms ne qr show ?thesis by (auto simp: divu128_def word_less_def)
qed

lemma div_two_steps:
  assumes "0 < (c :: int)"
  shows "(h * k + l) div c = h div c * k + (h mod c * k + l) div c"
proof -
  define d m where "d = h div c" and "m = h mod c"
  have "h = d * c + m" by (simp add: d_def m_def)
  then have e: "h * k + l = (m * k + l) + c * (d * k)" by (simp add: algebra_simps)
  have "((m * k + l) + c * (d * k)) div c = d * k + (m * k + l) div c"
    using assms by (intro div_mult_self2) simp
  then show ?thesis unfolding d_def [symmetric] m_def [symmetric] e .
qed

lemma int_div_less:
  assumes "0 < (c :: int)" and "x < n * c"
  shows "x div c < n"
proof (rule ccontr)
  assume "\<not> x div c < n"
  then have "n * c \<le> x div c * c" using assms(1) by (intro mult_right_mono) simp_all
  also have "\<dots> \<le> x" using assms(1) pos_mod_sign [OF assms(1), of x] div_mult_mod_eq [of x c] by linarith
  finally show False using assms(2) by simp
qed

lemma uint_and_mask32: "uint ((x :: u64) AND 0xffffffff) = uint x mod 2 ^ 32"
proof -
  have "(0xffffffff :: u64) = mask 32" by (simp add: mask_eq_exp_minus_1)
  then have "x AND 0xffffffff = take_bit 32 x" by (simp only: take_bit_eq_mask)
  then have "uint (x AND 0xffffffff) = take_bit 32 (uint x)" by (simp only: unsigned_take_bit_eq)
  then show ?thesis by (simp only: take_bit_eq_mod)
qed

lemma muldiv64_exact:
  assumes c: "c \<noteq> 0" and fits: "uint a * uint b div uint c < 2 ^ 64"
  shows "\<exists>r. muldiv64 a b c = Some r \<and> uint r = uint a * uint b div uint c"
proof -
  define rl where "rl = (ucast (ll_low a) :: u64) * ucast b"
  define rh where "rh = (ucast (ll_high a) :: u64) * ucast b + drop_bit 32 rl"
  let ?c = "uint c" and ?L = "uint rl mod 2 ^ 32" and ?H = "uint (ll_high a) * uint b + uint rl div 2 ^ 32"
  have c0: "0 < ?c" using c u32_bounds(1) [of c] by (simp add: uint_0_iff less_le)
  have rl: "uint rl = uint (ll_low a) * uint b" unfolding rl_def by (rule uint_mul_32)
  have "uint (ll_high a) * uint b \<le> (2 ^ 32 - 1) * (2 ^ 32 - 1)"
    using u32_bounds [of "ll_high a"] u32_bounds [of b] by (intro mult_mono) simp_all
  moreover have "uint rl div 2 ^ 32 < 2 ^ 32" using u64_bounds [of rl] by (simp add: div_less_iff_less_mult)
  ultimately have "?H < 2 ^ 64" by simp
  then have rh: "uint rh = ?H"
    unfolding rh_def by (subst uint_add_exact) (simp_all only: uint_mul_32 uint_drop)
  have ab: "uint a * uint b = ?H * 2 ^ 32 + ?L"
  proof -
    have "uint a * uint b = (uint (ll_high a) * 2 ^ 32 + uint (ll_low a)) * uint b"
      by (simp only: uint_split [symmetric])
    also have "\<dots> = uint (ll_high a) * uint b * 2 ^ 32 + uint rl" by (simp add: rl algebra_simps)
    finally show ?thesis using div_mult_mod_eq [of "uint rl" "2 ^ 32"] by (simp add: distrib_right)
  qed
  let ?q = "?H div ?c" and ?m = "?H mod ?c"
  have m: "0 \<le> ?m" "?m < ?c" using c0 by simp_all
  define low where "low = (?m * 2 ^ 32 + ?L) div ?c"
  have quot: "uint a * uint b div ?c = ?q * 2 ^ 32 + low"
    unfolding ab low_def by (rule div_two_steps [OF c0])
  have L: "0 \<le> ?L" "?L < 2 ^ 32" by simp_all
  have lowb: "0 \<le> low" "low < 2 ^ 32"
  proof -
    show "0 \<le> low" unfolding low_def using m(1) L(1) c0 by (simp add: pos_imp_zdiv_nonneg_iff)
    have "?m * 2 ^ 32 + ?L < ?c * 2 ^ 32" using m(2) L(2) by simp
    then show "low < 2 ^ 32" unfolding low_def by (intro int_div_less [OF c0]) (simp only: mult.commute)
  qed
  have q: "0 \<le> ?q" "?q < 2 ^ 32"
    using fits lowb(1) c0 u64_bounds(1) [of rh] unfolding quot rh [symmetric]
    by (simp_all add: pos_imp_zdiv_nonneg_iff)
  have resh: "uint (ucast (rh div ucast c) :: u32) = ?q"
    unfolding uint_ucast_64_32 uint_div uint_ucast_32_64 rh using q by simp
  have resl: "uint (ucast ((push_bit 32 (rh mod ucast c) + (rl AND 0xffffffff)) div ucast c) :: u32) = low"
  proof -
    have mb: "uint (rh mod ucast c) = ?m" unfolding uint_mod uint_ucast_32_64 rh ..
    have mx: "?m * 2 ^ 32 \<le> (2 ^ 32 - 1) * 2 ^ 32" using m(2) u32_bounds(2) [of c] by (intro mult_right_mono) simp_all
    have "uint (push_bit 32 (rh mod ucast c)) = (?m * 2 ^ 32) mod 2 ^ 64"
      unfolding push_bit_eq_mult uint_word_ariths mb by simp
    then have p: "uint (push_bit 32 (rh mod ucast c)) = ?m * 2 ^ 32" using mx m(1) by simp
    have "uint (push_bit 32 (rh mod ucast c) + (rl AND 0xffffffff)) = ?m * 2 ^ 32 + ?L"
      by (subst uint_add_exact) (use mx L in \<open>simp_all add: p uint_and_mask32\<close>)
    then show ?thesis
      unfolding uint_ucast_64_32 uint_div uint_ucast_32_64 using lowb by (simp add: low_def)
  qed
  show ?thesis
    using c unfolding muldiv64_def Let_def rl_def [symmetric] rh_def [symmetric]
    by (simp add: uint_ll_make resh resl quot)
qed

section \<open>Shifts\<close>

lemma int_div_nonzero: "0 \<le> x \<Longrightarrow> 0 < b \<Longrightarrow> x div b \<noteq> 0 \<longleftrightarrow> b \<le> (x :: int)"
  by (auto simp: zdiv_eq_0_iff)

lemma bit_pair_val: "bit (pair_val l h) k \<longleftrightarrow> (if k < 64 then bit l k else bit h (k - 64))"
proof -
  have "pair_val l h = push_bit 64 (uint h) + uint l" by (simp add: push_bit_eq_mult)
  also have "\<dots> = push_bit 64 (uint h) OR uint l"
    by (rule disjunctive_add_eq_or, rule bit_eqI)
      (auto simp: bit_and_iff bit_push_bit_iff bit_uint_iff dest: bit_imp_le_length)
  finally have e: "pair_val l h = push_bit 64 (uint h) OR uint l" .
  show ?thesis unfolding e
    by (auto simp: bit_or_iff bit_push_bit_iff bit_uint_iff dest: bit_imp_le_length)
qed

lemma bit_u64_False [simp]: "64 \<le> k \<Longrightarrow> \<not> bit (x :: u64) k"
  by (auto dest: bit_imp_le_length)

lemma unat_and_127: "unat ((x :: u32) AND 127) = unat x mod 128"
proof -
  have "(127 :: u32) = mask 7" by (simp add: mask_eq_exp_minus_1)
  then have "x AND 127 = take_bit 7 x" by (simp only: take_bit_eq_mask)
  then have "unat (x AND 127) = take_bit 7 (unat x)" by (simp only: unsigned_take_bit_eq)
  then show ?thesis by (simp add: take_bit_eq_mod)
qed

lemma urshift_val:
  assumes "urshift plow phigh shift = (l, h)"
  shows "pair_val l h = pair_val plow phigh div 2 ^ (unat shift mod 128)"
proof -
  define s where "s = unat shift mod 128"
  have s: "s < 128" by (simp add: s_def)
  have lh: "(l, h) = (if s = 0 then (plow, phigh) else if s \<ge> 64 then (drop_bit (s - 64) phigh, 0)
      else (drop_bit s plow OR push_bit (64 - s) phigh, drop_bit s phigh))"
    using assms s by (simp add: urshift_def Let_def unat_and_127 s_def [symmetric] mod_if [of s] split: if_splits)
  have "pair_val l h = drop_bit s (pair_val plow phigh)"
  proof (rule bit_eqI)
    fix k
    show "bit (pair_val l h) k \<longleftrightarrow> bit (drop_bit s (pair_val plow phigh)) k"
      using lh s unfolding bit_drop_bit_eq comp_def bit_pair_val
      by (cases "s = 0"; cases "s < 64")
        (auto simp: bit_or_iff bit_drop_bit_eq bit_push_bit_iff add.commute [of k] not_less)
  qed
  then show ?thesis by (simp add: drop_bit_eq_div s_def)
qed

lemma ulshift_val:
  assumes "ulshift plow phigh shift ov = ((l, h), ov')"
  shows "pair_val l h = pair_val plow phigh * 2 ^ (unat shift mod 128) mod 2 ^ 128"
    and "ov' \<longleftrightarrow> ov \<or> 2 ^ 128 \<le> pair_val plow phigh * 2 ^ (unat shift mod 128)"
proof -
  define s where "s = unat shift mod 128"
  have s: "s < 128" by (simp add: s_def)
  have lh: "(l, h) = (if s = 0 then (plow, phigh) else if s \<ge> 64 then (0, push_bit (s - 64) plow)
      else (push_bit s plow, drop_bit (64 - s) plow OR push_bit s phigh))"
    using assms s
    by (auto simp: ulshift_def Let_def unat_and_127 s_def [symmetric] mod_if [of s] split: if_splits prod.splits)
  have "pair_val l h = take_bit 128 (push_bit s (pair_val plow phigh))"
  proof (rule bit_eqI)
    fix k
    have "64 \<le> k \<Longrightarrow> s < 64 \<Longrightarrow> 64 - s + (k - 64) = k - s" "k - (64 + s) = k - s - 64" "k - 64 - s = k - s - 64"
      "k - 64 - (s - 64) = (if 64 \<le> s then k - s else k - 64)"
      by auto
    then show "bit (pair_val l h) k \<longleftrightarrow> bit (take_bit 128 (push_bit s (pair_val plow phigh))) k"
      using lh s unfolding bit_take_bit_iff bit_push_bit_iff bit_pair_val
      by (cases "s = 0"; cases "s < 64"; cases "k < 64"; cases "k < 128"; cases "k < s")
        (auto simp: bit_or_iff bit_drop_bit_eq bit_push_bit_iff not_less)
  qed
  then show "pair_val l h = pair_val plow phigh * 2 ^ (unat shift mod 128) mod 2 ^ 128"
    by (simp add: take_bit_eq_mod push_bit_eq_mult s_def)
  show "ov' \<longleftrightarrow> ov \<or> 2 ^ 128 \<le> pair_val plow phigh * 2 ^ (unat shift mod 128)"
  proof (cases "s = 0")
    case True
    have "pair_val plow phigh < 2 ^ 128" using u64_bounds [of plow] u64_bounds [of phigh] by simp
    then show ?thesis using True assms by (auto simp: ulshift_def Let_def unat_and_127 s_def [symmetric])
  next
    case False
    obtain a b where ab: "urshift plow phigh (of_nat (128 - s)) = (a, b)" by fastforce
    have "unat (of_nat n :: u32) mod 128 = n" if "n < 128" for n
      using that by (simp add: unat_of_nat take_bit_eq_mod)
    from this [of "128 - s"] have "unat (of_nat (128 - s) :: u32) mod 128 = 128 - s" using False s by simp
    with urshift_val [OF ab] have v: "pair_val a b = pair_val plow phigh div 2 ^ (128 - s)" by simp
    have "ov' \<longleftrightarrow> ov \<or> a OR b \<noteq> 0"
      using assms False ab by (auto simp: ulshift_def Let_def unat_and_127 s_def [symmetric] split: if_splits)
    also have "a OR b \<noteq> 0 \<longleftrightarrow> pair_val a b \<noteq> 0"
      using u64_bounds(1) [of a] u64_bounds(1) [of b] by (auto simp: or_eq_0_iff uint_0_iff add_nonneg_eq_0_iff)
    also have "\<dots> \<longleftrightarrow> 2 ^ (128 - s) \<le> pair_val plow phigh"
      unfolding v by (rule int_div_nonzero) simp_all
    also have "\<dots> \<longleftrightarrow> 2 ^ (128 - s) * 2 ^ s \<le> pair_val plow phigh * 2 ^ s" by simp
    also have "(2 :: int) ^ (128 - s) * 2 ^ s = 2 ^ 128"
      using s by (simp add: power_add [symmetric] del: power_add)
    finally show ?thesis by (simp add: s_def)
  qed
qed

section \<open>Signed division\<close>




abbreviation spair_val :: "u64 \<Rightarrow> u64 \<Rightarrow> int" where
  "spair_val l h \<equiv> sint h * 2 ^ 64 + uint l"



section \<open>Properties\<close>

text \<open>
  The portable 64 by 64 multiplication is exact: \<open>mulu64\<close> returns the 128-bit product
  of the unsigned operands, \<open>muls64\<close> that of the signed ones.
\<close>

theorem mul64_correct:
  "(case mulu64 a b of (l, h) \<Rightarrow> pair_val l h = uint a * uint b)
   \<and> (case muls64 a b of (l, h) \<Rightarrow> spair_val l h = sint a * sint b)"
  using mul64_exact [of a b] muls64_exact [of a b]
  by (auto simp: mulu64_def int128_val_def)

text \<open>
  C39. The portable 128 by 64 division: when the quotient fits (the high half is below the
  divisor) the shift-and-subtract loop ends with the exact quotient and remainder, and the
  call reports no overflow.
\<close>

theorem divu128_correct:
  assumes "phigh < divisor"
  shows "\<exists>q r. divu128 plow phigh divisor = (0, q, r)
    \<and> uint q = pair_val plow phigh div uint divisor \<and> uint r = pair_val plow phigh mod uint divisor"
  by (rule divu128_exact [OF assms])

theorem divu128_correct_witness:
  "\<exists>q r. divu128 5 3 10 = (0, q, r) \<and> uint q = (3 * 2 ^ 64 + 5) div 10 \<and> uint r = (3 * 2 ^ 64 + 5) mod 10"
proof -
  have "(3 :: u64) < 10" by simp
  from divu128_correct [OF this, of 5] show ?thesis by simp
qed

text \<open>
  \<open>divu128\<close> misses one overflow: its comment promises to report a quotient that
  exceeds 64 bits, but with the high half equal to the divisor the quotient is at least
  2 to the 64 and the call reports success.
\<close>

theorem divu128_misses_overflow:
  assumes "divisor \<noteq> 0"
  shows "fst (divu128 plow divisor divisor) = 0 \<and> 2 ^ 64 \<le> pair_val plow divisor div uint divisor"
proof -
  have "0 < uint divisor" using assms u64_bounds(1) [of divisor] by (simp add: uint_0_iff less_le)
  then have "pair_val plow divisor div uint divisor = 2 ^ 64 + uint plow div uint divisor" by simp
  moreover have "0 \<le> uint plow div uint divisor" using \<open>0 < uint divisor\<close> by (simp add: pos_imp_zdiv_nonneg_iff)
  ultimately show ?thesis using assms by (simp add: divu128_def)
qed

theorem divu128_misses_overflow_witness:
  "fst (divu128 0 7 7) = 0 \<and> 2 ^ 64 \<le> pair_val 0 7 div uint (7 :: u64)"
  by (rule divu128_misses_overflow) simp



text \<open>
  The version of \<open>divs128\<close> for compilers with 128-bit integers is wrong for a low half
  with its top bit set, because that half is sign-extended before it is combined: dividing
  the non-negative number 2 to the 63 by 2 yields minus 2 to the 62, while the portable
  version yields 2 to the 62.
\<close>

theorem divs128_native_sign_extends:
  "divs128_native (2 ^ 63) 0 2 = (0, - (2 ^ 62), 0) \<and> divs128 (2 ^ 63) 0 2 = (0, 2 ^ 62, 0)"
  by (simp add: divs128_native_def divs128_def divu128_def tdiv_def tmod_def Let_def)

text \<open>
  \<open>muldiv64\<close> computes the 96-bit intermediate product exactly: for a non-zero divisor
  and a quotient that fits, the result is the product divided by the divisor.
\<close>

theorem muldiv64_correct:
  assumes "c \<noteq> 0" and "uint a * uint b div uint c < 2 ^ 64"
  shows "\<exists>r. muldiv64 a b c = Some r \<and> uint r = uint a * uint b div uint c"
  by (rule muldiv64_exact [OF assms])

theorem muldiv64_correct_witness:
  "\<exists>r. muldiv64 (2 ^ 63) 6 10 = Some r \<and> uint r = 2 ^ 63 * 6 div 10"
  using muldiv64_correct [of 10 "2 ^ 63" 6] by simp

text \<open>
  The 128-bit shifts: \<open>urshift\<close> divides and \<open>ulshift\<close> multiplies by the power of two
  of the shift count modulo 128, and \<open>ulshift\<close> raises the overflow flag exactly when a
  one-bit leaves the 128 bits.
\<close>

theorem shift128_correct:
  "(case urshift l h n of (l', h') \<Rightarrow> pair_val l' h' = pair_val l h div 2 ^ (unat n mod 128))
   \<and> (case ulshift l h n ov of ((l', h'), ov') \<Rightarrow>
        pair_val l' h' = pair_val l h * 2 ^ (unat n mod 128) mod 2 ^ 128
        \<and> ov' = (ov \<or> 2 ^ 128 \<le> pair_val l h * 2 ^ (unat n mod 128)))"
  using urshift_val [of l h n] ulshift_val [of l h n ov] by (auto split: prod.splits)

end
