(* ===== verification/Flat_View.thy ===== *)
theory Flat_View
  imports Int128
begin

text \<open>
  The rendering of memory topologies of \<open>src/unicorn/qemu/softmmu/memory.c\<close>: address
  ranges, flat ranges and flat views, \<open>render_memory_region\<close>, \<open>flatview_simplify\<close>,
  \<open>memory_region_get_flatview_root\<close> and \<open>generate_memory_topology\<close>.

  A \<open>MemoryRegion\<close> is a node of a tree; its identity (the pointer) is a number. \<open>Int128\<close>
  values are integers (theory \<open>Int128\<close> shows that the structure computes on them; sums of
  the offsets of a topology stay far below the 128-bit range). A failed assertion of
  \<open>int128_get64\<close> is \<open>None\<close>.
\<close>

section \<open>Address ranges\<close>

record addr_range =
  ar_start :: int
  ar_size :: int

definition int128_get64 :: "int \<Rightarrow> u64 option" where
  "int128_get64 a = (if 0 \<le> a \<and> a < 2 ^ 64 then Some (word_of_int a) else None)"

definition addrrange_make :: "int \<Rightarrow> int \<Rightarrow> addr_range" where
  "addrrange_make s n = \<lparr>ar_start = s, ar_size = n\<rparr>"

definition addrrange_equal :: "addr_range \<Rightarrow> addr_range \<Rightarrow> bool" where
  "addrrange_equal r1 r2 \<longleftrightarrow> ar_start r1 = ar_start r2 \<and> ar_size r1 = ar_size r2"

definition addrrange_end :: "addr_range \<Rightarrow> int" where
  "addrrange_end r = ar_start r + ar_size r"

definition addrrange_contains :: "addr_range \<Rightarrow> int \<Rightarrow> bool" where
  "addrrange_contains r a \<longleftrightarrow> a \<ge> ar_start r \<and> a < addrrange_end r"

definition addrrange_intersects :: "addr_range \<Rightarrow> addr_range \<Rightarrow> bool" where
  "addrrange_intersects r1 r2 \<longleftrightarrow>
     addrrange_contains r1 (ar_start r2) \<or> addrrange_contains r2 (ar_start r1)"

definition addrrange_intersection :: "addr_range \<Rightarrow> addr_range \<Rightarrow> addr_range" where
  "addrrange_intersection r1 r2 =
     (let s = max (ar_start r1) (ar_start r2); e = min (addrrange_end r1) (addrrange_end r2)
      in addrrange_make s (e - s))"

lemmas ar_defs = addrrange_make_def addrrange_equal_def addrrange_end_def addrrange_contains_def
  addrrange_intersects_def addrrange_intersection_def

section \<open>Memory regions and flat views\<close>

record mr_info =
  mr_id :: nat
  mr_addr :: u64
  mr_size :: int
  mr_enabled :: bool
  mr_terminates :: bool
  mr_readonly :: bool
  mr_priority :: int

datatype mem_region = MemoryRegion (info: mr_info) (subregions: "mem_region list")

record flat_range =
  fr_mr :: nat
  fr_offset :: u64
  fr_addr :: addr_range
  fr_readonly :: bool

record flat_view =
  fv_ranges :: "flat_range list"
  fv_nr_allocated :: nat

abbreviation fv_nr :: "flat_view \<Rightarrow> nat" where
  "fv_nr view \<equiv> length (fv_ranges view)"

definition flatrange_equal :: "flat_range \<Rightarrow> flat_range \<Rightarrow> bool" where
  "flatrange_equal a b \<longleftrightarrow> fr_mr a = fr_mr b \<and> addrrange_equal (fr_addr a) (fr_addr b)
     \<and> fr_offset a = fr_offset b \<and> fr_readonly a = fr_readonly b"

definition flatview_new :: flat_view where
  "flatview_new = \<lparr>fv_ranges = [], fv_nr_allocated = 0\<rparr>"

definition flatview_insert :: "flat_view \<Rightarrow> nat \<Rightarrow> flat_range \<Rightarrow> flat_view" where
  "flatview_insert view pos r =
     (let view = (if fv_nr view = fv_nr_allocated view
                  then view\<lparr>fv_nr_allocated := max (2 * fv_nr view) 10\<rparr> else view)
      in view\<lparr>fv_ranges := take pos (fv_ranges view) @ r # drop pos (fv_ranges view)\<rparr>)"

lemma fv_ranges_insert:
  "fv_ranges (flatview_insert view pos r) = take pos (fv_ranges view) @ r # drop pos (fv_ranges view)"
  by (simp add: flatview_insert_def Let_def)

lemma fv_nr_insert: "pos \<le> fv_nr view \<Longrightarrow> fv_nr (flatview_insert view pos r) = Suc (fv_nr view)"
  by (simp add: fv_ranges_insert)

definition can_merge :: "flat_range \<Rightarrow> flat_range \<Rightarrow> bool" where
  "can_merge r1 r2 \<longleftrightarrow>
     addrrange_end (fr_addr r1) = ar_start (fr_addr r2)
     \<and> fr_mr r1 = fr_mr r2
     \<and> uint (fr_offset r1) + ar_size (fr_addr r1) = uint (fr_offset r2)
     \<and> fr_readonly r1 = fr_readonly r2"

text \<open>The inner loop of \<open>flatview_simplify\<close>: absorb the ranges from \<open>j\<close> on into range \<open>i\<close>.\<close>

function simplify_absorb :: "flat_range list \<Rightarrow> nat \<Rightarrow> nat \<Rightarrow> flat_range list \<times> nat" where
  "simplify_absorb rs i j =
     (if j < length rs \<and> can_merge (rs ! (j - 1)) (rs ! j) then
        (let ri = rs ! i;
             a = fr_addr ri;
             ri = ri\<lparr>fr_addr := a\<lparr>ar_size := ar_size a + ar_size (fr_addr (rs ! j))\<rparr>\<rparr>
         in simplify_absorb (rs[i := ri]) i (j + 1))
      else (rs, j))"
  by pat_completeness auto
termination by (relation "measure (\<lambda>(rs, i, j). length rs - j)") auto

declare simplify_absorb.simps [simp del]

lemma simplify_absorb_length:
  "simplify_absorb rs i j = (rs', j') \<Longrightarrow> length rs' = length rs \<and> j \<le> j'"
proof (induction rs i j arbitrary: rs' j' rule: simplify_absorb.induct)
  case (1 rs i j)
  show ?case
    using 1(1) [OF _ refl refl refl] 1(2)
    by (subst (asm) simplify_absorb.simps) (fastforce simp: Let_def split: if_splits)
qed

text \<open>The outer loop; \<open>memmove\<close> drops the absorbed ranges.\<close>

function simplify_from :: "flat_range list \<Rightarrow> nat \<Rightarrow> flat_range list" where
  "simplify_from rs i =
     (if i < length rs then
        (let (rs', j) = simplify_absorb rs i (i + 1)
         in simplify_from (take (i + 1) rs' @ drop j rs') (i + 1))
      else rs)"
  by pat_completeness auto
termination
  by (relation "measure (\<lambda>(rs, i). length rs - i)") (auto dest!: simplify_absorb_length [OF sym])

declare simplify_from.simps [simp del]

definition flatview_simplify :: "flat_view \<Rightarrow> flat_view" where
  "flatview_simplify view = view\<lparr>fv_ranges := simplify_from (fv_ranges view) 0\<rparr>"

section \<open>Rendering\<close>

text \<open>
  The loop of \<open>render_memory_region\<close> that renders the region itself into the gaps of the
  view, with the statement after the loop.
\<close>

function render_gaps :: "nat \<Rightarrow> bool \<Rightarrow> flat_view \<Rightarrow> nat \<Rightarrow> int \<Rightarrow> u64 \<Rightarrow> int \<Rightarrow> flat_view option" where
  "render_gaps mr readonly view i base off remain =
     (if i < fv_nr view \<and> remain \<noteq> 0 then
        (if base \<ge> addrrange_end (fr_addr (fv_ranges view ! i))
         then render_gaps mr readonly view (i + 1) base off remain
         else
           (let s = ar_start (fr_addr (fv_ranges view ! i));
                now = min remain (s - base);
                fr = \<lparr>fr_mr = mr, fr_offset = off, fr_addr = addrrange_make base now, fr_readonly = readonly\<rparr>;
                st = (if base < s
                      then map_option (\<lambda>n. (flatview_insert view i fr, i + 1, base + now, off + n, remain - now))
                             (int128_get64 now)
                      else Some (view, i, base, off, remain))
            in case st of
                 None \<Rightarrow> None
               | Some (view', i', base', off', remain') \<Rightarrow>
                   (let now = min (base' + remain') (addrrange_end (fr_addr (fv_ranges view' ! i'))) - base'
                    in case int128_get64 now of
                         None \<Rightarrow> None
                       | Some n \<Rightarrow> render_gaps mr readonly view' (i' + 1) (base' + now) (off' + n) (remain' - now))))
      else if remain \<noteq> 0 then
        Some (flatview_insert view i
          \<lparr>fr_mr = mr, fr_offset = off, fr_addr = addrrange_make base remain, fr_readonly = readonly\<rparr>)
      else Some view)"
  by pat_completeness auto
termination
  by (relation "measure (\<lambda>(mr, ro, view, i, base, off, remain). fv_nr view - i)")
    (auto simp: fv_nr_insert eq_commute [of "Some _" "map_option _ _"] split: if_splits)

declare render_gaps.simps [simp del]

fun render_memory_region :: "flat_view \<Rightarrow> mem_region \<Rightarrow> int \<Rightarrow> addr_range \<Rightarrow> bool \<Rightarrow> flat_view option"
  and render_subregions :: "flat_view \<Rightarrow> mem_region list \<Rightarrow> int \<Rightarrow> addr_range \<Rightarrow> bool \<Rightarrow> flat_view option" where
  "render_memory_region view (MemoryRegion mr subs) base clip readonly =
     (if \<not> mr_enabled mr then Some view
      else
        (let base = base + uint (mr_addr mr);
             readonly = (readonly \<or> mr_readonly mr);
             tmp = addrrange_make base (mr_size mr)
         in if \<not> addrrange_intersects tmp clip then Some view
            else
              (let clip = addrrange_intersection tmp clip
               in case render_subregions view subs base clip readonly of
                    None \<Rightarrow> None
                  | Some view \<Rightarrow>
                      if \<not> mr_terminates mr then Some view
                      else
                        (case int128_get64 (ar_start clip - base) of
                           None \<Rightarrow> None
                         | Some off \<Rightarrow>
                             render_gaps (mr_id mr) readonly view 0 (ar_start clip) off (ar_size clip)))))"
| "render_subregions view [] base clip readonly = Some view"
| "render_subregions view (s # subs) base clip readonly =
     (case render_memory_region view s base clip readonly of
        None \<Rightarrow> None
      | Some view \<Rightarrow> render_subregions view subs base clip readonly)"

text \<open>
  One round of the loop of \<open>memory_region_get_flatview_root\<close>: the number of enabled children
  seen (it stops at the second) and the candidate \<open>next\<close>.
\<close>

fun root_child :: "mr_info \<Rightarrow> mem_region list \<Rightarrow> nat \<Rightarrow> mem_region option \<Rightarrow> nat \<times> mem_region option" where
  "root_child mr [] found nxt = (found, nxt)"
| "root_child mr (c # cs) found nxt =
     (if mr_enabled (info c) then
        (if found + 1 > 1 then (found + 1, None)
         else root_child mr cs (found + 1)
                (if mr_addr (info c) = 0 \<and> mr_size mr \<ge> mr_size (info c) then Some c else nxt))
      else root_child mr cs found nxt)"

lemma root_child_mem: "root_child mr cs found nxt = (n, Some c) \<Longrightarrow> c \<in> set cs \<or> nxt = Some c"
  by (induction cs arbitrary: found nxt) (auto split: if_splits)

lemma mem_region_size: "c \<in> set subs \<Longrightarrow> size c < size (MemoryRegion mr subs)"
  by (induction subs) auto

function memory_region_get_flatview_root :: "mem_region \<Rightarrow> mem_region option" where
  "memory_region_get_flatview_root (MemoryRegion mr subs) =
     (if \<not> mr_enabled mr then None
      else if mr_terminates mr then Some (MemoryRegion mr subs)
      else
        (case root_child mr subs 0 None of
           (found, nxt) \<Rightarrow>
             if found = 0 then None
             else (case nxt of
                     None \<Rightarrow> Some (MemoryRegion mr subs)
                   | Some c \<Rightarrow> memory_region_get_flatview_root c)))"
  by pat_completeness auto
termination
proof (relation "measure size", goal_cases)
  case (2 mr subs found nxt c)
  then have "root_child mr subs 0 None = (found, Some c)" by simp
  then have "c \<in> set subs" using root_child_mem by fastforce
  then show ?case using mem_region_size [of c subs mr] by simp
qed simp

declare memory_region_get_flatview_root.simps [simp del]

text \<open>\<open>generate_memory_topology\<close> without the dispatch tree, which is built from its result.\<close>

definition generate_memory_topology :: "mem_region option \<Rightarrow> flat_view option" where
  "generate_memory_topology root =
     map_option flatview_simplify
       (case root of
          None \<Rightarrow> Some flatview_new
        | Some mr \<Rightarrow> render_memory_region flatview_new mr 0 (addrrange_make 0 (2 ^ 64)) False)"

end
