(* ===== verification/Flat_Render.thy ===== *)
theory Flat_Render
  imports Flat_View
begin

text \<open>
  What rendering computes. The specification \<open>resolve\<close> walks the region tree for one
  address: the first enabled subregion that covers the address wins, then the region
  itself if it terminates. The flat view agrees with it at every address, stays sorted and
  disjoint, and no assertion of the renderer fails.
\<close>

section \<open>Specification\<close>

type_synonym target = "nat \<times> int \<times> bool"

fun resolve :: "mem_region \<Rightarrow> int \<Rightarrow> bool \<Rightarrow> int \<Rightarrow> target option"
  and resolve_subs :: "mem_region list \<Rightarrow> int \<Rightarrow> bool \<Rightarrow> int \<Rightarrow> target option" where
  "resolve (MemoryRegion mr subs) base ro a =
     (let base = base + uint (mr_addr mr); ro = (ro \<or> mr_readonly mr)
      in if mr_enabled mr \<and> base \<le> a \<and> a < base + mr_size mr then
           (case resolve_subs subs base ro a of
              Some t \<Rightarrow> Some t
            | None \<Rightarrow> if mr_terminates mr then Some (mr_id mr, a - base, ro) else None)
         else None)"
| "resolve_subs [] base ro a = None"
| "resolve_subs (s # subs) base ro a =
     (case resolve s base ro a of Some t \<Rightarrow> Some t | None \<Rightarrow> resolve_subs subs base ro a)"

definition fr_at :: "flat_range \<Rightarrow> int \<Rightarrow> target option" where
  "fr_at r a = (if addrrange_contains (fr_addr r) a
     then Some (fr_mr r, uint (fr_offset r) + (a - ar_start (fr_addr r)), fr_readonly r) else None)"

fun view_at :: "flat_range list \<Rightarrow> int \<Rightarrow> target option" where
  "view_at [] a = None"
| "view_at (r # rs) a = (case fr_at r a of Some t \<Rightarrow> Some t | None \<Rightarrow> view_at rs a)"

abbreviation fr_start :: "flat_range \<Rightarrow> int" where "fr_start r \<equiv> ar_start (fr_addr r)"

abbreviation fr_size :: "flat_range \<Rightarrow> int" where "fr_size r \<equiv> ar_size (fr_addr r)"

abbreviation fr_end :: "flat_range \<Rightarrow> int" where "fr_end r \<equiv> addrrange_end (fr_addr r)"

text \<open>Ranges of a view: non-empty, inside the 64-bit space, sorted and disjoint.\<close>

fun ranges_from :: "int \<Rightarrow> flat_range list \<Rightarrow> bool" where
  "ranges_from lb [] \<longleftrightarrow> lb \<le> 2 ^ 64"
| "ranges_from lb (r # rs) \<longleftrightarrow> lb \<le> fr_start r \<and> 0 < fr_size r \<and> ranges_from (fr_end r) rs"

definition small_ranges :: "flat_range list \<Rightarrow> bool" where
  "small_ranges rs \<longleftrightarrow> (\<forall>r\<in>set rs. fr_size r < 2 ^ 64)"

text \<open>The array of a view has room for its ranges.\<close>

definition cap_ok :: "flat_view \<Rightarrow> bool" where
  "cap_ok view \<longleftrightarrow> fv_nr view \<le> fv_nr_allocated view"

fun region_ok :: "mem_region \<Rightarrow> bool" where
  "region_ok (MemoryRegion mr subs) \<longleftrightarrow> 0 \<le> mr_size mr \<and> mr_size mr \<le> 2 ^ 64
     \<and> (\<forall>s\<in>set subs. region_ok s \<and> mr_size (info s) < 2 ^ 64)"

lemma ranges_from_bound: "ranges_from lb rs \<Longrightarrow> lb \<le> 2 ^ 64"
  by (induction rs arbitrary: lb) (force simp: addrrange_end_def)+

lemma ranges_from_weaken: "ranges_from lb rs \<Longrightarrow> lb' \<le> lb \<Longrightarrow> ranges_from lb' rs"
  by (cases rs) auto

lemma view_at_below: "ranges_from lb rs \<Longrightarrow> a < lb \<Longrightarrow> view_at rs a = None"
  by (induction rs arbitrary: lb) (force simp: fr_at_def addrrange_contains_def addrrange_end_def)+

lemma view_at_append:
  "view_at (xs @ ys) a = (case view_at xs a of Some t \<Rightarrow> Some t | None \<Rightarrow> view_at ys a)"
  by (induction xs) (auto split: option.splits)

section \<open>The gap loop on lists\<close>

fun fill :: "nat \<Rightarrow> bool \<Rightarrow> flat_range list \<Rightarrow> int \<Rightarrow> u64 \<Rightarrow> int \<Rightarrow> flat_range list option" where
  "fill mr ro [] base off remain =
     Some (if remain = 0 then []
           else [\<lparr>fr_mr = mr, fr_offset = off, fr_addr = addrrange_make base remain, fr_readonly = ro\<rparr>])"
| "fill mr ro (r # rs) base off remain =
     (if remain = 0 then Some (r # rs)
      else if base \<ge> fr_end r then map_option ((#) r) (fill mr ro rs base off remain)
      else
        (let now = min remain (fr_start r - base);
             fr = \<lparr>fr_mr = mr, fr_offset = off, fr_addr = addrrange_make base now, fr_readonly = ro\<rparr>;
             st = (if base < fr_start r
                   then map_option (\<lambda>n. ([fr], base + now, off + n, remain - now)) (int128_get64 now)
                   else Some ([], base, off, remain))
         in case st of None \<Rightarrow> None
            | Some (new, base', off', remain') \<Rightarrow>
                (let now = min (base' + remain') (fr_end r) - base'
                 in case int128_get64 now of
                      None \<Rightarrow> None
                    | Some n \<Rightarrow> map_option (\<lambda>x. new @ r # x)
                        (fill mr ro rs (base' + now) (off' + n) (remain' - now)))))"

lemma fill_zero: "fill mr ro rs base off 0 = Some rs"
  by (cases rs) simp_all

lemma render_gaps_fill:
  assumes "fv_ranges view = pre @ suf"
  shows "map_option fv_ranges (render_gaps mr ro view (length pre) base off remain)
    = map_option ((@) pre) (fill mr ro suf base off remain)"
  using assms
proof (induction suf arbitrary: view pre base off remain)
  case Nil
  then show ?case by (subst render_gaps.simps) (simp add: fv_ranges_insert)
next
  case (Cons r suf)
  have len: "length pre < fv_nr view" and ri: "fv_ranges view ! length pre = r"
    using Cons.prems by (simp_all add: nth_append)
  show ?case
  proof (cases "remain = 0 \<or> base \<ge> fr_end r")
    case True
    then show ?thesis
      using Cons.IH [of view "pre @ [r]" base off remain] Cons.prems len ri
      by (subst render_gaps.simps) (auto simp: option.map_comp comp_def)
  next
    case F: False
    show ?thesis
    proof (cases "base < fr_start r")
      case True
      define now where "now = min remain (fr_start r - base)"
      define fr where "fr = \<lparr>fr_mr = mr, fr_offset = off, fr_addr = addrrange_make base now, fr_readonly = ro\<rparr>"
      define v where "v = flatview_insert view (length pre) fr"
      have v: "fv_ranges v = pre @ fr # r # suf" using Cons.prems by (simp add: v_def fv_ranges_insert)
      have vi: "fv_ranges v ! Suc (length pre) = r" using v by (simp add: nth_append)
      show ?thesis
      proof (cases "int128_get64 now")
        case None
        then show ?thesis using F True len ri
          by (subst render_gaps.simps) (simp add: now_def [symmetric] Let_def)
      next
        case (Some n)
        define b o2 m where "b = base + now" and "o2 = off + n" and "m = remain - now"
        define now2 where "now2 = min (b + m) (fr_end r) - b"
        have bn: "b + now2 = min (b + m) (fr_end r)" by (simp add: now2_def)
        have L: "render_gaps mr ro view (length pre) base off remain
          = (case int128_get64 now2 of None \<Rightarrow> None
             | Some k \<Rightarrow> render_gaps mr ro v (length (pre @ [fr, r])) (b + now2) (o2 + k) (m - now2))"
          using F True len ri Some vi
          by (subst render_gaps.simps)
            (simp add: now_def [symmetric] fr_def [symmetric] v_def [symmetric] Let_def
              b_def [symmetric] o2_def [symmetric] m_def [symmetric] now2_def [symmetric] bn cong: option.case_cong)
        have R: "fill mr ro (r # suf) base off remain
          = (case int128_get64 now2 of None \<Rightarrow> None
             | Some k \<Rightarrow> map_option (\<lambda>x. [fr] @ r # x) (fill mr ro suf (b + now2) (o2 + k) (m - now2)))"
          using F True Some [unfolded now_def]
          by (simp add: Let_def now_def fr_def b_def o2_def m_def now2_def cong: option.case_cong)
        show ?thesis unfolding L R
          using Cons.IH [of v "pre @ [fr, r]"] v
          by (auto simp: option.map_comp comp_def split: option.splits)
      qed
    next
      case False
      define now2 where "now2 = min (base + remain) (fr_end r) - base"
      have L: "render_gaps mr ro view (length pre) base off remain
          = (case int128_get64 now2 of None \<Rightarrow> None
             | Some k \<Rightarrow> render_gaps mr ro view (length (pre @ [r])) (base + now2) (off + k) (remain - now2))"
        using F False len ri by (subst render_gaps.simps) (simp add: Let_def now2_def cong: option.case_cong)
      have R: "fill mr ro (r # suf) base off remain
          = (case int128_get64 now2 of None \<Rightarrow> None
             | Some k \<Rightarrow> map_option ((#) r) (fill mr ro suf (base + now2) (off + k) (remain - now2)))"
        using F False by (simp add: Let_def now2_def cong: option.case_cong)
      show ?thesis unfolding L R
        using Cons.IH [of view "pre @ [r]"] Cons.prems
        by (auto simp: option.map_comp comp_def split: option.splits)
    qed
  qed
qed

section \<open>What the gap loop adds\<close>

definition overlay :: "flat_range list \<Rightarrow> (int \<Rightarrow> target option) \<Rightarrow> int \<Rightarrow> target option" where
  "overlay rs f a = (case view_at rs a of Some t \<Rightarrow> Some t | None \<Rightarrow> f a)"

definition self_at :: "nat \<Rightarrow> bool \<Rightarrow> int \<Rightarrow> int \<Rightarrow> int \<Rightarrow> int \<Rightarrow> target option" where
  "self_at mr ro org base remain a =
     (if base \<le> a \<and> a < base + remain then Some (mr, a - org, ro) else None)"

text \<open>The offset is the distance from the origin of the region, unless nothing remains.\<close>

definition gap_inv :: "int \<Rightarrow> int \<Rightarrow> u64 \<Rightarrow> int \<Rightarrow> bool" where
  "gap_inv org base off remain \<longleftrightarrow> 0 \<le> base \<and> 0 \<le> remain \<and> base + remain \<le> 2 ^ 64
     \<and> org \<le> base \<and> base + remain - org \<le> 2 ^ 64 \<and> (remain \<noteq> 0 \<longrightarrow> uint off = base - org)"

lemma int128_get64_Some: "0 \<le> x \<Longrightarrow> x < 2 ^ 64 \<Longrightarrow> int128_get64 x = Some (word_of_int x)"
  by (simp add: int128_get64_def)

lemma uint_of_int_small: "0 \<le> x \<Longrightarrow> x < 2 ^ 64 \<Longrightarrow> uint (word_of_int x :: u64) = x"
  by (simp add: uint_word_of_int)

lemma gap_inv_advance:
  assumes "gap_inv org base off remain" and "0 \<le> now" "now \<le> remain" "now < 2 ^ 64"
  shows "gap_inv org (base + now) (off + word_of_int now) (remain - now)"
proof -
  have "uint (off + word_of_int now) = base + now - org" if "remain - now \<noteq> 0"
  proof -
    have "uint off = base - org" "base + now - org < 2 ^ 64" "0 \<le> base + now - org"
      using assms that by (auto simp: gap_inv_def)
    then show ?thesis by (simp add: uint_word_ariths uint_word_of_int mod_simps)
  qed
  with assms show ?thesis by (auto simp: gap_inv_def)
qed

lemma fr_at_mk:
  assumes "uint off = base - org"
  shows "fr_at \<lparr>fr_mr = mr, fr_offset = off, fr_addr = addrrange_make base now, fr_readonly = ro\<rparr> a
    = self_at mr ro org base now a"
  using assms by (simp add: fr_at_def self_at_def ar_defs)

lemma fill_correct:
  assumes "ranges_from lb rs" and "small_ranges rs" and "gap_inv org base off remain"
  shows "\<exists>rs'. fill mr ro rs base off remain = Some rs' \<and> ranges_from (min lb base) rs'
    \<and> view_at rs' = overlay rs (self_at mr ro org base remain)
    \<and> (remain < 2 ^ 64 \<longrightarrow> small_ranges rs')"
  using assms
proof (induction rs arbitrary: lb base off remain)
  case Nil
  then show ?case
    by (auto simp: gap_inv_def overlay_def fr_at_def fun_eq_iff self_at_def small_ranges_def ar_defs min_def
        split: option.splits)
next
  case (Cons r rs)
  have r: "lb \<le> fr_start r" "0 < fr_size r" "ranges_from (fr_end r) rs" "fr_size r < 2 ^ 64" "small_ranges rs"
    using Cons.prems by (auto simp: small_ranges_def)
  have e: "fr_end r \<le> 2 ^ 64" using ranges_from_bound [OF r(3)] .
  show ?case
  proof (cases "remain = 0")
    case True
    then show ?thesis using Cons.prems
      by (auto simp: overlay_def self_at_def fun_eq_iff ranges_from_weaken fill_zero split: option.splits)
  next
    case rem: False
    show ?thesis
    proof (cases "base \<ge> fr_end r")
      case True
      from Cons.IH [OF r(3,5) Cons.prems(3)] obtain rs' where rs':
        "fill mr ro rs base off remain = Some rs'" "ranges_from (min (fr_end r) base) rs'"
        "view_at rs' = overlay rs (self_at mr ro org base remain)" "remain < 2 ^ 64 \<longrightarrow> small_ranges rs'" by blast
      have "ranges_from (min lb base) (r # rs')"
        using r(1,2) rs'(2) True by (auto simp: min_def addrrange_end_def split: if_splits)
      with rs' rem True r(4) show ?thesis
        by (auto simp: overlay_def fun_eq_iff small_ranges_def split: option.splits)
    next
      case over: False
      define now where "now = (if base < fr_start r then min remain (fr_start r - base) else 0)"
      define b m where "b = base + now" and "m = remain - now"
      define now2 where "now2 = min (b + m) (fr_end r) - b"
      have gi: "0 \<le> base" "0 \<le> remain" "base + remain \<le> 2 ^ 64" using Cons.prems(3) by (auto simp: gap_inv_def)
      have now: "0 \<le> now" "now \<le> remain" "now < 2 ^ 64"
        using gi e r(2) by (auto simp: now_def addrrange_end_def)
      note inv1 = gap_inv_advance [OF Cons.prems(3) now, folded b_def m_def]
      have bm: "b \<le> fr_end r" "m \<noteq> 0 \<Longrightarrow> fr_start r \<le> b" "0 \<le> m"
        using over r(2) now gi by (auto simp: b_def m_def now_def addrrange_end_def min_def split: if_splits)
      have now2: "0 \<le> now2" "now2 \<le> m" "now2 < 2 ^ 64"
        using bm r(2,4) by (cases "m = 0"; auto simp: now2_def addrrange_end_def)+
      note inv2 = gap_inv_advance [OF inv1 now2]
      define o2 where "o2 = off + word_of_int now + word_of_int now2"
      define new where "new = (if base < fr_start r
        then [\<lparr>fr_mr = mr, fr_offset = off, fr_addr = addrrange_make base now, fr_readonly = ro\<rparr>] else [])"
      have step: "fill mr ro (r # rs) base off remain = map_option (\<lambda>x. new @ r # x) (fill mr ro rs (b + now2) o2 (m - now2))"
      proof (cases "base < fr_start r")
        case True
        then have nd: "now = min remain (fr_start r - base)" by (simp add: now_def)
        show ?thesis
          using rem over True int128_get64_Some [OF now(1,3)] int128_get64_Some [OF now2(1,3)]
          by (simp add: nd [symmetric] Let_def b_def [symmetric] m_def [symmetric] now2_def [symmetric]
              new_def o2_def)
      next
        case False
        then have "now = 0" by (simp add: now_def)
        then show ?thesis
          using rem over False int128_get64_Some [OF now2(1,3)]
          by (simp add: Let_def now2_def b_def m_def new_def o2_def)
      qed
      from Cons.IH [OF r(3,5) inv2 [folded o2_def]] obtain rs' where rs':
        "fill mr ro rs (b + now2) o2 (m - now2) = Some rs'" "ranges_from (min (fr_end r) (b + now2)) rs'"
        "view_at rs' = overlay rs (self_at mr ro org (b + now2) (m - now2))"
        "m - now2 < 2 ^ 64 \<longrightarrow> small_ranges rs'" by blast
      have pos: "0 < remain" using rem gi by simp
      have off: "uint off = base - org" using Cons.prems(3) rem by (simp add: gap_inv_def)
      have new_at: "view_at new a = (if base \<le> a \<and> a < base + now then Some (mr, a - org, ro) else None)" for a
        using off by (simp add: new_def fr_at_mk self_at_def now_def)
      have nows: "base < fr_start r \<Longrightarrow> 0 < now \<and> base + now \<le> fr_start r" "\<not> base < fr_start r \<Longrightarrow> now = 0"
        using pos by (auto simp: now_def)
      have from_r: "ranges_from (fr_end r) rs'"
      proof (cases "m - now2 = 0")
        case True
        then show ?thesis using rs'(1) r(3) by (simp add: fill_zero)
      next
        case False
        then show ?thesis using rs'(2) bm(1) now2 by (auto simp: now2_def min_def split: if_splits)
      qed
      have at: "view_at (new @ r # rs') a = overlay (r # rs) (self_at mr ro org base remain) a" for a
      proof (cases "fr_at r a")
        case (Some t)
        then have "fr_start r \<le> a" by (simp add: fr_at_def addrrange_contains_def split: if_splits)
        then have "view_at new a = None" using nows by (cases "base < fr_start r") (auto simp: new_at)
        with Some show ?thesis by (simp add: view_at_append overlay_def)
      next
        case None
        then have out: "a < fr_start r \<or> fr_end r \<le> a" by (auto simp: fr_at_def addrrange_contains_def split: if_splits)
        show ?thesis
        proof (cases "base \<le> a \<and> a < base + now")
          case True
          then have "a < fr_end r" using nows r(2) by (cases "base < fr_start r") (auto simp: addrrange_end_def)
          then have "view_at rs a = None" using view_at_below [OF r(3)] by simp
          with True None now(2) show ?thesis by (simp add: view_at_append overlay_def new_at self_at_def)
        next
          case False
          have "self_at mr ro org (b + now2) (m - now2) a = self_at mr ro org base remain a"
            using out False bm now now2 by (cases "m = 0") (auto simp: self_at_def b_def m_def now2_def min_def split: if_splits)
          with None False show ?thesis by (auto simp: view_at_append new_at rs'(3) overlay_def split: option.splits)
        qed
      qed
      have rf: "ranges_from (min lb base) (new @ r # rs')"
        using r(1,2) from_r nows by (auto simp: new_def ar_defs)
      have sm: "remain < 2 ^ 64 \<longrightarrow> small_ranges (new @ r # rs')"
        using r(4) rs'(4) now now2 by (auto simp: small_ranges_def new_def ar_defs m_def)
      show ?thesis using step rs'(1) at rf sm by (auto simp: fun_eq_iff)
    qed
  qed
qed

section \<open>Rendering a tree\<close>

lemma render_gaps_correct:
  assumes "ranges_from 0 (fv_ranges view)" and "small_ranges (fv_ranges view)" and "gap_inv org base off remain"
  shows "\<exists>view'. render_gaps mr ro view 0 base off remain = Some view' \<and> ranges_from 0 (fv_ranges view')
    \<and> view_at (fv_ranges view') = overlay (fv_ranges view) (self_at mr ro org base remain)
    \<and> (remain < 2 ^ 64 \<longrightarrow> small_ranges (fv_ranges view'))"
proof -
  from fill_correct [OF assms] obtain rs' where rs':
    "fill mr ro (fv_ranges view) base off remain = Some rs'" "ranges_from (min 0 base) rs'"
    "view_at rs' = overlay (fv_ranges view) (self_at mr ro org base remain)"
    "remain < 2 ^ 64 \<longrightarrow> small_ranges rs'" by blast
  from render_gaps_fill [of view "[]" "fv_ranges view" mr ro base off remain] rs'(1)
  obtain view' where v: "render_gaps mr ro view 0 base off remain = Some view'" "fv_ranges view' = rs'" by auto
  have "min 0 base = 0" using assms(3) by (auto simp: gap_inv_def)
  with v rs' show ?thesis by auto
qed

text \<open>The part of the view that a region contributes, restricted to the clip range.\<close>

definition clipped :: "addr_range \<Rightarrow> (int \<Rightarrow> target option) \<Rightarrow> int \<Rightarrow> target option" where
  "clipped clip f a = (if addrrange_contains clip a then f a else None)"

definition clip_ok :: "addr_range \<Rightarrow> bool" where
  "clip_ok clip \<longleftrightarrow> 0 \<le> ar_start clip \<and> 0 \<le> ar_size clip \<and> addrrange_end clip \<le> 2 ^ 64"

lemma resolve_outside:
  assumes "\<not> addrrange_intersects (addrrange_make (base + uint (mr_addr mr)) (mr_size mr)) clip"
  shows "clipped clip (resolve (MemoryRegion mr subs) base ro) a = None"
  using assms by (auto simp: clipped_def ar_defs Let_def)

lemma intersection_ok:
  assumes "addrrange_intersects r clip" and "clip_ok clip" and "0 \<le> ar_size r"
  shows "clip_ok (addrrange_intersection r clip)" "ar_start r \<le> ar_start (addrrange_intersection r clip)"
    "addrrange_end (addrrange_intersection r clip) \<le> addrrange_end r"
    "addrrange_contains (addrrange_intersection r clip) a \<longleftrightarrow> addrrange_contains r a \<and> addrrange_contains clip a"
  using assms by (auto simp: clip_ok_def ar_defs Let_def)

lemma intersection_start:
  assumes "addrrange_intersects r clip" and "ar_size r \<le> 2 ^ 64"
  shows "ar_start (addrrange_intersection r clip) - ar_start r < 2 ^ 64"
  using assms by (auto simp: ar_defs Let_def)

lemma render_correct:
  "region_ok mr \<Longrightarrow> clip_ok clip \<Longrightarrow> ranges_from 0 (fv_ranges view) \<Longrightarrow> small_ranges (fv_ranges view) \<Longrightarrow>
   \<exists>view'. render_memory_region view mr base clip ro = Some view' \<and> ranges_from 0 (fv_ranges view')
     \<and> view_at (fv_ranges view') = overlay (fv_ranges view) (clipped clip (resolve mr base ro))
     \<and> (mr_size (info mr) < 2 ^ 64 \<longrightarrow> small_ranges (fv_ranges view'))"
  "\<forall>s\<in>set subs. region_ok s \<and> mr_size (info s) < 2 ^ 64 \<Longrightarrow> clip_ok clip \<Longrightarrow> ranges_from 0 (fv_ranges view)
     \<Longrightarrow> small_ranges (fv_ranges view) \<Longrightarrow>
   \<exists>view'. render_subregions view subs base clip ro = Some view' \<and> ranges_from 0 (fv_ranges view')
     \<and> view_at (fv_ranges view') = overlay (fv_ranges view) (clipped clip (resolve_subs subs base ro))
     \<and> small_ranges (fv_ranges view')"
proof (induction view mr base clip ro and view subs base clip ro
    rule: render_memory_region_render_subregions.induct)
  case (1 view mr subs base clip ro)
  define b where "b = base + uint (mr_addr mr)"
  define r where "r = addrrange_make b (mr_size mr)"
  define ro' where "ro' = (ro \<or> mr_readonly mr)"
  have sz: "0 \<le> mr_size mr" "mr_size mr \<le> 2 ^ 64" "\<forall>s\<in>set subs. region_ok s \<and> mr_size (info s) < 2 ^ 64"
    using 1(2) by simp_all
  show ?case
  proof (cases "mr_enabled mr \<and> addrrange_intersects r clip")
    case False
    have "clipped clip (resolve (MemoryRegion mr subs) base ro) a = None" for a
    proof (cases "mr_enabled mr")
      case True
      with False show ?thesis by (intro resolve_outside) (simp add: b_def r_def)
    qed (simp add: clipped_def Let_def)
    then have "overlay (fv_ranges view) (clipped clip (resolve (MemoryRegion mr subs) base ro)) = view_at (fv_ranges view)"
      by (simp add: overlay_def fun_eq_iff split: option.splits del: resolve.simps)
    moreover have "render_memory_region view (MemoryRegion mr subs) base clip ro = Some view"
      using False by (auto simp: b_def r_def Let_def)
    ultimately show ?thesis using 1(4,5) by (intro exI [of _ view]) (simp only: simp_thms)
  next
    case True
    define c where "c = addrrange_intersection r clip"
    have rs: "0 \<le> ar_size r" "ar_start r = b" "ar_size r = mr_size mr" using sz by (simp_all add: r_def ar_defs)
    note c = intersection_ok [OF conjunct2 [OF True] 1(3) rs(1), folded c_def]
    obtain view1 where v1: "render_subregions view subs b c ro' = Some view1" "ranges_from 0 (fv_ranges view1)"
      "view_at (fv_ranges view1) = overlay (fv_ranges view) (clipped c (resolve_subs subs b ro'))"
      "small_ranges (fv_ranges view1)"
      using 1(1) [OF _ refl refl refl _ refl sz(3)] True c(1) 1(4,5)
      by (auto simp: b_def r_def ro'_def c_def)
    have R: "render_memory_region view (MemoryRegion mr subs) base clip ro
      = (if \<not> mr_terminates mr then Some view1
         else case int128_get64 (ar_start c - b) of None \<Rightarrow> None
              | Some off \<Rightarrow> render_gaps (mr_id mr) ro' view1 0 (ar_start c) off (ar_size c))"
      using True v1(1) by (simp add: Let_def b_def [symmetric] r_def [symmetric] ro'_def [symmetric] c_def [symmetric])
    have S: "clipped clip (resolve (MemoryRegion mr subs) base ro) a
      = (if addrrange_contains c a then
           (case resolve_subs subs b ro' a of Some t \<Rightarrow> Some t
            | None \<Rightarrow> if mr_terminates mr then Some (mr_id mr, a - b, ro') else None) else None)" for a
      using True rs unfolding c(4)
      by (auto simp: clipped_def Let_def b_def [symmetric] ro'_def [symmetric] addrrange_contains_def addrrange_end_def)
    show ?thesis
    proof (cases "mr_terminates mr")
      case False
      have "view_at (fv_ranges view1) a = overlay (fv_ranges view) (clipped clip (resolve (MemoryRegion mr subs) base ro)) a" for a
        unfolding v1(3) overlay_def S using False by (auto simp: clipped_def split: option.splits)
      with R v1(2,4) False show ?thesis
        by (intro exI [of _ view1]) (simp add: fun_eq_iff del: render_memory_region.simps resolve.simps)
    next
      case tm: True
      have cb: "ar_start c - b < 2 ^ 64" using intersection_start [of r clip] True sz(2) rs by (simp add: c_def)
      then have off: "int128_get64 (ar_start c - b) = Some (word_of_int (ar_start c - b))"
        "uint (word_of_int (ar_start c - b) :: u64) = ar_start c - b"
        using c(2) rs by (simp add: int128_get64_def) (rule uint_of_int_small, use c(2) rs cb in simp_all)
      have gi: "gap_inv b (ar_start c) (word_of_int (ar_start c - b)) (ar_size c)"
        using c(1-3) rs sz(2) off(2) by (auto simp: gap_inv_def clip_ok_def addrrange_end_def)
      have "ar_size c \<le> mr_size mr" using c(2,3) rs by (simp add: addrrange_end_def)
      with render_gaps_correct [OF v1(2,4) gi, of "mr_id mr" ro'] R tm off(1)
      obtain view' where v': "render_memory_region view (MemoryRegion mr subs) base clip ro = Some view'"
        "ranges_from 0 (fv_ranges view')"
        "view_at (fv_ranges view') = overlay (fv_ranges view1) (self_at (mr_id mr) ro' b (ar_start c) (ar_size c))"
        "mr_size mr < 2 ^ 64 \<longrightarrow> small_ranges (fv_ranges view')" by auto
      have "view_at (fv_ranges view') a = overlay (fv_ranges view) (clipped clip (resolve (MemoryRegion mr subs) base ro)) a" for a
        unfolding v'(3) overlay_def S v1(3) using tm
        by (auto simp: clipped_def self_at_def addrrange_contains_def addrrange_end_def split: option.splits)
      with v' show ?thesis
        by (intro exI [of _ view']) (simp add: fun_eq_iff del: render_memory_region.simps resolve.simps)
    qed
  qed
next
  case (2 view base clip ro)
  then show ?case by (auto simp: overlay_def clipped_def fun_eq_iff split: option.splits)
next
  case (3 view s subs base clip ro)
  from 3(1) 3(3-6) obtain view1 where v1: "render_memory_region view s base clip ro = Some view1"
    "ranges_from 0 (fv_ranges view1)"
    "view_at (fv_ranges view1) = overlay (fv_ranges view) (clipped clip (resolve s base ro))"
    "small_ranges (fv_ranges view1)" by auto
  from 3(2) [OF v1(1) _ 3(4) v1(2,4)] 3(3) obtain view2 where v2:
    "render_subregions view1 subs base clip ro = Some view2" "ranges_from 0 (fv_ranges view2)"
    "view_at (fv_ranges view2) = overlay (fv_ranges view1) (clipped clip (resolve_subs subs base ro))"
    "small_ranges (fv_ranges view2)" by auto
  have "view_at (fv_ranges view2) a = overlay (fv_ranges view) (clipped clip (resolve_subs (s # subs) base ro)) a" for a
    unfolding v2(3) overlay_def v1(3) clipped_def by (auto split: option.splits)
  with v1(1) v2 show ?case by (intro exI [of _ view2]) (simp add: fun_eq_iff del: resolve_subs.simps)
qed

lemma cap_ok_insert: "cap_ok view \<Longrightarrow> pos \<le> fv_nr view \<Longrightarrow> cap_ok (flatview_insert view pos r)"
  by (auto simp: cap_ok_def flatview_insert_def Let_def)

lemma render_gaps_cap:
  "render_gaps mr ro view i base off remain = Some view' \<Longrightarrow> cap_ok view \<Longrightarrow> i \<le> fv_nr view \<Longrightarrow> cap_ok view'"
proof (induction mr ro view i base off remain rule: render_gaps.induct)
  case (1 mr ro view i base off remain)
  show ?case
  proof (cases "i < fv_nr view \<and> remain \<noteq> 0")
    case False
    then show ?thesis using 1(3-5)
      by (subst (asm) render_gaps.simps) (auto simp: cap_ok_insert split: if_splits)
  next
    case run: True
    show ?thesis
    proof (cases "base \<ge> addrrange_end (fr_addr (fv_ranges view ! i))")
      case True
      then show ?thesis using run 1(1) [OF run True] 1(3-5)
        by (subst (asm) (2) render_gaps.simps) simp
    next
      case False
      let ?s = "ar_start (fr_addr (fv_ranges view ! i))"
      let ?fr = "\<lparr>fr_mr = mr, fr_offset = off, fr_addr = addrrange_make base (min remain (?s - base)), fr_readonly = ro\<rparr>"
      from 1(3) run False obtain v i' b o2 m n where
        st: "(if base < ?s then map_option (\<lambda>n. (flatview_insert view i ?fr, i + 1,
            base + min remain (?s - base), off + n, remain - min remain (?s - base)))
              (int128_get64 (min remain (?s - base))) else Some (view, i, base, off, remain)) = Some (v, i', b, o2, m)"
        and n: "int128_get64 (min (b + m) (addrrange_end (fr_addr (fv_ranges v ! i'))) - b) = Some n"
        and rest: "render_gaps mr ro v (i' + 1) (b + (min (b + m) (addrrange_end (fr_addr (fv_ranges v ! i'))) - b))
          (o2 + n) (m - (min (b + m) (addrrange_end (fr_addr (fv_ranges v ! i'))) - b)) = Some view'"
        by (subst (asm) render_gaps.simps) (auto simp: Let_def split: option.splits)
      have "cap_ok v" "i' + 1 \<le> fv_nr v"
        using st 1(4) run by (auto simp: fv_nr_insert cap_ok_insert split: if_splits)
      with 1(2) [OF run False refl refl refl refl st refl refl refl refl refl n rest] show ?thesis by simp
    qed
  qed
qed

lemma render_cap:
  "render_memory_region view mr base clip ro = Some view' \<Longrightarrow> cap_ok view \<Longrightarrow> cap_ok view'"
  "render_subregions view subs base clip ro = Some view' \<Longrightarrow> cap_ok view \<Longrightarrow> cap_ok view'"
  by (induction view mr base clip ro and view subs base clip ro arbitrary: view' and view'
      rule: render_memory_region_render_subregions.induct)
    (auto simp: Let_def intro: render_gaps_cap split: if_splits option.splits)

end
