(* ===== verification/Flat_Simplify.thy ===== *)
theory Flat_Simplify
  imports Flat_Render
begin

text \<open>
  \<open>flatview_simplify\<close> merges adjacent ranges without changing what any address resolves to,
  and leaves no two neighbours that could be merged. With the correctness of rendering this
  gives the correctness of \<open>generate_memory_topology\<close>, also from the root that
  \<open>memory_region_get_flatview_root\<close> picks.
\<close>

section \<open>The loops on lists\<close>

definition grow :: "flat_range \<Rightarrow> int \<Rightarrow> flat_range" where
  "grow r n = r\<lparr>fr_addr := (fr_addr r)\<lparr>ar_size := fr_size r + n\<rparr>\<rparr>"

fun absorb :: "flat_range \<Rightarrow> flat_range \<Rightarrow> flat_range list \<Rightarrow> flat_range \<times> flat_range list" where
  "absorb acc prev [] = (acc, [])"
| "absorb acc prev (s # rest) =
     (if can_merge prev s then absorb (grow acc (fr_size s)) s rest else (acc, s # rest))"

lemma absorb_length: "absorb acc prev rest = (acc', rest') \<Longrightarrow> length rest' \<le> length rest"
  by (induction acc prev rest rule: absorb.induct) (auto split: if_splits)

function merge_list :: "flat_range list \<Rightarrow> flat_range list" where
  "merge_list [] = []"
| "merge_list (r # rs) = (case absorb r r rs of (acc, rest) \<Rightarrow> acc # merge_list rest)"
  by pat_completeness auto
termination by (relation "measure length") (auto dest: absorb_length [OF sym])

lemma simplify_absorb_absorb:
  assumes "absorb acc (last (acc # mid)) rest = (acc', rest')"
  shows "\<exists>mid'. simplify_absorb (pre @ acc # mid @ rest) (length pre) (Suc (length pre + length mid))
      = (pre @ acc' # mid' @ rest', Suc (length pre + length mid'))"
  using assms
proof (induction rest arbitrary: acc mid)
  case Nil
  then show ?case by (subst simplify_absorb.simps) auto
next
  case (Cons s rest)
  let ?rs = "pre @ acc # mid @ s # rest"
  have prev: "?rs ! (length pre + length mid) = last (acc # mid)"
    by (cases mid rule: rev_cases) (simp_all add: nth_append)
  have cur: "?rs ! Suc (length pre + length mid) = s" by (simp add: nth_append)
  show ?case
  proof (cases "can_merge (last (acc # mid)) s")
    case False
    then show ?thesis using Cons.prems prev cur by (subst simplify_absorb.simps) auto
  next
    case True
    have "last (grow acc (fr_size s) # mid @ [s]) = s" by simp
    with Cons.IH [of "grow acc (fr_size s)" "mid @ [s]"] Cons.prems True
    obtain mid' where "simplify_absorb (pre @ grow acc (fr_size s) # (mid @ [s]) @ rest) (length pre)
        (Suc (length pre + length (mid @ [s]))) = (pre @ acc' # mid' @ rest', Suc (length pre + length mid'))"
      by auto
    moreover have "simplify_absorb ?rs (length pre) (Suc (length pre + length mid))
      = simplify_absorb (pre @ grow acc (fr_size s) # (mid @ [s]) @ rest) (length pre) (Suc (length pre + length (mid @ [s])))"
      using True prev cur
      by (subst simplify_absorb.simps) (simp add: grow_def Let_def)
    ultimately show ?thesis by auto
  qed
qed

lemma simplify_from_merge: "simplify_from (pre @ rs) (length pre) = pre @ merge_list rs"
proof (induction rs arbitrary: pre rule: merge_list.induct)
  case 1
  then show ?case by (subst simplify_from.simps) simp
next
  case (2 r rs)
  obtain acc rest where a: "absorb r r rs = (acc, rest)" by fastforce
  from simplify_absorb_absorb [of r "[]" rs acc rest pre] a obtain mid where
    m: "simplify_absorb (pre @ r # rs) (length pre) (Suc (length pre)) = (pre @ acc # mid @ rest, Suc (length pre + length mid))"
    by auto
  have "simplify_from (pre @ r # rs) (length pre) = simplify_from ((pre @ [acc]) @ rest) (length (pre @ [acc]))"
    using m by (subst simplify_from.simps) simp
  also have "\<dots> = (pre @ [acc]) @ merge_list rest" by (rule 2 [OF a [symmetric]])
  finally show ?case using a by simp
qed

section \<open>Merging changes no address\<close>

lemma grow_simps [simp]:
  "fr_mr (grow r n) = fr_mr r" "fr_offset (grow r n) = fr_offset r" "fr_readonly (grow r n) = fr_readonly r"
  "fr_start (grow r n) = fr_start r" "fr_size (grow r n) = fr_size r + n" "fr_end (grow r n) = fr_end r + n"
  by (simp_all add: grow_def addrrange_end_def)

text \<open>\<open>acc\<close> ends where \<open>prev\<close> ends and continues it.\<close>

definition extends :: "flat_range \<Rightarrow> flat_range \<Rightarrow> bool" where
  "extends acc prev \<longleftrightarrow> fr_end acc = fr_end prev \<and> fr_mr acc = fr_mr prev \<and> fr_readonly acc = fr_readonly prev
     \<and> uint (fr_offset acc) + fr_size acc = uint (fr_offset prev) + fr_size prev"

lemma can_merge_extends: "extends acc prev \<Longrightarrow> can_merge acc s = can_merge prev s"
  by (auto simp: extends_def can_merge_def)

lemma absorb_correct:
  assumes "absorb acc prev rest = (acc', rest')" and "extends acc prev"
    and "0 < fr_size acc" and "ranges_from (fr_end acc) rest"
  shows "(\<forall>a. view_at (acc' # rest') a = view_at (acc # rest) a) \<and> fr_start acc' = fr_start acc \<and> 0 < fr_size acc'
    \<and> ranges_from (fr_end acc') rest'
    \<and> (rest' \<noteq> [] \<longrightarrow> \<not> can_merge acc' (hd rest'))"
  using assms
proof (induction acc prev rest rule: absorb.induct)
  case (2 acc prev s rest)
  show ?case
  proof (cases "can_merge prev s")
    case False
    then show ?thesis using 2(2-) can_merge_extends [OF 2(3), of s] by auto
  next
    case True
    have m: "can_merge acc s" using True can_merge_extends [OF 2(3)] by simp
    have s: "0 < fr_size s" "ranges_from (fr_end s) rest" using 2(5) by simp_all
    have ge: "fr_end (grow acc (fr_size s)) = fr_end s" using m by (simp add: can_merge_def addrrange_end_def)
    have "extends (grow acc (fr_size s)) s" using m ge by (auto simp: extends_def can_merge_def)
    with 2(1) [OF True] 2(2,4) True s ge
    have ih: "(\<forall>a. view_at (acc' # rest') a = view_at (grow acc (fr_size s) # rest) a) \<and> fr_start acc' = fr_start acc
      \<and> 0 < fr_size acc' \<and> ranges_from (fr_end acc') rest' \<and> (rest' \<noteq> [] \<longrightarrow> \<not> can_merge acc' (hd rest'))"
      by simp
    have "view_at (grow acc (fr_size s) # rest) a = view_at (acc # s # rest) a" for a
      using m s(1) 2(4) by (auto simp: fr_at_def addrrange_contains_def addrrange_end_def can_merge_def)
    with ih show ?thesis by (simp del: view_at.simps)
  qed
qed auto

lemma extends_refl [simp]: "extends r r"
  by (simp add: extends_def)

fun separated :: "flat_range list \<Rightarrow> bool" where
  "separated (r # s # rs) \<longleftrightarrow> \<not> can_merge r s \<and> separated (s # rs)"
| "separated _ \<longleftrightarrow> True"

lemma can_merge_hd: "fr_start r = fr_start s \<Longrightarrow> fr_mr r = fr_mr s \<Longrightarrow> fr_offset r = fr_offset s
    \<Longrightarrow> fr_readonly r = fr_readonly s \<Longrightarrow> can_merge x r = can_merge x s"
  by (simp add: can_merge_def)

lemma absorb_same:
  "absorb acc prev rest = (acc', rest') \<Longrightarrow> fr_start acc' = fr_start acc \<and> fr_mr acc' = fr_mr acc
     \<and> fr_offset acc' = fr_offset acc \<and> fr_readonly acc' = fr_readonly acc"
  by (induction acc prev rest rule: absorb.induct) (auto split: if_splits)

lemma merge_list_correct:
  "ranges_from lb rs \<Longrightarrow> (\<forall>a. view_at (merge_list rs) a = view_at rs a) \<and> ranges_from lb (merge_list rs)
     \<and> separated (merge_list rs)
     \<and> (rs \<noteq> [] \<longrightarrow> merge_list rs \<noteq> [] \<and> (\<forall>x. can_merge x (hd (merge_list rs)) = can_merge x (hd rs)))"
proof (induction rs arbitrary: lb rule: merge_list.induct)
  case (2 r rs)
  obtain acc rest where a: "absorb r r rs = (acc, rest)" by fastforce
  have ac: "\<forall>a. view_at (acc # rest) a = view_at (r # rs) a" "fr_start acc = fr_start r" "0 < fr_size acc"
    "ranges_from (fr_end acc) rest" "rest \<noteq> [] \<longrightarrow> \<not> can_merge acc (hd rest)"
    using absorb_correct [OF a] 2(2) by (simp_all del: view_at.simps)
  note ih = 2(1) [OF a [symmetric] ac(4)]
  have "separated (acc # merge_list rest)"
    using ih ac(5) by (cases "merge_list rest"; cases rest) auto
  moreover have "view_at (acc # merge_list rest) a = view_at (r # rs) a" for a
    using ih ac(1) [rule_format, of a] by (simp cong: option.case_cong)
  moreover have "can_merge x acc = can_merge x r" for x
    using absorb_same [OF a] by (intro can_merge_hd) simp_all
  ultimately show ?case using a ih ac 2(2) by (simp del: view_at.simps)
qed simp

section \<open>The whole topology\<close>

definition whole :: addr_range where "whole = addrrange_make 0 (2 ^ 64)"

lemma whole_contains: "addrrange_contains whole a \<longleftrightarrow> 0 \<le> a \<and> a < 2 ^ 64"
  by (simp add: whole_def ar_defs)

definition resolve_root :: "mem_region option \<Rightarrow> int \<Rightarrow> target option" where
  "resolve_root root a = (case root of None \<Rightarrow> None | Some mr \<Rightarrow> resolve mr 0 False a)"

lemma topology_correct:
  assumes "\<And>mr. root = Some mr \<Longrightarrow> region_ok mr"
  shows "\<exists>view. generate_memory_topology root = Some view \<and> ranges_from 0 (fv_ranges view)
    \<and> separated (fv_ranges view) \<and> fv_nr view \<le> fv_nr_allocated view
    \<and> (\<forall>a. 0 \<le> a \<and> a < 2 ^ 64 \<longrightarrow> view_at (fv_ranges view) a = resolve_root root a)"
proof -
  obtain v where v: "(case root of None \<Rightarrow> Some flatview_new
        | Some mr \<Rightarrow> render_memory_region flatview_new mr 0 (addrrange_make 0 (2 ^ 64)) False) = Some v"
      "ranges_from 0 (fv_ranges v)" "cap_ok v"
      "\<And>a. 0 \<le> a \<Longrightarrow> a < 2 ^ 64 \<Longrightarrow> view_at (fv_ranges v) a = resolve_root root a"
  proof (cases root)
    case None
    then show ?thesis using that [of flatview_new] by (simp add: flatview_new_def cap_ok_def resolve_root_def)
  next
    case (Some mr)
    have w: "clip_ok whole" by (simp add: whole_def clip_ok_def ar_defs)
    from render_correct(1) [OF assms [OF Some] w, of flatview_new 0 False]
    obtain v where v: "render_memory_region flatview_new mr 0 whole False = Some v" "ranges_from 0 (fv_ranges v)"
      "view_at (fv_ranges v) = overlay [] (clipped whole (resolve mr 0 False))"
      by (auto simp: flatview_new_def small_ranges_def)
    have "cap_ok v" using render_cap(1) [OF v(1)] by (simp add: flatview_new_def cap_ok_def)
    with v Some show ?thesis
      by (intro that [of v]) (simp_all add: whole_def resolve_root_def overlay_def clipped_def ar_defs)
  qed
  have m: "fv_ranges (flatview_simplify v) = merge_list (fv_ranges v)"
    using simplify_from_merge [of "[]" "fv_ranges v"] by (simp add: flatview_simplify_def)
  note ml = merge_list_correct [OF v(2)]
  have len: "length (merge_list rs) \<le> length rs" for rs
  proof (induction rs rule: merge_list.induct)
    case (2 r rs)
    then show ?case using absorb_length by (fastforce split: prod.splits)
  qed simp
  have "fv_nr (flatview_simplify v) \<le> fv_nr_allocated (flatview_simplify v)"
    using len [of "fv_ranges v"] v(3) unfolding m by (simp add: cap_ok_def flatview_simplify_def)
  with ml v show ?thesis by (simp add: generate_memory_topology_def m)
qed

text \<open>Containers on the way to the chosen root lie at offset 0 and are not read-only.\<close>

fun plain_chain :: "mem_region \<Rightarrow> bool" where
  "plain_chain (MemoryRegion mr subs) \<longleftrightarrow>
     mr_terminates mr \<or> \<not> mr_readonly mr \<and> (\<forall>s\<in>set subs. plain_chain s)"

lemma root_child_two:
  "root_child mr cs 1 nxt = (n, nxt') \<Longrightarrow> (if \<exists>c\<in>set cs. mr_enabled (info c) then n = 2 \<and> nxt' = None else n = 1 \<and> nxt' = nxt)"
  by (induction cs arbitrary: nxt) (auto split: if_splits)

lemma root_child_one:
  "root_child mr cs 0 None = (n, nxt) \<Longrightarrow>
   (n = 0 \<longleftrightarrow> (\<forall>c\<in>set cs. \<not> mr_enabled (info c)))
   \<and> (\<forall>c. nxt = Some c \<longrightarrow> c \<in> set cs \<and> mr_enabled (info c) \<and> mr_addr (info c) = 0 \<and> mr_size (info c) \<le> mr_size mr
        \<and> (\<exists>xs ys. cs = xs @ c # ys \<and> (\<forall>d\<in>set xs \<union> set ys. \<not> mr_enabled (info d))))"
proof (induction cs)
  case (Cons c cs)
  show ?case
  proof (cases "mr_enabled (info c)")
    case False
    with Cons.IH Cons.prems show ?thesis
      by (auto 0 4 intro: exI [of _ "c # _"])
  next
    case True
    then have "root_child mr cs 1 (if mr_addr (info c) = 0 \<and> mr_size mr \<ge> mr_size (info c) then Some c else None) = (n, nxt)"
      using Cons.prems by simp
    from root_child_two [OF this] True show ?thesis
      by (auto split: if_splits intro: exI [of _ "[]"])
  qed
qed simp

lemma resolve_disabled: "\<not> mr_enabled (info c) \<Longrightarrow> resolve c base ro a = None"
  by (cases c) (simp add: Let_def)

lemma resolve_subs_disabled: "\<forall>c\<in>set cs. \<not> mr_enabled (info c) \<Longrightarrow> resolve_subs cs base ro a = None"
  by (induction cs) (simp_all add: resolve_disabled)

lemma resolve_subs_append:
  "resolve_subs (xs @ ys) base ro a = (case resolve_subs xs base ro a of Some t \<Rightarrow> Some t | None \<Rightarrow> resolve_subs ys base ro a)"
  by (induction xs) (auto split: option.splits)

lemma flatview_root_resolve:
  assumes "mr_addr (info mr) = 0" and "plain_chain mr" and "0 \<le> a"
  shows "resolve_root (memory_region_get_flatview_root mr) a = resolve mr 0 False a"
  using assms
proof (induction mr rule: memory_region_get_flatview_root.induct)
  case (1 mr subs)
  show ?case
  proof (cases "mr_enabled mr \<and> \<not> mr_terminates mr")
    case False
    then show ?thesis
      by (subst memory_region_get_flatview_root.simps) (auto simp: resolve_root_def Let_def)
  next
    case True
    obtain n nxt where rc: "root_child mr subs 0 None = (n, nxt)" by fastforce
    note one = root_child_one [OF rc]
    have ro: "\<not> mr_readonly mr" "\<forall>s\<in>set subs. plain_chain s" using 1(3) True by simp_all
    have pt: "resolve (MemoryRegion mr subs) 0 False a
        = (if a < mr_size mr then resolve_subs subs 0 False a else None)"
      using True ro 1(2,4) by (auto simp: Let_def split: option.splits)
    show ?thesis
    proof (cases "n = 0 \<or> nxt = None")
      case True
      then show ?thesis
        using \<open>mr_enabled mr \<and> \<not> mr_terminates mr\<close> rc one pt
        by (subst memory_region_get_flatview_root.simps)
          (auto simp: resolve_root_def resolve_subs_disabled simp del: resolve.simps)
    next
      case False
      then obtain c where c: "nxt = Some c" "n \<noteq> 0" by auto
      obtain xs ys where xy: "subs = xs @ c # ys" "\<forall>d\<in>set xs \<union> set ys. \<not> mr_enabled (info d)"
        "c \<in> set subs" "mr_addr (info c) = 0" "mr_size (info c) \<le> mr_size mr"
        using one c(1) by blast
      have "resolve_subs subs 0 False a = resolve c 0 False a"
        unfolding xy(1) using xy(2) by (auto simp: resolve_subs_append resolve_subs_disabled split: option.splits)
      moreover have "resolve c 0 False a = None" if "\<not> a < mr_size mr"
        using that xy(4,5) by (cases c) (auto simp: Let_def)
      ultimately have "resolve (MemoryRegion mr subs) 0 False a = resolve c 0 False a" unfolding pt by auto
      moreover have "memory_region_get_flatview_root (MemoryRegion mr subs) = memory_region_get_flatview_root c"
        using True rc c by (subst memory_region_get_flatview_root.simps) simp
      moreover have "resolve_root (memory_region_get_flatview_root c) a = resolve c 0 False a"
        using 1(1) [OF _ _ rc [symmetric] c(2) c(1)] True xy(3,4) ro(2) 1(4) by simp
      ultimately show ?thesis by simp
    qed
  qed
qed

end
