(* ===== verification/Bsearch.thy ===== *)
theory Bsearch
  imports Uc_Prelude
begin

text \<open>
  The C library's \<open>bsearch\<close>: a half-open interval is halved until the comparison with the
  middle element is zero. The locale states what a client must promise of its comparison
  function and its sorted arrays, and what it gets.
\<close>

function bsearch_loop :: "('a \<Rightarrow> int) \<Rightarrow> 'a list \<Rightarrow> nat \<Rightarrow> nat \<Rightarrow> nat option" where
  "bsearch_loop cmp xs l u =
     (if l < u then
        (let idx = (l + u) div 2; c = cmp (xs ! idx)
         in if c < 0 then bsearch_loop cmp xs l idx
            else if c > 0 then bsearch_loop cmp xs (idx + 1) u
            else Some idx)
      else None)"
  by pat_completeness auto
termination by (relation "measure (\<lambda>(cmp, xs, l, u). u - l)") auto

declare bsearch_loop.simps [simp del]

definition bsearch :: "('a \<Rightarrow> int) \<Rightarrow> 'a list \<Rightarrow> nat option" where
  "bsearch cmp xs = bsearch_loop cmp xs 0 (length xs)"

lemma bsearch_loop_Some:
  "bsearch_loop cmp xs l u = Some i \<Longrightarrow> l \<le> i \<and> i < u \<and> cmp (xs ! i) = 0"
proof (induction cmp xs l u rule: bsearch_loop.induct)
  case (1 cmp xs l u)
  let ?idx = "(l + u) div 2"
  from 1(3) consider "l < u" "cmp (xs ! ?idx) < 0" "bsearch_loop cmp xs l ?idx = Some i"
    | "l < u" "0 < cmp (xs ! ?idx)" "bsearch_loop cmp xs (?idx + 1) u = Some i"
    | "l < u" "cmp (xs ! ?idx) = 0" "i = ?idx"
    by (subst (asm) bsearch_loop.simps) (auto simp: Let_def split: if_splits)
  then show ?case using 1(1) [OF _ refl refl] 1(2) [OF _ refl refl] by cases auto
qed

text \<open>
  \<open>cmp k x\<close> is negative when the key lies before the element and positive when it lies
  behind it; in an array satisfying \<open>ok\<close> the elements are ordered accordingly.
\<close>

locale binary_search =
  fixes cmp :: "'k \<Rightarrow> 'a \<Rightarrow> int" and ok :: "'k \<Rightarrow> 'a list \<Rightarrow> bool"
  assumes before: "ok k xs \<Longrightarrow> i < j \<Longrightarrow> j < length xs \<Longrightarrow> cmp k (xs ! i) < 0 \<Longrightarrow> cmp k (xs ! j) < 0"
    and behind: "ok k xs \<Longrightarrow> i < j \<Longrightarrow> j < length xs \<Longrightarrow> 0 < cmp k (xs ! j) \<Longrightarrow> 0 < cmp k (xs ! i)"
begin

lemma loop_None:
  "ok k xs \<Longrightarrow> bsearch_loop (cmp k) xs l u = None \<Longrightarrow> u \<le> length xs \<Longrightarrow> l \<le> j \<Longrightarrow> j < u \<Longrightarrow> cmp k (xs ! j) \<noteq> 0"
proof (induction "cmp k" xs l u rule: bsearch_loop.induct)
  case (1 xs l u)
  let ?idx = "(l + u) div 2"
  note ok = 1(3)
  have lu: "l < u" "?idx < u" using 1(6,7) by auto
  consider "cmp k (xs ! ?idx) < 0" | "cmp k (xs ! ?idx) > 0"
    using 1(4) lu by (subst (asm) bsearch_loop.simps) (auto simp: Let_def split: if_splits)
  then show ?case
  proof cases
    case neg: 1
    then have "bsearch_loop (cmp k) xs l ?idx = None"
      using 1(4) lu by (subst (asm) bsearch_loop.simps) (simp add: Let_def)
    then have "cmp k (xs ! j) \<noteq> 0" if "j < ?idx"
      using 1(1) [OF lu(1) refl refl neg ok] 1(5,6) lu that by simp
    moreover have "cmp k (xs ! j) < 0" if "?idx < j"
      using before [OF ok that] neg 1(5,7) by simp
    ultimately show ?thesis using neg by (cases j ?idx rule: linorder_cases) auto
  next
    case pos: 2
    then have "bsearch_loop (cmp k) xs (?idx + 1) u = None"
      using 1(4) lu by (subst (asm) bsearch_loop.simps) (simp add: Let_def)
    then have "cmp k (xs ! j) \<noteq> 0" if "?idx < j"
      using 1(2) [OF lu(1) refl refl _ pos ok] 1(5,7) pos that by simp
    moreover have "cmp k (xs ! j) > 0" if "j < ?idx"
      using behind [OF ok that] pos 1(5) lu by simp
    ultimately show ?thesis using pos by (cases j ?idx rule: linorder_cases) auto
  qed
qed

lemma search_complete:
  assumes "ok k xs" and "bsearch (cmp k) xs = None" and "x \<in> set xs"
  shows "cmp k x \<noteq> 0"
proof -
  obtain j where "j < length xs" "x = xs ! j" using assms(3) by (auto simp: in_set_conv_nth)
  with loop_None [OF assms(1), of 0 "length xs" j] assms(2) show ?thesis by (simp add: bsearch_def)
qed

lemma search_sound:
  assumes "bsearch (cmp k) xs = Some i"
  shows "i < length xs \<and> cmp k (xs ! i) = 0"
  using bsearch_loop_Some assms by (fastforce simp: bsearch_def)

end

end
