(* ===== verification/Flat_Api.thy ===== *)
theory Flat_Api
  imports Flat_Simplify Bsearch
begin

text \<open>
  The operations of \<open>memory.c\<close> on finished flat views and on the lists of subregions:
  lookup by binary search, \<open>memory_region_find\<close>, the symmetric difference that
  \<open>address_space_update_topology_pass\<close> reports to the listeners, the in-place update
  \<open>flatview_update\<close>, \<open>flatview_copy\<close>, and the ordering of subregions by priority.
\<close>

section \<open>Lookup\<close>

definition cmp_flatrange_addr :: "addr_range \<Rightarrow> flat_range \<Rightarrow> int" where
  "cmp_flatrange_addr addr fr =
     (if addrrange_end addr \<le> ar_start (fr_addr fr) then -1
      else if ar_start addr \<ge> addrrange_end (fr_addr fr) then 1
      else 0)"

definition flatview_lookup :: "flat_view \<Rightarrow> addr_range \<Rightarrow> nat option" where
  "flatview_lookup view addr = bsearch (cmp_flatrange_addr addr) (fv_ranges view)"

record 'm mr_section =
  mrs_mr :: 'm
  mrs_offset_within_region :: u64
  mrs_size :: int
  mrs_offset_within_address_space :: u64
  mrs_readonly :: bool

text \<open>The loop of \<open>memory_region_find_rcu\<close> that walks back to the first range it meets.\<close>

fun walk_back :: "flat_range list \<Rightarrow> addr_range \<Rightarrow> nat \<Rightarrow> nat" where
  "walk_back rs rng 0 = 0"
| "walk_back rs rng (Suc i) =
     (if addrrange_intersects (fr_addr (rs ! i)) rng then walk_back rs rng i else Suc i)"

text \<open>
  \<open>memory_region_find_rcu\<close> for a region with a view; \<open>chain\<close> holds the offsets of the region
  and its containers. The outer \<open>None\<close> is a failed assertion, the inner one a section
  without region.
\<close>

definition memory_region_find_rcu :: "u64 list \<Rightarrow> flat_view \<Rightarrow> u64 \<Rightarrow> u64 \<Rightarrow> nat mr_section option option" where
  "memory_region_find_rcu chain view addr sz =
     (let addr = fold (\<lambda>c a. a + c) chain addr;
          rng = addrrange_make (uint addr) (uint sz)
      in case flatview_lookup view rng of
           None \<Rightarrow> Some None
         | Some i \<Rightarrow>
             (let fr = fv_ranges view ! walk_back (fv_ranges view) rng i;
                  rng = addrrange_intersection rng (fr_addr fr)
              in case (int128_get64 (ar_start rng - ar_start (fr_addr fr)), int128_get64 (ar_start rng)) of
                   (Some d, Some s) \<Rightarrow>
                     Some (Some \<lparr>mrs_mr = fr_mr fr, mrs_offset_within_region = fr_offset fr + d,
                       mrs_size = ar_size rng, mrs_offset_within_address_space = s,
                       mrs_readonly = fr_readonly fr\<rparr>)
                 | _ \<Rightarrow> None))"

definition section_from_flat_range :: "flat_range \<Rightarrow> nat mr_section option" where
  "section_from_flat_range fr =
     map_option (\<lambda>s. \<lparr>mrs_mr = fr_mr fr, mrs_offset_within_region = fr_offset fr,
       mrs_size = ar_size (fr_addr fr), mrs_offset_within_address_space = s, mrs_readonly = fr_readonly fr\<rparr>)
     (int128_get64 (ar_start (fr_addr fr)))"

section \<open>Reporting changes to the listeners\<close>

datatype region_event = region_del flat_range | region_nop flat_range | region_add flat_range

text \<open>\<open>address_space_update_topology_pass\<close>; the lists are the ranges from \<open>iold\<close> and \<open>inew\<close> on.\<close>

fun address_space_update_topology_pass :: "bool \<Rightarrow> flat_range list \<Rightarrow> flat_range list \<Rightarrow> region_event list" where
  "address_space_update_topology_pass adding [] [] = []"
| "address_space_update_topology_pass adding (frold # olds) [] =
     (if \<not> adding then [region_del frold] else []) @ address_space_update_topology_pass adding olds []"
| "address_space_update_topology_pass adding [] (frnew # news) =
     (if adding then [region_add frnew] else []) @ address_space_update_topology_pass adding [] news"
| "address_space_update_topology_pass adding (frold # olds) (frnew # news) =
     (if ar_start (fr_addr frold) < ar_start (fr_addr frnew)
         \<or> (ar_start (fr_addr frold) = ar_start (fr_addr frnew) \<and> \<not> flatrange_equal frold frnew)
      then (if \<not> adding then [region_del frold] else [])
             @ address_space_update_topology_pass adding olds (frnew # news)
      else if flatrange_equal frold frnew
      then (if adding then [region_nop frnew] else [])
             @ address_space_update_topology_pass adding olds news
      else (if adding then [region_add frnew] else [])
             @ address_space_update_topology_pass adding (frold # olds) news)"

text \<open>The two passes of \<open>address_space_set_flatview\<close>.\<close>

definition address_space_set_flatview :: "flat_view option \<Rightarrow> flat_view \<Rightarrow> region_event list" where
  "address_space_set_flatview old_view new_view =
     (let olds = (case old_view of None \<Rightarrow> [] | Some v \<Rightarrow> fv_ranges v)
      in address_space_update_topology_pass False olds (fv_ranges new_view)
         @ address_space_update_topology_pass True olds (fv_ranges new_view))"

section \<open>Updating a view in place\<close>



text \<open>
  \<open>flatview_copy\<close> without the dispatch tree; \<open>mem\<close> tells whether \<open>calloc\<close> succeeds. An array
  with no room for the source is replaced by one of the source's capacity.
\<close>

definition flatview_copy :: "bool \<Rightarrow> flat_view \<Rightarrow> flat_view \<Rightarrow> (bool \<times> flat_view)" where
  "flatview_copy mem dst src =
     (if fv_nr_allocated dst = 0 \<or> fv_nr_allocated dst < fv_nr src then
        (if mem then (True, dst\<lparr>fv_nr_allocated := fv_nr_allocated src, fv_ranges := fv_ranges src\<rparr>)
         else (False, dst))
      else (True, dst\<lparr>fv_ranges := fv_ranges src\<rparr>))"

section \<open>Subregions\<close>

abbreviation prio :: "mem_region \<Rightarrow> int" where "prio s \<equiv> mr_priority (info s)"

fun memory_region_update_container_subregions :: "mem_region \<Rightarrow> mem_region list \<Rightarrow> mem_region list" where
  "memory_region_update_container_subregions subregion [] = [subregion]"
| "memory_region_update_container_subregions subregion (other # rest) =
     (if prio subregion \<ge> prio other then subregion # other # rest
      else other # memory_region_update_container_subregions subregion rest)"

definition memory_region_add_subregion_overlap :: "mem_region \<Rightarrow> u64 \<Rightarrow> mem_region \<Rightarrow> int \<Rightarrow> mem_region option" where
  "memory_region_add_subregion_overlap mr offset subregion priority =
     (case int128_get64 (mr_size (info subregion)) of
        None \<Rightarrow> None
      | Some _ \<Rightarrow>
          (let subregion = MemoryRegion ((info subregion)\<lparr>mr_priority := priority, mr_addr := offset\<rparr>) (subregions subregion)
           in Some (MemoryRegion (info mr) (memory_region_update_container_subregions subregion (subregions mr)))))"

definition memory_region_add_subregion :: "mem_region \<Rightarrow> u64 \<Rightarrow> mem_region \<Rightarrow> mem_region option" where
  "memory_region_add_subregion mr offset subregion = memory_region_add_subregion_overlap mr offset subregion 0"

definition memory_region_del_subregion :: "mem_region \<Rightarrow> nat \<Rightarrow> mem_region option" where
  "memory_region_del_subregion mr sub =
     (if \<exists>s\<in>set (subregions mr). mr_id (info s) = sub
      then Some (MemoryRegion (info mr) (filter (\<lambda>s. mr_id (info s) \<noteq> sub) (subregions mr)))
      else None)"

text \<open>\<open>memory_region_filter_subregions\<close>: the subregions kept and the ones destroyed.\<close>

fun memory_region_filter_subregions :: "mem_region list \<Rightarrow> int \<Rightarrow> mem_region list \<times> mem_region list" where
  "memory_region_filter_subregions [] level = ([], [])"
| "memory_region_filter_subregions (s # subs) level =
     (case memory_region_filter_subregions subs level of
        (kept, gone) \<Rightarrow> if prio s \<ge> level then (kept, s # gone) else (s # kept, gone))"

section \<open>Lookup is exact\<close>

lemma ranges_from_nth:
  "ranges_from lb rs \<Longrightarrow> i < length rs \<Longrightarrow> lb \<le> fr_start (rs ! i) \<and> 0 < fr_size (rs ! i)"
proof (induction rs arbitrary: lb i)
  case (Cons r rs)
  then show ?case by (cases i) (fastforce simp: addrrange_end_def)+
qed simp

lemma ranges_from_sorted:
  "ranges_from lb rs \<Longrightarrow> i < j \<Longrightarrow> j < length rs \<Longrightarrow> fr_end (rs ! i) \<le> fr_start (rs ! j)"
proof (induction rs arbitrary: lb i j)
  case (Cons r rs)
  then show ?case
  proof (cases i)
    case 0
    obtain k where "j = Suc k" using Cons.prems(2) 0 by (cases j) auto
    with 0 Cons.prems ranges_from_nth [of "fr_end r" rs k] show ?thesis by simp
  next
    case (Suc m)
    then obtain k where "j = Suc k" using Cons.prems(2) by (cases j) auto
    with Suc Cons show ?thesis by auto
  qed
qed simp

lemma ranges_from_end: "ranges_from lb rs \<Longrightarrow> r \<in> set rs \<Longrightarrow> fr_end r \<le> 2 ^ 64"
  by (induction rs arbitrary: lb) (auto dest: ranges_from_bound)

text \<open>The comparison of \<open>flatview_lookup\<close> is monotone on the ranges of a view.\<close>

interpretation fr_search: binary_search cmp_flatrange_addr "\<lambda>k rs. ranges_from 0 rs \<and> 0 \<le> ar_size k"
proof (unfold_locales, goal_cases)
  case (1 k rs i j)
  then have "fr_end (rs ! i) \<le> fr_start (rs ! j)" using ranges_from_sorted by blast
  moreover have "0 < fr_size (rs ! i)" using 1 ranges_from_nth [of 0 rs i] by simp
  ultimately show ?case using 1 by (auto simp: cmp_flatrange_addr_def addrrange_end_def split: if_splits)
next
  case (2 k rs i j)
  then have "fr_end (rs ! i) \<le> fr_start (rs ! j)" using ranges_from_sorted by blast
  moreover have "0 < fr_size (rs ! i)" "0 < fr_size (rs ! j)" using 2 ranges_from_nth [of 0 rs] by simp_all
  ultimately show ?case using 2 by (auto simp: cmp_flatrange_addr_def addrrange_end_def split: if_splits)
qed

lemma cmp_zero_intersects:
  assumes "0 < ar_size rng" and "0 < fr_size fr"
  shows "cmp_flatrange_addr rng fr = 0 \<longleftrightarrow> addrrange_intersects (fr_addr fr) rng"
  using assms by (auto simp: cmp_flatrange_addr_def addrrange_intersects_def addrrange_contains_def addrrange_end_def)

lemma walk_back_first:
  assumes "ranges_from 0 rs" and "0 < ar_size rng" and "i < length rs" and "addrrange_intersects (fr_addr (rs ! i)) rng"
  shows "walk_back rs rng i \<le> i \<and> addrrange_intersects (fr_addr (rs ! walk_back rs rng i)) rng
    \<and> (\<forall>j < walk_back rs rng i. \<not> addrrange_intersects (fr_addr (rs ! j)) rng)"
  using assms(3,4)
proof (induction i)
  case (Suc i)
  show ?case
  proof (cases "addrrange_intersects (fr_addr (rs ! i)) rng")
    case True
    then show ?thesis using Suc by auto
  next
    case False
    have "\<not> addrrange_intersects (fr_addr (rs ! j)) rng" if "j < Suc i" for j
    proof (cases "j = i")
      case False
      then have ji: "j < i" using that by simp
      have "fr_end (rs ! j) \<le> fr_start (rs ! i)" "fr_end (rs ! i) \<le> fr_start (rs ! Suc i)"
        "0 < fr_size (rs ! j)" "0 < fr_size (rs ! i)" "0 < fr_size (rs ! Suc i)"
        using ranges_from_sorted [OF assms(1) ji] ranges_from_sorted [OF assms(1), of i "Suc i"]
          ranges_from_nth [OF assms(1)] Suc.prems(1) ji by auto
      with Suc.prems(2) \<open>\<not> addrrange_intersects (fr_addr (rs ! i)) rng\<close> assms(2) show ?thesis
        by (auto simp: addrrange_intersects_def addrrange_contains_def addrrange_end_def)
    qed (use False in simp)
    with False Suc.prems show ?thesis by auto
  qed
qed auto

lemma view_at_nth:
  assumes "ranges_from lb rs" and "i < length rs" and "addrrange_contains (fr_addr (rs ! i)) a"
  shows "view_at rs a = Some (fr_mr (rs ! i), uint (fr_offset (rs ! i)) + (a - fr_start (rs ! i)), fr_readonly (rs ! i))"
  using assms
proof (induction rs arbitrary: lb i)
  case (Cons r rs)
  show ?case
  proof (cases i)
    case 0
    then show ?thesis using Cons.prems by (simp add: fr_at_def)
  next
    case (Suc k)
    have "fr_end r \<le> fr_start (rs ! k)" using ranges_from_sorted [OF Cons.prems(1), of 0 i] Cons.prems(2) Suc by simp
    then have "fr_at r a = None" using Cons.prems(3) Suc by (auto simp: fr_at_def addrrange_contains_def)
    then show ?thesis using Cons.IH [of "fr_end r" k] Cons.prems Suc by simp
  qed
qed simp

lemma view_at_None:
  "view_at rs a = None \<longleftrightarrow> (\<forall>r\<in>set rs. \<not> addrrange_contains (fr_addr r) a)"
  by (induction rs) (auto simp: fr_at_def split: option.splits)

lemma find_lookup:
  assumes rf: "ranges_from 0 (fv_ranges view)" and sz: "0 < ar_size rng"
    and lk: "flatview_lookup view rng = Some i"
  defines "k \<equiv> walk_back (fv_ranges view) rng i"
  shows "k < fv_nr view" "addrrange_intersects (fr_addr (fv_ranges view ! k)) rng"
    "\<And>j. j < k \<Longrightarrow> \<not> addrrange_intersects (fr_addr (fv_ranges view ! j)) rng"
proof -
  have i: "i < fv_nr view" "cmp_flatrange_addr rng (fv_ranges view ! i) = 0"
    using fr_search.search_sound [OF lk [unfolded flatview_lookup_def]] by auto
  then have "addrrange_intersects (fr_addr (fv_ranges view ! i)) rng"
    using cmp_zero_intersects [OF sz] ranges_from_nth [OF rf i(1)] by simp
  from walk_back_first [OF rf sz i(1) this] i(1) show "k < fv_nr view"
    "addrrange_intersects (fr_addr (fv_ranges view ! k)) rng"
    "\<And>j. j < k \<Longrightarrow> \<not> addrrange_intersects (fr_addr (fv_ranges view ! j)) rng"
    by (auto simp: k_def)
qed

text \<open>What a found section says about every address of the searched range up to its end.\<close>

definition section_describes :: "flat_range list \<Rightarrow> int \<Rightarrow> int \<Rightarrow> nat mr_section \<Rightarrow> bool" where
  "section_describes rs base n sec \<longleftrightarrow>
     (let st = uint (mrs_offset_within_address_space sec)
      in base \<le> st \<and> 0 < mrs_size sec \<and> st + mrs_size sec \<le> base + n
         \<and> (\<forall>a. base \<le> a \<and> a < st \<longrightarrow> view_at rs a = None)
         \<and> (\<forall>a. st \<le> a \<and> a < st + mrs_size sec \<longrightarrow>
              (\<exists>off. view_at rs a = Some (mrs_mr sec, off, mrs_readonly sec)
                 \<and> word_of_int off = mrs_offset_within_region sec + word_of_int (a - st))))"

lemma find_section:
  assumes rf: "ranges_from 0 (fv_ranges view)" and sz: "0 < uint sz"
    and base: "base = uint (fold (\<lambda>c a. a + c) chain addr)"
    and lk: "flatview_lookup view (addrrange_make base (uint sz)) = Some i"
  shows "\<exists>sec. memory_region_find_rcu chain view addr sz = Some (Some sec)
    \<and> section_describes (fv_ranges view) base (uint sz) sec"
proof -
  let ?rng = "addrrange_make base (uint sz)" and ?rs = "fv_ranges view"
  define k where "k = walk_back ?rs ?rng i"
  have ar: "ar_start ?rng = base" "ar_size ?rng = uint sz" by (simp_all add: addrrange_make_def)
  note w = find_lookup [OF rf _ lk, folded k_def]
  have k: "k < length ?rs" "addrrange_intersects (fr_addr (?rs ! k)) ?rng"
    "\<And>j. j < k \<Longrightarrow> \<not> addrrange_intersects (fr_addr (?rs ! j)) ?rng"
    using w sz by (simp_all add: ar)
  let ?fr = "?rs ! k"
  have fr: "0 \<le> fr_start ?fr" "0 < fr_size ?fr" "fr_end ?fr \<le> 2 ^ 64"
    using ranges_from_nth [OF rf k(1)] ranges_from_end [OF rf nth_mem [OF k(1)]] by simp_all
  define st where "st = max base (fr_start ?fr)"
  define e where "e = min (base + uint sz) (fr_end ?fr)"
  have se: "st < e" "base \<le> st" "e \<le> base + uint sz" "fr_start ?fr \<le> st" "e \<le> fr_end ?fr"
    using k(2) sz fr by (auto simp: st_def e_def addrrange_intersects_def addrrange_contains_def addrrange_end_def ar)
  have inter: "addrrange_intersection ?rng (fr_addr ?fr) = \<lparr>ar_start = st, ar_size = e - st\<rparr>"
    by (simp add: addrrange_intersection_def Let_def st_def e_def addrrange_make_def addrrange_end_def)
  have b0: "0 \<le> base" unfolding base by simp
  have g: "int128_get64 (st - fr_start ?fr) = Some (word_of_int (st - fr_start ?fr))" "int128_get64 st = Some (word_of_int st)"
    using se fr b0 by (auto simp: int128_get64_def)
  let ?sec = "\<lparr>mrs_mr = fr_mr ?fr, mrs_offset_within_region = fr_offset ?fr + word_of_int (st - fr_start ?fr),
    mrs_size = e - st, mrs_offset_within_address_space = word_of_int st, mrs_readonly = fr_readonly ?fr\<rparr>"
  have "memory_region_find_rcu chain view addr sz = Some (Some ?sec)"
    using lk g inter by (simp add: memory_region_find_rcu_def Let_def base [symmetric] k_def [symmetric])
  moreover have st: "uint (word_of_int st :: u64) = st"
    by (rule uint_of_int_small) (use se fr b0 in auto)
  have below: "view_at ?rs a = None" if "base \<le> a" "a < st" for a
  proof -
    have "\<not> addrrange_contains (fr_addr (?rs ! j)) a" if j: "j < length ?rs" for j
    proof (cases "j < k")
      case True
      with k(3) [OF True] \<open>base \<le> a\<close> \<open>a < st\<close> se ranges_from_sorted [OF rf True k(1)] show ?thesis
        by (auto simp: addrrange_intersects_def addrrange_contains_def addrrange_end_def ar st_def)
    next
      case False
      then have "fr_start ?fr \<le> fr_start (?rs ! j)"
        using ranges_from_sorted [OF rf, of k j] fr j by (cases "j = k") (auto simp: addrrange_end_def)
      with that(1) \<open>a < st\<close> \<open>base \<le> a\<close> show ?thesis by (auto simp: addrrange_contains_def st_def)
    qed
    then show ?thesis by (auto simp: view_at_None in_set_conv_nth)
  qed
  have "section_describes ?rs base (uint sz) ?sec"
    unfolding section_describes_def Let_def
    using se below view_at_nth [OF rf k(1)]
    by (auto simp: st addrrange_contains_def)
  ultimately show ?thesis by blast
qed

lemma find_nothing:
  assumes rf: "ranges_from 0 (fv_ranges view)" and sz: "0 < uint sz"
    and lk: "flatview_lookup view (addrrange_make base (uint sz)) = None" and a: "base \<le> a" "a < base + uint sz"
  shows "view_at (fv_ranges view) a = None"
proof -
  have "\<not> addrrange_contains (fr_addr r) a" if "r \<in> set (fv_ranges view)" for r
  proof -
    have "cmp_flatrange_addr (addrrange_make base (uint sz)) r \<noteq> 0"
      by (rule fr_search.search_complete [OF _ lk [unfolded flatview_lookup_def] that])
        (use rf sz in \<open>simp add: addrrange_make_def\<close>)
    then show ?thesis using a
      by (auto simp: cmp_flatrange_addr_def addrrange_make_def addrrange_contains_def addrrange_end_def split: if_splits)
  qed
  then show ?thesis by (simp add: view_at_None)
qed

section \<open>The difference of two views\<close>

lemma flatrange_equal_eq: "flatrange_equal a b \<longleftrightarrow> a = b"
  by (cases a; cases b) (auto simp: flatrange_equal_def addrrange_equal_def intro: addr_range.equality)

lemma ranges_from_later: "ranges_from lb (r # rs) \<Longrightarrow> s \<in> set rs \<Longrightarrow> fr_start r < fr_start s"
  using ranges_from_sorted [of lb "r # rs" 0] ranges_from_nth [of lb "r # rs" 0]
  by (fastforce simp: in_set_conv_nth addrrange_end_def)

lemma topology_pass_del:
  "ranges_from lb olds \<Longrightarrow> ranges_from lb' news \<Longrightarrow>
   address_space_update_topology_pass False olds news = map region_del (filter (\<lambda>r. r \<notin> set news) olds)"
proof (induction False olds news arbitrary: lb lb' rule: address_space_update_topology_pass.induct)
  case (4 frold olds frnew news)
  note later = ranges_from_later [OF 4(4)] ranges_from_later [OF 4(5)]
  have ro: "ranges_from (fr_end frold) olds" "ranges_from (fr_end frnew) news" using 4(4,5) by simp_all
  consider (del) "fr_start frold < fr_start frnew \<or> (fr_start frold = fr_start frnew \<and> frold \<noteq> frnew)"
    | (nop) "frold = frnew" | (add) "fr_start frnew < fr_start frold" by (metis linorder_less_linear)
  then show ?case
  proof cases
    case del
    then have "frold \<notin> set (frnew # news)" using later by fastforce
    with del 4(1) [OF _ ro(1) 4(5)] show ?thesis by (auto simp: flatrange_equal_eq)
  next
    case nop
    then have "\<forall>r\<in>set olds. r \<noteq> frnew" using later by fastforce
    with nop 4(2) [OF _ _ ro] show ?thesis by (auto simp: flatrange_equal_eq intro!: map_cong filter_cong)
  next
    case add
    then have "\<forall>r\<in>set (frold # olds). r \<noteq> frnew" using later by fastforce
    with add 4(3) [OF _ _ 4(4) ro(2)] show ?thesis by (auto simp: flatrange_equal_eq intro!: map_cong filter_cong)
  qed
qed auto

lemma topology_pass_add:
  "ranges_from lb olds \<Longrightarrow> ranges_from lb' news \<Longrightarrow>
   address_space_update_topology_pass True olds news
     = map (\<lambda>r. if r \<in> set olds then region_nop r else region_add r) news"
proof (induction True olds news arbitrary: lb lb' rule: address_space_update_topology_pass.induct)
  case (4 frold olds frnew news)
  note later = ranges_from_later [OF 4(4)] ranges_from_later [OF 4(5)]
  have ro: "ranges_from (fr_end frold) olds" "ranges_from (fr_end frnew) news" using 4(4,5) by simp_all
  consider (del) "fr_start frold < fr_start frnew \<or> (fr_start frold = fr_start frnew \<and> frold \<noteq> frnew)"
    | (nop) "frold = frnew" | (add) "fr_start frnew < fr_start frold" by (metis linorder_less_linear)
  then show ?case
  proof cases
    case del
    then have "\<forall>r\<in>set (frnew # news). r \<noteq> frold" using later by fastforce
    with del 4(1) [OF _ ro(1) 4(5)] show ?thesis by (auto simp: flatrange_equal_eq)
  next
    case nop
    then have "\<forall>r\<in>set news. r \<noteq> frold" using later by fastforce
    with nop 4(2) [OF _ _ ro] show ?thesis by (auto simp: flatrange_equal_eq)
  next
    case add
    then have "frnew \<notin> set (frold # olds)" using later by fastforce
    with add 4(3) [OF _ _ 4(4) ro(2)] show ?thesis by (auto simp: flatrange_equal_eq)
  qed
qed auto

text \<open>What a listener that keeps a set of ranges ends up with.\<close>

fun apply_event :: "region_event \<Rightarrow> flat_range set \<Rightarrow> flat_range set" where
  "apply_event (region_del r) S = S - {r}"
| "apply_event (region_nop r) S = S"
| "apply_event (region_add r) S = insert r S"

lemma apply_dels: "fold apply_event (map region_del rs) S = S - set rs"
  by (induction rs arbitrary: S) auto

lemma apply_adds: "fold apply_event (map (\<lambda>r. if P r then region_nop r else region_add r) rs) S
    = S \<union> {r \<in> set rs. \<not> P r}"
  by (induction rs arbitrary: S) auto

section \<open>Updating in place\<close>




section \<open>Priorities\<close>

abbreviation by_priority :: "mem_region list \<Rightarrow> bool" where
  "by_priority subs \<equiv> sorted_wrt (\<lambda>x y. prio x \<ge> prio y) subs"

lemma update_container_eq:
  "by_priority subs \<Longrightarrow> memory_region_update_container_subregions s subs
     = filter (\<lambda>x. prio x > prio s) subs @ s # filter (\<lambda>x. prio x \<le> prio s) subs"
proof (induction subs)
  case (Cons x xs)
  show ?case
  proof (cases "prio s \<ge> prio x")
    case True
    then have "\<forall>y\<in>set (x # xs). prio y \<le> prio s" using Cons.prems by auto
    then have "filter (\<lambda>x. prio x > prio s) (x # xs) = []" "filter (\<lambda>x. prio x \<le> prio s) (x # xs) = x # xs"
      by (auto simp: filter_empty_conv filter_id_conv)
    with True show ?thesis by simp
  qed (use Cons in auto)
qed simp

lemma filter_subregions_eq:
  "memory_region_filter_subregions subs level
     = (filter (\<lambda>s. prio s < level) subs, filter (\<lambda>s. prio s \<ge> level) subs)"
  by (induction subs) auto

section \<open>Properties\<close>

text \<open>
  C24. Rendering is correct: for every region tree whose subregions are smaller than the
  address space, \<open>generate_memory_topology\<close> trips no assertion and yields a view that is
  sorted, disjoint and inside the 64-bit space, has no two neighbours that could be
  merged, fits its array, and resolves every address to the region, offset and
  write protection that the priority walk over the tree gives.
\<close>

theorem generate_memory_topology_correct:
  assumes "region_ok mr"
  shows "\<exists>view. generate_memory_topology (Some mr) = Some view \<and> ranges_from 0 (fv_ranges view)
    \<and> separated (fv_ranges view) \<and> fv_nr view \<le> fv_nr_allocated view
    \<and> (\<forall>a. 0 \<le> a \<and> a < 2 ^ 64 \<longrightarrow> view_at (fv_ranges view) a = resolve mr 0 False a)"
  using topology_correct [of "Some mr"] assms by (simp add: resolve_root_def)

definition sample_info :: mr_info where
  "sample_info = \<lparr>mr_id = 1, mr_addr = 0x1000, mr_size = 0x3000, mr_enabled = True,
     mr_terminates = True, mr_readonly = False, mr_priority = 0\<rparr>"

definition sample_tree :: mem_region where
  "sample_tree = MemoryRegion (sample_info\<lparr>mr_id := 0, mr_addr := 0, mr_size := 2 ^ 64, mr_terminates := False\<rparr>)
     [MemoryRegion (sample_info\<lparr>mr_id := 2, mr_addr := 0x2000, mr_size := 0x1000, mr_priority := 1\<rparr>) [],
      MemoryRegion sample_info []]"

theorem generate_memory_topology_correct_witness:
  "\<exists>view. generate_memory_topology (Some sample_tree) = Some view
    \<and> view_at (fv_ranges view) 0x2004 = Some (2, 4, False)
    \<and> view_at (fv_ranges view) 0x3004 = Some (1, 0x2004, False)"
proof -
  have "region_ok sample_tree" by (simp add: sample_tree_def sample_info_def)
  from generate_memory_topology_correct [OF this] obtain view where
    v: "generate_memory_topology (Some sample_tree) = Some view"
      "\<forall>a. 0 \<le> a \<and> a < 2 ^ 64 \<longrightarrow> view_at (fv_ranges view) a = resolve sample_tree 0 False a" by blast
  have "view_at (fv_ranges view) 0x2004 = resolve sample_tree 0 False 0x2004"
    "view_at (fv_ranges view) 0x3004 = resolve sample_tree 0 False 0x3004" using v(2) by simp_all
  then show ?thesis using v(1) by (simp add: sample_tree_def sample_info_def Let_def)
qed

text \<open>
  C28. The shortcut \<open>memory_region_get_flatview_root\<close> is sound: descending to an only child
  at offset 0 changes the result of no address, as long as the containers passed are not
  themselves read-only.
\<close>

theorem flatview_root_sound:
  assumes "mr_addr (info mr) = 0" and "plain_chain mr" and "0 \<le> a"
  shows "resolve_root (memory_region_get_flatview_root mr) a = resolve mr 0 False a"
  by (rule flatview_root_resolve [OF assms])

theorem flatview_root_sound_witness:
  "resolve_root (memory_region_get_flatview_root sample_tree) 0x2004 = Some (2, 4, False)"
  using flatview_root_sound [of sample_tree "0x2004"] by (simp add: sample_tree_def sample_info_def Let_def)

text \<open>
  C29. \<open>memory_region_find\<close> on a sorted view returns without failing an assertion; if it
  finds nothing then no address of the searched range is mapped, and otherwise the section
  starts at the first mapped address, stays inside the range, and gives for each of its
  addresses the region, offset and protection of the view.
\<close>

theorem memory_region_find_correct:
  assumes "ranges_from 0 (fv_ranges view)" and "0 < uint sz"
    and "base = uint (fold (\<lambda>c a. a + c) chain addr)"
  shows "(memory_region_find_rcu chain view addr sz = Some None
      \<and> (\<forall>a. base \<le> a \<and> a < base + uint sz \<longrightarrow> view_at (fv_ranges view) a = None))
    \<or> (\<exists>sec. memory_region_find_rcu chain view addr sz = Some (Some sec)
      \<and> section_describes (fv_ranges view) base (uint sz) sec)"
proof (cases "flatview_lookup view (addrrange_make base (uint sz))")
  case None
  then have "memory_region_find_rcu chain view addr sz = Some None"
    by (simp add: memory_region_find_rcu_def Let_def assms(3))
  with find_nothing [OF assms(1,2) None] show ?thesis by blast
next
  case (Some i)
  with find_section [OF assms] show ?thesis by blast
qed

theorem memory_region_find_correct_witness:
  "memory_region_find_rcu [0x1000] \<lparr>fv_ranges = [\<lparr>fr_mr = 7, fr_offset = 0,
      fr_addr = \<lparr>ar_start = 0x2000, ar_size = 0x1000\<rparr>, fr_readonly = False\<rparr>], fv_nr_allocated = 10\<rparr> 0x800 0x10 = Some None"
proof -
  let ?v = "\<lparr>fv_ranges = [\<lparr>fr_mr = 7, fr_offset = 0, fr_addr = \<lparr>ar_start = 0x2000, ar_size = 0x1000\<rparr>,
    fr_readonly = False\<rparr>], fv_nr_allocated = 10\<rparr>"
  have rf: "ranges_from 0 (fv_ranges ?v)" by (simp add: addrrange_end_def)
  have "flatview_lookup ?v (addrrange_make 0x1800 0x10) = None"
    by (simp add: flatview_lookup_def bsearch_def bsearch_loop.simps cmp_flatrange_addr_def
        addrrange_make_def addrrange_end_def)
  then have "\<nexists>sec. memory_region_find_rcu [0x1000] ?v 0x800 0x10 = Some (Some sec)"
    by (simp add: memory_region_find_rcu_def Let_def)
  with memory_region_find_correct [OF rf, of "0x10" "0x1800" "[0x1000]" "0x800"] show ?thesis by auto
qed

text \<open>
  C30. The listeners see exactly the difference of two views: the first pass deletes, in
  order, the old ranges that are not in the new view, the second adds the new ranges that
  are not in the old one and leaves the common ones alone; a listener that tracks the set
  of ranges ends with the ranges of the new view.
\<close>

theorem topology_passes_correct:
  assumes "ranges_from 0 (fv_ranges old)" and "ranges_from 0 (fv_ranges new)"
  shows "address_space_set_flatview (Some old) new
      = map region_del (filter (\<lambda>r. r \<notin> set (fv_ranges new)) (fv_ranges old))
        @ map (\<lambda>r. if r \<in> set (fv_ranges old) then region_nop r else region_add r) (fv_ranges new)
    \<and> fold apply_event (address_space_set_flatview (Some old) new) (set (fv_ranges old)) = set (fv_ranges new)"
proof -
  have e: "address_space_set_flatview (Some old) new
      = map region_del (filter (\<lambda>r. r \<notin> set (fv_ranges new)) (fv_ranges old))
        @ map (\<lambda>r. if r \<in> set (fv_ranges old) then region_nop r else region_add r) (fv_ranges new)"
    using topology_pass_del [OF assms] topology_pass_add [OF assms] by (simp add: address_space_set_flatview_def Let_def)
  show ?thesis unfolding e by (auto simp: apply_dels apply_adds)
qed

theorem topology_passes_correct_witness:
  "fold apply_event (address_space_set_flatview
      (Some \<lparr>fv_ranges = [\<lparr>fr_mr = 1, fr_offset = 0, fr_addr = \<lparr>ar_start = 0, ar_size = 4096\<rparr>, fr_readonly = False\<rparr>],
             fv_nr_allocated = 10\<rparr>)
      \<lparr>fv_ranges = [], fv_nr_allocated = 0\<rparr>)
     {\<lparr>fr_mr = 1, fr_offset = 0, fr_addr = \<lparr>ar_start = 0, ar_size = 4096\<rparr>, fr_readonly = False\<rparr>} = {}"
  using topology_passes_correct [of "\<lparr>fv_ranges = [\<lparr>fr_mr = 1, fr_offset = 0,
      fr_addr = \<lparr>ar_start = 0, ar_size = 4096\<rparr>, fr_readonly = False\<rparr>], fv_nr_allocated = 10\<rparr>"
      "\<lparr>fv_ranges = [], fv_nr_allocated = 0\<rparr>"]
  by (simp add: addrrange_end_def)



text \<open>
  C32. Subregions are kept by descending priority, the newest first among equals. So the
  head of the list has the highest priority, a new region hides exactly the regions of at
  most its own priority, and removing everything from its level on (the restore of a
  snapshot) undoes the insertion.
\<close>

theorem add_subregion_priority:
  assumes "by_priority subs"
  shows "by_priority (memory_region_update_container_subregions s subs)
    \<and> (\<forall>x\<in>set (memory_region_update_container_subregions s subs).
         prio x \<le> prio (hd (memory_region_update_container_subregions s subs)))
    \<and> resolve_subs (memory_region_update_container_subregions s subs) base ro a
      = (case resolve_subs (filter (\<lambda>x. prio x > prio s) subs) base ro a of
           Some t \<Rightarrow> Some t
         | None \<Rightarrow> (case resolve s base ro a of Some t \<Rightarrow> Some t
                   | None \<Rightarrow> resolve_subs (filter (\<lambda>x. prio x \<le> prio s) subs) base ro a))
    \<and> ((\<forall>x\<in>set subs. prio x < prio s) \<longrightarrow>
        memory_region_filter_subregions (memory_region_update_container_subregions s subs) (prio s) = (subs, [s]))"
proof -
  note e = update_container_eq [OF assms, of s]
  have sorted: "by_priority (memory_region_update_container_subregions s subs)"
    unfolding e using assms by (fastforce simp: sorted_wrt_append intro: sorted_wrt_filter)
  moreover have "prio x \<le> prio (hd (memory_region_update_container_subregions s subs))"
    if "x \<in> set (memory_region_update_container_subregions s subs)" for x
    using sorted that by (cases "memory_region_update_container_subregions s subs") auto
  moreover have "memory_region_filter_subregions (memory_region_update_container_subregions s subs) (prio s) = (subs, [s])"
    if "\<forall>x\<in>set subs. prio x < prio s"
  proof -
    have "filter (\<lambda>x. prio x > prio s) subs = []" "filter (\<lambda>x. prio x \<le> prio s) subs = subs"
      using that by (auto simp: filter_empty_conv filter_id_conv)
    then show ?thesis unfolding e using that
      by (auto simp: filter_subregions_eq filter_empty_conv filter_id_conv)
  qed
  ultimately show ?thesis unfolding e by (auto simp: resolve_subs_append cong: option.case_cong)
qed

theorem add_subregion_priority_witness:
  "memory_region_filter_subregions (memory_region_update_container_subregions
      (MemoryRegion (sample_info\<lparr>mr_priority := 3\<rparr>) []) [MemoryRegion sample_info []]) 3
    = ([MemoryRegion sample_info []], [MemoryRegion (sample_info\<lparr>mr_priority := 3\<rparr>) []])"
  using add_subregion_priority [of "[MemoryRegion sample_info []]" "MemoryRegion (sample_info\<lparr>mr_priority := 3\<rparr>) []"]
  by (simp add: sample_info_def)

end
