(* ===== verification/Phys_Map.thy ===== *)
theory Phys_Map
  imports Flat_Api
begin

text \<open>
  The dispatch of physical addresses of \<open>src/unicorn/qemu/exec.c\<close>: the radix tree
  \<open>PhysPageMap\<close> with \<open>phys_page_set\<close>, \<open>phys_page_compact\<close> and \<open>phys_page_find\<close>, the array of
  sections, the subpages, \<open>flatview_add_to_dispatch\<close> and \<open>address_space_lookup_region\<close> with its
  cache of the last section.

  The nodes are an array of arrays of entries; a \<open>PhysPageEntry *\<close> is a location, the root
  \<open>d->phys_map\<close> or a slot of a node, and the operations write through it. Page numbers are
  naturals below \<open>2 ^ 54\<close>, so their sums do not wrap. The bit fields of an entry are cut to 6
  and 26 bits when they are written. \<open>None\<close> is a failed assertion or an access outside an array.
\<close>

section \<open>Pages\<close>

text \<open>
  \<open>TARGET_PAGE_BITS\<close>, and the width of the unsigned type \<open>TARGET_PAGE_MASK\<close> has when it meets a
  64-bit address: 64, or 32 for a target whose \<open>target_ulong\<close> has 32 bits. The complement is
  taken in that type as well.
\<close>

record target_page =
  tp_bits :: nat
  tp_mask_bits :: nat

definition TARGET_PAGE_SIZE :: "target_page \<Rightarrow> nat" where
  "TARGET_PAGE_SIZE tp = 2 ^ tp_bits tp"

definition TARGET_PAGE_MASK :: "target_page \<Rightarrow> u64" where
  "TARGET_PAGE_MASK tp = take_bit (tp_mask_bits tp) (push_bit (tp_bits tp) (- 1))"

definition NOT_TARGET_PAGE_MASK :: "target_page \<Rightarrow> u64" where
  "NOT_TARGET_PAGE_MASK tp = take_bit (tp_mask_bits tp) (NOT (push_bit (tp_bits tp) (- 1)))"

definition TARGET_PAGE_ALIGN :: "target_page \<Rightarrow> u64 \<Rightarrow> u64" where
  "TARGET_PAGE_ALIGN tp addr =
     (addr + of_nat (TARGET_PAGE_SIZE tp) - 1) AND (- of_nat (TARGET_PAGE_SIZE tp))"

abbreviation (input) P_L2_BITS :: nat where "P_L2_BITS \<equiv> 9"

abbreviation (input) P_L2_SIZE :: nat where "P_L2_SIZE \<equiv> 512"

definition P_L2_LEVELS :: "target_page \<Rightarrow> nat" where
  "P_L2_LEVELS tp = (64 - tp_bits tp - 1) div P_L2_BITS + 1"

section \<open>Entries, sections and the dispatch structure\<close>

record phys_page_entry =
  pe_skip :: nat
  pe_ptr :: nat

text \<open>An entry as it is stored in the bit fields \<open>skip : 6\<close> and \<open>ptr : 26\<close>.\<close>

definition page_entry :: "nat \<Rightarrow> nat \<Rightarrow> phys_page_entry" where
  "page_entry s p = \<lparr>pe_skip = s mod 2 ^ 6, pe_ptr = p mod 2 ^ 26\<rparr>"

definition PHYS_MAP_NODE_NIL :: nat where
  "PHYS_MAP_NODE_NIL = 2 ^ 26 - 1"

abbreviation (input) PHYS_SECTION_UNASSIGNED :: nat where "PHYS_SECTION_UNASSIGNED \<equiv> 0"

text \<open>
  The region of a section: \<open>uc->io_mem_unassigned\<close>, a region of the topology, or the \<open>iomem\<close> of
  the subpage with that number.
\<close>

datatype phys_mr = Io_Mem_Unassigned | Region nat | Subpage nat

type_synonym phys_section = "phys_mr mr_section"

record subpage =
  sp_base :: u64
  sub_section :: "nat list"

record dispatch =
  mru_section :: "nat option"
  phys_map :: phys_page_entry
  d_sections :: "phys_section list"
  sections_nb_alloc :: nat
  nodes_nb :: nat
  nodes_nb_alloc :: nat
  d_nodes :: "nat \<Rightarrow> nat \<Rightarrow> phys_page_entry"
  d_subpages :: "subpage list"
  alloc_hint :: nat

datatype entry_loc = Root | Slot nat nat

fun get_entry :: "dispatch \<Rightarrow> entry_loc \<Rightarrow> phys_page_entry" where
  "get_entry d Root = phys_map d"
| "get_entry d (Slot n i) = d_nodes d n i"

fun set_entry :: "dispatch \<Rightarrow> entry_loc \<Rightarrow> phys_page_entry \<Rightarrow> dispatch" where
  "set_entry d Root e = d\<lparr>phys_map := e\<rparr>"
| "set_entry d (Slot n i) e = d\<lparr>d_nodes := (d_nodes d)(n := (d_nodes d n)(i := e))\<rparr>"

section \<open>Filling the tree\<close>

definition phys_map_node_reserve :: "dispatch \<Rightarrow> nat \<Rightarrow> dispatch" where
  "phys_map_node_reserve d n =
     (if nodes_nb d + n > nodes_nb_alloc d
      then (let m = max (alloc_hint d) (nodes_nb d + n)
            in d\<lparr>nodes_nb_alloc := m, alloc_hint := m\<rparr>)
      else d)"

definition phys_map_node_alloc :: "dispatch \<Rightarrow> bool \<Rightarrow> (dispatch \<times> nat) option" where
  "phys_map_node_alloc d leaf =
     (let ret = nodes_nb d;
          e = page_entry (if leaf then 0 else 1) (if leaf then PHYS_SECTION_UNASSIGNED else PHYS_MAP_NODE_NIL)
      in if ret = PHYS_MAP_NODE_NIL \<or> ret = nodes_nb_alloc d then None
         else Some (d\<lparr>nodes_nb := ret + 1,
                      d_nodes := (d_nodes d)(ret := (\<lambda>i. if i < P_L2_SIZE then e else d_nodes d ret i))\<rparr>, ret))"

text \<open>
  The loop of \<open>phys_page_set_level\<close> over the slots of node \<open>p\<close>, with \<open>k\<close> slots left; \<open>rec\<close> is the call
  for the level below. The state is the structure, \<open>*index\<close> and \<open>*nb\<close>.
\<close>

fun set_slots :: "(dispatch \<Rightarrow> entry_loc \<Rightarrow> nat \<Rightarrow> nat \<Rightarrow> (dispatch \<times> nat \<times> nat) option) \<Rightarrow> nat \<Rightarrow> nat \<Rightarrow> nat
    \<Rightarrow> nat \<Rightarrow> dispatch \<Rightarrow> nat \<Rightarrow> nat \<Rightarrow> (dispatch \<times> nat \<times> nat) option" where
  "set_slots rec step leaf p 0 d index nb = Some (d, index, nb)"
| "set_slots rec step leaf p (Suc k) d index nb =
     (if nb = 0 then Some (d, index, nb)
      else
        (let lp = Slot p (P_L2_SIZE - Suc k)
         in if index mod step = 0 \<and> nb \<ge> step
            then set_slots rec step leaf p k (set_entry d lp (page_entry 0 leaf)) (index + step) (nb - step)
            else (case rec d lp index nb of
                    None \<Rightarrow> None
                  | Some (d', index', nb') \<Rightarrow> set_slots rec step leaf p k d' index' nb')))"

text \<open>The body of \<open>phys_page_set_level\<close>; the entry \<open>lp\<close> gets a node when it has none.\<close>

definition set_level_body :: "(dispatch \<Rightarrow> entry_loc \<Rightarrow> nat \<Rightarrow> nat \<Rightarrow> (dispatch \<times> nat \<times> nat) option) \<Rightarrow> nat
    \<Rightarrow> nat \<Rightarrow> dispatch \<Rightarrow> entry_loc \<Rightarrow> nat \<Rightarrow> nat \<Rightarrow> (dispatch \<times> nat \<times> nat) option" where
  "set_level_body rec level leaf d lp index nb =
     (let step = 2 ^ (level * P_L2_BITS);
          e = get_entry d lp;
          r = (if pe_skip e \<noteq> 0 \<and> pe_ptr e = PHYS_MAP_NODE_NIL
               then map_option (\<lambda>(d', n). set_entry d' lp (page_entry (pe_skip e) n))
                      (phys_map_node_alloc d (level = 0))
               else Some d)
      in case r of
           None \<Rightarrow> None
         | Some d' \<Rightarrow>
             (let p = pe_ptr (get_entry d' lp);
                  i = (index div 2 ^ (level * P_L2_BITS)) mod P_L2_SIZE
              in if p < nodes_nb d' then set_slots rec step leaf p (P_L2_SIZE - i) d' index nb else None))"

text \<open>Below level 0 the shift count would be negative.\<close>

primrec phys_page_set_level :: "nat \<Rightarrow> nat \<Rightarrow> dispatch \<Rightarrow> entry_loc \<Rightarrow> nat \<Rightarrow> nat
    \<Rightarrow> (dispatch \<times> nat \<times> nat) option" where
  "phys_page_set_level 0 leaf = set_level_body (\<lambda>_ _ _ _. None) 0 leaf"
| "phys_page_set_level (Suc l) leaf = set_level_body (phys_page_set_level l leaf) (Suc l) leaf"

definition phys_page_set :: "target_page \<Rightarrow> dispatch \<Rightarrow> nat \<Rightarrow> nat \<Rightarrow> nat \<Rightarrow> dispatch option" where
  "phys_page_set tp d index nb leaf =
     (let d = phys_map_node_reserve d (3 * P_L2_LEVELS tp)
      in map_option fst (phys_page_set_level (P_L2_LEVELS tp - 1) leaf d Root index nb))"

section \<open>Compaction\<close>

text \<open>
  The loop of \<open>phys_page_compact\<close> over the slots of node \<open>p\<close>, with \<open>k\<close> slots left; the state is the
  structure, \<open>valid\<close> and \<open>valid_ptr\<close>.
\<close>

fun compact_slots :: "(dispatch \<Rightarrow> entry_loc \<Rightarrow> dispatch option) \<Rightarrow> nat \<Rightarrow> nat \<Rightarrow> dispatch \<Rightarrow> nat \<Rightarrow> nat
    \<Rightarrow> (dispatch \<times> nat \<times> nat) option" where
  "compact_slots rec p 0 d valid valid_ptr = Some (d, valid, valid_ptr)"
| "compact_slots rec p (Suc k) d valid valid_ptr =
     (let i = P_L2_SIZE - Suc k; e = d_nodes d p i
      in if pe_ptr e = PHYS_MAP_NODE_NIL then compact_slots rec p k d valid valid_ptr
         else (case (if pe_skip e \<noteq> 0 then rec d (Slot p i) else Some d) of
                 None \<Rightarrow> None
               | Some d' \<Rightarrow> compact_slots rec p k d' (valid + 1) i))"

text \<open>\<open>phys_page_compact\<close>; the first argument bounds the depth of the recursion.\<close>

primrec phys_page_compact :: "nat \<Rightarrow> target_page \<Rightarrow> dispatch \<Rightarrow> entry_loc \<Rightarrow> dispatch option" where
  "phys_page_compact 0 tp d lp = None"
| "phys_page_compact (Suc n) tp d lp =
     (let p = pe_ptr (get_entry d lp)
      in if p = PHYS_MAP_NODE_NIL then Some d
         else if p \<ge> nodes_nb d then None
         else (case compact_slots (phys_page_compact n tp) p P_L2_SIZE d 0 P_L2_SIZE of
                 None \<Rightarrow> None
               | Some (d, valid, valid_ptr) \<Rightarrow>
                   if valid \<noteq> 1 then Some d
                   else if valid_ptr \<ge> P_L2_SIZE then None
                   else
                     (let e = get_entry d lp; c = d_nodes d p valid_ptr
                      in if P_L2_LEVELS tp \<ge> 2 ^ 6 \<and> pe_skip e + pe_skip c \<ge> 2 ^ 6 then Some d
                         else Some (set_entry d lp
                                (page_entry (if pe_skip c = 0 then 0 else pe_skip e + pe_skip c) (pe_ptr c))))))"

definition address_space_dispatch_compact :: "target_page \<Rightarrow> dispatch \<Rightarrow> dispatch option" where
  "address_space_dispatch_compact tp d =
     (if pe_skip (phys_map d) \<noteq> 0 then phys_page_compact (P_L2_LEVELS tp) tp d Root else Some d)"

section \<open>Lookup\<close>

definition range_covers_byte :: "u64 \<Rightarrow> u64 \<Rightarrow> u64 \<Rightarrow> bool" where
  "range_covers_byte offset len byte \<longleftrightarrow> offset \<le> byte \<and> byte \<le> offset + len - 1"

definition section_covers_addr :: "phys_section \<Rightarrow> u64 \<Rightarrow> bool" where
  "section_covers_addr s addr \<longleftrightarrow>
     mrs_size s div 2 ^ 64 \<noteq> 0
     \<or> range_covers_byte (mrs_offset_within_address_space s) (word_of_int (mrs_size s)) addr"

text \<open>The loop of \<open>phys_page_find\<close>; \<open>None\<close> is the return of the unassigned section.\<close>

function find_loop :: "(nat \<Rightarrow> nat \<Rightarrow> phys_page_entry) \<Rightarrow> phys_page_entry \<Rightarrow> nat \<Rightarrow> nat \<Rightarrow> nat option" where
  "find_loop N lp i index =
     (if pe_skip lp \<noteq> 0 \<and> pe_skip lp \<le> i then
        (if pe_ptr lp = PHYS_MAP_NODE_NIL then None
         else find_loop N (N (pe_ptr lp) ((index div 2 ^ ((i - pe_skip lp) * P_L2_BITS)) mod P_L2_SIZE))
                (i - pe_skip lp) index)
      else Some (pe_ptr lp))"
  by pat_completeness auto
termination by (relation "measure (\<lambda>(N, lp, i, index). i)") auto

declare find_loop.simps [simp del]

text \<open>The number of the section \<open>phys_page_find\<close> returns.\<close>

definition phys_page_find :: "target_page \<Rightarrow> dispatch \<Rightarrow> u64 \<Rightarrow> nat option" where
  "phys_page_find tp d addr =
     (let index = unat (drop_bit (tp_bits tp) addr)
      in case find_loop (d_nodes d) (phys_map d) (P_L2_LEVELS tp) index of
           None \<Rightarrow> Some PHYS_SECTION_UNASSIGNED
         | Some n \<Rightarrow>
             if n \<ge> length (d_sections d) then None
             else if section_covers_addr (d_sections d ! n) addr then Some n
             else Some PHYS_SECTION_UNASSIGNED)"

definition SUBPAGE_IDX :: "target_page \<Rightarrow> u64 \<Rightarrow> nat" where
  "SUBPAGE_IDX tp addr = unat (addr AND NOT_TARGET_PAGE_MASK tp)"

text \<open>\<open>address_space_lookup_region\<close>: the number of the section, and the structure with the new cache.\<close>

definition address_space_lookup_region :: "target_page \<Rightarrow> dispatch \<Rightarrow> u64 \<Rightarrow> bool \<Rightarrow> (nat \<times> dispatch) option" where
  "address_space_lookup_region tp d addr resolve_subpage =
     (let r = (case mru_section d of
                 None \<Rightarrow> map_option (\<lambda>s. (s, d\<lparr>mru_section := Some s\<rparr>)) (phys_page_find tp d addr)
               | Some s \<Rightarrow>
                   if s = PHYS_SECTION_UNASSIGNED \<or> \<not> section_covers_addr (d_sections d ! s) addr
                   then map_option (\<lambda>s. (s, d\<lparr>mru_section := Some s\<rparr>)) (phys_page_find tp d addr)
                   else Some (s, d))
      in case r of
           None \<Rightarrow> None
         | Some (s, d') \<Rightarrow>
             (case mrs_mr (d_sections d' ! s) of
                Subpage k \<Rightarrow>
                  if resolve_subpage
                  then (let i = SUBPAGE_IDX tp addr; sub = sub_section (d_subpages d' ! k)
                        in if i < length sub then Some (sub ! i, d') else None)
                  else Some (s, d')
              | _ \<Rightarrow> Some (s, d')))"

text \<open>
  \<open>address_space_translate_internal\<close>: the section, \<open>*xlat\<close> and \<open>*plen\<close>; \<open>is_ram\<close> tells which
  regions are RAM.
\<close>

definition address_space_translate_internal :: "(phys_mr \<Rightarrow> bool) \<Rightarrow> target_page \<Rightarrow> dispatch \<Rightarrow> u64 \<Rightarrow> u64 \<Rightarrow> bool
    \<Rightarrow> (nat \<times> u64 \<times> u64 \<times> dispatch) option" where
  "address_space_translate_internal is_ram tp d addr plen resolve_subpage =
     (case address_space_lookup_region tp d addr resolve_subpage of
        None \<Rightarrow> None
      | Some (n, d') \<Rightarrow>
          (let s = d_sections d' ! n;
               addr = addr - mrs_offset_within_address_space s;
               xlat = addr + mrs_offset_within_region s
           in if is_ram (mrs_mr s)
              then map_option (\<lambda>plen. (n, xlat, plen, d')) (int128_get64 (min (mrs_size s - uint addr) (uint plen)))
              else Some (n, xlat, plen, d')))"

section \<open>Registering sections\<close>

definition phys_section_add :: "target_page \<Rightarrow> dispatch \<Rightarrow> phys_section \<Rightarrow> (dispatch \<times> nat) option" where
  "phys_section_add tp d s =
     (if \<not> length (d_sections d) < TARGET_PAGE_SIZE tp then None
      else
        (let d = (if length (d_sections d) = sections_nb_alloc d
                  then d\<lparr>sections_nb_alloc := max (sections_nb_alloc d * 2) 16\<rparr> else d)
         in Some (d\<lparr>d_sections := d_sections d @ [s]\<rparr>, length (d_sections d) mod 2 ^ 16)))"

definition subpage_init :: "target_page \<Rightarrow> dispatch \<Rightarrow> u64 \<Rightarrow> dispatch \<times> nat" where
  "subpage_init tp d base =
     (d\<lparr>d_subpages := d_subpages d @ [\<lparr>sp_base = base, sub_section = replicate (TARGET_PAGE_SIZE tp) 0\<rparr>]\<rparr>,
      length (d_subpages d))"

text \<open>The loop of \<open>subpage_register\<close>.\<close>

function register_idx :: "nat list \<Rightarrow> nat \<Rightarrow> nat \<Rightarrow> nat \<Rightarrow> nat list" where
  "register_idx sub idx eidx s = (if idx \<le> eidx then register_idx (sub[idx := s]) (idx + 1) eidx s else sub)"
  by pat_completeness auto
termination by (relation "measure (\<lambda>(sub, idx, eidx, s). eidx + 1 - idx)") auto

declare register_idx.simps [simp del]

definition subpage_register :: "target_page \<Rightarrow> subpage \<Rightarrow> u32 \<Rightarrow> u32 \<Rightarrow> nat \<Rightarrow> int \<times> subpage" where
  "subpage_register tp mmio start end s =
     (if unat start \<ge> TARGET_PAGE_SIZE tp \<or> unat end \<ge> TARGET_PAGE_SIZE tp then (- 1, mmio)
      else (0, mmio\<lparr>sub_section := register_idx (sub_section mmio)
                      (SUBPAGE_IDX tp (ucast start)) (SUBPAGE_IDX tp (ucast end)) s\<rparr>))"

text \<open>The part of \<open>register_subpage\<close> that finds the subpage of the page or makes one.\<close>

definition find_subpage :: "target_page \<Rightarrow> dispatch \<Rightarrow> u64 \<Rightarrow> (dispatch \<times> nat) option" where
  "find_subpage tp d base =
     (case phys_page_find tp d base of
        None \<Rightarrow> None
      | Some existing \<Rightarrow>
          (case mrs_mr (d_sections d ! existing) of
             Region _ \<Rightarrow> None
           | Subpage k \<Rightarrow> Some (d, k)
           | Io_Mem_Unassigned \<Rightarrow>
               (let (d, k) = subpage_init tp d base;
                    subsection = \<lparr>mrs_mr = Subpage k, mrs_offset_within_region = 0,
                      mrs_size = int (TARGET_PAGE_SIZE tp), mrs_offset_within_address_space = base,
                      mrs_readonly = False\<rparr>
                in case phys_section_add tp d subsection of
                     None \<Rightarrow> None
                   | Some (d, n) \<Rightarrow>
                       map_option (\<lambda>d. (d, k)) (phys_page_set tp d (unat (drop_bit (tp_bits tp) base)) 1 n))))"

definition register_subpage :: "target_page \<Rightarrow> dispatch \<Rightarrow> phys_section \<Rightarrow> dispatch option" where
  "register_subpage tp d s =
     (let base = mrs_offset_within_address_space s AND TARGET_PAGE_MASK tp
      in case find_subpage tp d base of
           None \<Rightarrow> None
         | Some (d, k) \<Rightarrow>
             (let start = mrs_offset_within_address_space s AND NOT_TARGET_PAGE_MASK tp
              in case int128_get64 (mrs_size s) of
                   None \<Rightarrow> None
                 | Some sz \<Rightarrow>
                     (let end = start + sz - 1
                      in case phys_section_add tp d s of
                           None \<Rightarrow> None
                         | Some (d, n) \<Rightarrow>
                             Some (d\<lparr>d_subpages := (d_subpages d)[k :=
                               snd (subpage_register tp (d_subpages d ! k) (ucast start) (ucast end) n)]\<rparr>))))"

definition register_multipage :: "target_page \<Rightarrow> dispatch \<Rightarrow> phys_section \<Rightarrow> dispatch option" where
  "register_multipage tp d s =
     (case phys_section_add tp d s of
        None \<Rightarrow> None
      | Some (d, n) \<Rightarrow>
          (case int128_get64 (mrs_size s div 2 ^ tp_bits tp) of
             None \<Rightarrow> None
           | Some num_pages \<Rightarrow>
               if num_pages = 0 then None
               else phys_page_set tp d (unat (drop_bit (tp_bits tp) (mrs_offset_within_address_space s)))
                      (unat num_pages) n))"

text \<open>The rest of a section after its first \<open>n\<close> bytes.\<close>

definition section_rest :: "phys_section \<Rightarrow> int \<Rightarrow> phys_section option" where
  "section_rest s n =
     map_option (\<lambda>k. s\<lparr>mrs_size := mrs_size s - n,
         mrs_offset_within_address_space := mrs_offset_within_address_space s + k,
         mrs_offset_within_region := mrs_offset_within_region s + k\<rparr>) (int128_get64 n)"

text \<open>
  One part of \<open>flatview_add_to_dispatch\<close>: register the first \<open>n\<close> bytes of what remains, and return
  what remains then, if anything.
\<close>

definition register_part :: "(dispatch \<Rightarrow> phys_section \<Rightarrow> dispatch option) \<Rightarrow> dispatch \<Rightarrow> phys_section \<Rightarrow> int
    \<Rightarrow> (dispatch \<times> phys_section option) option" where
  "register_part reg d remain n =
     (case reg d (remain\<lparr>mrs_size := n\<rparr>) of
        None \<Rightarrow> None
      | Some d \<Rightarrow>
          if mrs_size remain = n then Some (d, None)
          else map_option (\<lambda>s. (d, Some s)) (section_rest remain n))"

definition add_first :: "target_page \<Rightarrow> dispatch \<Rightarrow> phys_section \<Rightarrow> (dispatch \<times> phys_section option) option" where
  "add_first tp d remain =
     (let a = mrs_offset_within_address_space remain
      in if a AND NOT_TARGET_PAGE_MASK tp \<noteq> 0
         then register_part (register_subpage tp) d remain
                (min (uint (TARGET_PAGE_ALIGN tp a - a)) (mrs_size remain))
         else Some (d, Some remain))"

definition add_pages :: "target_page \<Rightarrow> dispatch \<Rightarrow> phys_section \<Rightarrow> (dispatch \<times> phys_section option) option" where
  "add_pages tp d remain =
     (if mrs_size remain \<ge> int (TARGET_PAGE_SIZE tp)
      then register_part (register_multipage tp) d remain (mrs_size remain AND - int (TARGET_PAGE_SIZE tp))
      else Some (d, Some remain))"

definition flatview_add_to_dispatch :: "target_page \<Rightarrow> dispatch \<Rightarrow> phys_section \<Rightarrow> dispatch option" where
  "flatview_add_to_dispatch tp d s =
     (case add_first tp d s of
        None \<Rightarrow> None
      | Some (d, None) \<Rightarrow> Some d
      | Some (d, Some remain) \<Rightarrow>
          (case add_pages tp d remain of
             None \<Rightarrow> None
           | Some (d, None) \<Rightarrow> Some d
           | Some (d, Some remain) \<Rightarrow> register_subpage tp d remain))"

section \<open>Building the structure of a view\<close>

definition dummy_section :: phys_section where
  "dummy_section = \<lparr>mrs_mr = Io_Mem_Unassigned, mrs_offset_within_region = 0, mrs_size = 2 ^ 64,
     mrs_offset_within_address_space = 0, mrs_readonly = False\<rparr>"

text \<open>\<open>mem\<close> is what the memory of the nodes holds before it is written.\<close>

definition address_space_dispatch_new :: "target_page \<Rightarrow> nat \<Rightarrow> (nat \<Rightarrow> nat \<Rightarrow> phys_page_entry) \<Rightarrow> dispatch option" where
  "address_space_dispatch_new tp hint mem =
     (let d = \<lparr>mru_section = None, phys_map = page_entry 0 0, d_sections = [], sections_nb_alloc = 0,
            nodes_nb = 0, nodes_nb_alloc = 0, d_nodes = mem, d_subpages = [], alloc_hint = hint\<rparr>
      in case phys_section_add tp d dummy_section of
           None \<Rightarrow> None
         | Some (d, n) \<Rightarrow>
             if n \<noteq> PHYS_SECTION_UNASSIGNED then None
             else Some (d\<lparr>phys_map := page_entry 1 PHYS_MAP_NODE_NIL\<rparr>))"

text \<open>A section of the topology as the dispatch structure holds it.\<close>

definition region_section :: "nat mr_section \<Rightarrow> phys_section" where
  "region_section s = \<lparr>mrs_mr = Region (mrs_mr s), mrs_offset_within_region = mrs_offset_within_region s,
     mrs_size = mrs_size s, mrs_offset_within_address_space = mrs_offset_within_address_space s,
     mrs_readonly = mrs_readonly s\<rparr>"

text \<open>The loop over the ranges of a view in \<open>generate_memory_topology\<close>.\<close>

fun add_ranges :: "target_page \<Rightarrow> flat_range list \<Rightarrow> dispatch \<Rightarrow> dispatch option" where
  "add_ranges tp [] d = Some d"
| "add_ranges tp (r # rs) d =
     (case section_from_flat_range r of
        None \<Rightarrow> None
      | Some s \<Rightarrow>
          (case flatview_add_to_dispatch tp d (region_section s) of
             None \<Rightarrow> None
           | Some d \<Rightarrow> add_ranges tp rs d))"

text \<open>The structure \<open>generate_memory_topology\<close> gives a view.\<close>

definition build_dispatch :: "target_page \<Rightarrow> nat \<Rightarrow> (nat \<Rightarrow> nat \<Rightarrow> phys_page_entry) \<Rightarrow> flat_view \<Rightarrow> dispatch option" where
  "build_dispatch tp hint mem view =
     (case address_space_dispatch_new tp hint mem of
        None \<Rightarrow> None
      | Some d \<Rightarrow>
          (case add_ranges tp (fv_ranges view) d of
             None \<Rightarrow> None
           | Some d \<Rightarrow> address_space_dispatch_compact tp d))"

text \<open>\<open>memory_region_section_get_iotlb\<close> and \<open>iotlb_to_section\<close>: a section as a number below the page size.\<close>

definition iotlb_to_section :: "target_page \<Rightarrow> dispatch \<Rightarrow> u64 \<Rightarrow> phys_section option" where
  "iotlb_to_section tp d index =
     (let n = unat (index AND NOT_TARGET_PAGE_MASK tp)
      in if n < length (d_sections d) then Some (d_sections d ! n) else None)"

end
