(* ===== verification/Phys_Set.thy ===== *)
theory Phys_Set
  imports Phys_Map
begin

text \<open>
  \<open>phys_page_set\<close>: the radix tree stays a tree, every page of the range shows the section, every
  other page shows what it showed, and the nodes reserved up front are enough.
\<close>

section \<open>The tree below an entry\<close>

type_synonym pnodes = "nat \<Rightarrow> nat \<Rightarrow> phys_page_entry"

abbreviation is_leaf :: "phys_page_entry \<Rightarrow> bool" where "is_leaf e \<equiv> pe_skip e = 0"

abbreviation is_nil :: "phys_page_entry \<Rightarrow> bool" where "is_nil e \<equiv> pe_ptr e = PHYS_MAP_NODE_NIL"

text \<open>The nodes below an entry of height \<open>l\<close>, the height of the root being \<open>P_L2_LEVELS\<close>.\<close>

primrec reach :: "nat \<Rightarrow> pnodes \<Rightarrow> phys_page_entry \<Rightarrow> nat set" where
  "reach 0 N e = {}"
| "reach (Suc l) N e = (if is_leaf e \<or> is_nil e then {}
     else insert (pe_ptr e) (\<Union>i<512. reach l N (N (pe_ptr e) i)))"

text \<open>
  The shape before compaction: every internal entry leads one level down, the subtrees of a
  node are disjoint, and a leaf above the bottom is assigned.
\<close>

primrec tree :: "nat \<Rightarrow> pnodes \<Rightarrow> nat \<Rightarrow> phys_page_entry \<Rightarrow> bool" where
  "tree 0 N n e \<longleftrightarrow> is_leaf e \<and> pe_ptr e < 2 ^ 16"
| "tree (Suc l) N n e \<longleftrightarrow> (if is_leaf e then pe_ptr e \<noteq> 0 \<and> pe_ptr e < 2 ^ 16
     else pe_skip e = 1 \<and> (is_nil e \<or> pe_ptr e < n \<and>
       (\<forall>i<512. tree l N n (N (pe_ptr e) i) \<and> pe_ptr e \<notin> reach l N (N (pe_ptr e) i)
          \<and> (\<forall>j<512. i \<noteq> j \<longrightarrow> reach l N (N (pe_ptr e) i) \<inter> reach l N (N (pe_ptr e) j) = {}))))"

text \<open>The section of page \<open>x\<close>, 0 when it has none.\<close>

primrec look :: "nat \<Rightarrow> pnodes \<Rightarrow> phys_page_entry \<Rightarrow> nat \<Rightarrow> nat" where
  "look 0 N e x = pe_ptr e"
| "look (Suc l) N e x = (if is_leaf e then pe_ptr e else if is_nil e then 0
     else look l N (N (pe_ptr e) (x div 512 ^ l mod 512)) x)"

definition node_ok :: "nat \<Rightarrow> pnodes \<Rightarrow> nat \<Rightarrow> nat \<Rightarrow> bool" where
  "node_ok l N n p \<longleftrightarrow> p < n \<and> (\<forall>i<512. tree l N n (N p i) \<and> p \<notin> reach l N (N p i)
     \<and> (\<forall>j<512. i \<noteq> j \<longrightarrow> reach l N (N p i) \<inter> reach l N (N p j) = {}))"

abbreviation below :: "nat \<Rightarrow> pnodes \<Rightarrow> nat \<Rightarrow> nat set" where
  "below l N p \<equiv> (\<Union>i<512. reach l N (N p i))"

abbreviation node_look :: "nat \<Rightarrow> pnodes \<Rightarrow> nat \<Rightarrow> nat \<Rightarrow> nat" where
  "node_look l N p x \<equiv> look l N (N p (x div 512 ^ l mod 512)) x"

lemma tree_Suc:
  "tree (Suc l) N n e \<longleftrightarrow> (if is_leaf e then pe_ptr e \<noteq> 0 \<and> pe_ptr e < 2 ^ 16
     else pe_skip e = 1 \<and> (is_nil e \<or> node_ok l N n (pe_ptr e)))"
  by (simp add: node_ok_def)

declare tree.simps(2) [simp del]

lemma reach_below: "tree l N n e \<Longrightarrow> reach l N e \<subseteq> {..<n}"
proof (induction l arbitrary: e)
  case (Suc l)
  then show ?case by (fastforce simp: tree_Suc node_ok_def split: if_splits)
qed simp

lemma below_less: "node_ok l N n p \<Longrightarrow> below l N p \<subseteq> {..<n}"
  using reach_below by (fastforce simp: node_ok_def)

lemma reach_cong: "\<forall>q\<in>reach l N e. N' q = N q \<Longrightarrow> reach l N' e = reach l N e"
proof (induction l arbitrary: e)
  case (Suc l)
  show ?case
  proof (cases "is_leaf e \<or> is_nil e")
    case False
    then have "N' (pe_ptr e) = N (pe_ptr e)" using Suc.prems by simp
    moreover have "reach l N' (N (pe_ptr e) i) = reach l N (N (pe_ptr e) i)" if "i < 512" for i
      by (rule Suc.IH) (use Suc.prems that False in auto)
    ultimately show ?thesis using False by simp
  qed simp
qed simp

lemma look_cong: "\<forall>q\<in>reach l N e. N' q = N q \<Longrightarrow> look l N' e x = look l N e x"
proof (induction l arbitrary: e)
  case (Suc l)
  show ?case
  proof (cases "is_leaf e \<or> is_nil e")
    case False
    then have "N' (pe_ptr e) = N (pe_ptr e)" using Suc.prems by simp
    moreover have "look l N' (N (pe_ptr e) i) x = look l N (N (pe_ptr e) i) x" if "i < 512" for i
      by (rule Suc.IH) (use Suc.prems that False in auto)
    ultimately show ?thesis using False by simp
  qed auto
qed simp

lemma tree_cong:
  "tree l N n e \<Longrightarrow> \<forall>q\<in>reach l N e. N' q = N q \<Longrightarrow> n \<le> n' \<Longrightarrow> tree l N' n' e"
proof (induction l arbitrary: e)
  case (Suc l)
  show ?case
  proof (cases "is_leaf e \<or> is_nil e")
    case False
    let ?p = "pe_ptr e"
    have p: "N' ?p = N ?p" using Suc.prems(2) False by simp
    have sub: "\<forall>q\<in>reach l N (N ?p i). N' q = N q" if "i < 512" for i using Suc.prems(2) that False by auto
    have ok: "node_ok l N n ?p" "pe_skip e = 1" using Suc.prems(1) False by (simp_all add: tree_Suc)
    then have "tree l N' n' (N ?p i)" if "i < 512" for i
      using Suc.IH [OF _ sub [OF that] Suc.prems(3)] that by (simp add: node_ok_def)
    moreover have "reach l N' (N ?p i) = reach l N (N ?p i)" if "i < 512" for i by (rule reach_cong [OF sub [OF that]])
    ultimately have "node_ok l N' n' ?p" using ok(1) Suc.prems(3) by (simp add: node_ok_def p)
    then show ?thesis using ok(2) False by (simp add: tree_Suc)
  qed (use Suc.prems(1) in \<open>auto simp: tree_Suc\<close>)
qed simp

text \<open>Only the digits below the height of the entry count.\<close>

lemma look_mod: "look l N e (x mod 512 ^ l) = look l N e x"
proof (induction l arbitrary: e x)
  case (Suc l)
  have d: "x mod 512 ^ Suc l div 512 ^ l mod 512 = x div 512 ^ l mod 512"
    by (simp add: mod_mult2_eq mult.commute [of 512])
  have "x mod 512 ^ Suc l mod 512 ^ l = x mod 512 ^ l" by (simp add: mod_mod_cancel)
  then have "look l N e (x mod 512 ^ Suc l) = look l N e x" for e by (metis Suc.IH)
  then show ?case by (simp add: d del: power_Suc)
qed simp

section \<open>Filling a part of a block\<close>

definition d_rest :: "dispatch \<Rightarrow> nat option \<times> phys_section list \<times> nat \<times> nat \<times> subpage list \<times> nat" where
  "d_rest d = (mru_section d, d_sections d, sections_nb_alloc d, nodes_nb_alloc d, d_subpages d, alloc_hint d)"

text \<open>
  The entry at \<open>lp\<close>, of height \<open>l\<close>, covers block \<open>b\<close> of \<open>512 ^ l\<close> pages. From \<open>d\<close> to \<open>d'\<close> the pages
  \<open>index ..< index + m\<close> of the block got the section \<open>leaf\<close>, within the subtree and new nodes.
\<close>

definition entry_filled :: "nat \<Rightarrow> nat \<Rightarrow> entry_loc \<Rightarrow> nat \<Rightarrow> dispatch \<Rightarrow> nat \<Rightarrow> nat \<Rightarrow> dispatch \<Rightarrow> bool" where
  "entry_filled l b lp leaf d index m d' \<longleftrightarrow>
     tree l (d_nodes d') (nodes_nb d') (get_entry d' lp) \<and> nodes_nb d \<le> nodes_nb d'
     \<and> reach l (d_nodes d') (get_entry d' lp) \<subseteq> reach l (d_nodes d) (get_entry d lp) \<union> {nodes_nb d..<nodes_nb d'}
     \<and> (\<forall>q i. q < nodes_nb d \<and> q \<notin> reach l (d_nodes d) (get_entry d lp) \<and> lp \<noteq> Slot q i
          \<longrightarrow> d_nodes d' q i = d_nodes d q i)
     \<and> (lp \<noteq> Root \<longrightarrow> phys_map d' = phys_map d) \<and> d_rest d' = d_rest d
     \<and> (\<forall>x. x div 512 ^ l = b \<longrightarrow> look l (d_nodes d') (get_entry d' lp) x
          = (if index \<le> x \<and> x < index + m then leaf else look l (d_nodes d) (get_entry d lp) x))"

text \<open>The same for a node \<open>p\<close> whose slots have height \<open>l\<close>.\<close>

definition node_filled :: "nat \<Rightarrow> nat \<Rightarrow> nat \<Rightarrow> nat \<Rightarrow> dispatch \<Rightarrow> nat \<Rightarrow> nat \<Rightarrow> dispatch \<Rightarrow> bool" where
  "node_filled l b p leaf d index m d' \<longleftrightarrow>
     node_ok l (d_nodes d') (nodes_nb d') p \<and> nodes_nb d \<le> nodes_nb d'
     \<and> below l (d_nodes d') p \<subseteq> below l (d_nodes d) p \<union> {nodes_nb d..<nodes_nb d'}
     \<and> (\<forall>q. q < nodes_nb d \<and> q \<notin> below l (d_nodes d) p \<and> q \<noteq> p \<longrightarrow> d_nodes d' q = d_nodes d q)
     \<and> phys_map d' = phys_map d \<and> d_rest d' = d_rest d
     \<and> (\<forall>x. x div 512 ^ Suc l = b \<longrightarrow> node_look l (d_nodes d') p x
          = (if index \<le> x \<and> x < index + m then leaf else node_look l (d_nodes d) p x))"

lemma node_filled_refl: "node_ok l (d_nodes d) (nodes_nb d) p \<Longrightarrow> node_filled l b p leaf d index 0 d"
  by (simp add: node_filled_def)

lemma node_filledD:
  assumes "node_filled l b p leaf d index m d'"
  shows "node_ok l (d_nodes d') (nodes_nb d') p" "nodes_nb d \<le> nodes_nb d'"
    "below l (d_nodes d') p \<subseteq> below l (d_nodes d) p \<union> {nodes_nb d..<nodes_nb d'}"
    "\<And>q. q < nodes_nb d \<Longrightarrow> q \<notin> below l (d_nodes d) p \<Longrightarrow> q \<noteq> p \<Longrightarrow> d_nodes d' q = d_nodes d q"
    "phys_map d' = phys_map d" "d_rest d' = d_rest d"
    "\<And>x. x div 512 ^ Suc l = b \<Longrightarrow> node_look l (d_nodes d') p x
          = (if index \<le> x \<and> x < index + m then leaf else node_look l (d_nodes d) p x)"
  using assms unfolding node_filled_def by blast+

lemma node_filledI:
  assumes "node_ok l (d_nodes d') (nodes_nb d') p" "nodes_nb d \<le> nodes_nb d'"
    "below l (d_nodes d') p \<subseteq> below l (d_nodes d) p \<union> {nodes_nb d..<nodes_nb d'}"
    "\<And>q. q < nodes_nb d \<Longrightarrow> q \<notin> below l (d_nodes d) p \<Longrightarrow> q \<noteq> p \<Longrightarrow> d_nodes d' q = d_nodes d q"
    "phys_map d' = phys_map d" "d_rest d' = d_rest d"
    "\<And>x. x div 512 ^ Suc l = b \<Longrightarrow> node_look l (d_nodes d') p x
          = (if index \<le> x \<and> x < index + m then leaf else node_look l (d_nodes d) p x)"
  shows "node_filled l b p leaf d index m d'"
  using assms unfolding node_filled_def by blast

lemma fresh_trans: "A \<subseteq> B \<union> {n'..<n''} \<Longrightarrow> B \<subseteq> C \<union> {n..<n'} \<Longrightarrow> (n::nat) \<le> n' \<Longrightarrow> n' \<le> n'' \<Longrightarrow> A \<subseteq> C \<union> {n..<n''}"
  by (auto simp: subset_iff)

lemma node_filled_trans:
  assumes "node_filled l b p leaf d index m d'" "node_filled l b p leaf d' (index + m) m' d''"
  shows "node_filled l b p leaf d index (m + m') d''"
proof (rule node_filledI)
  note f = node_filledD [OF assms(1)] and g = node_filledD [OF assms(2)]
  show "node_ok l (d_nodes d'') (nodes_nb d'') p" by (rule g(1))
  show "nodes_nb d \<le> nodes_nb d''" using f(2) g(2) by (rule le_trans)
  show "below l (d_nodes d'') p \<subseteq> below l (d_nodes d) p \<union> {nodes_nb d..<nodes_nb d''}"
    by (rule fresh_trans [OF g(3) f(3) f(2) g(2)])
  show "phys_map d'' = phys_map d" "d_rest d'' = d_rest d" using f(5,6) g(5,6) by simp_all
  show "d_nodes d'' q = d_nodes d q" if "q < nodes_nb d" "q \<notin> below l (d_nodes d) p" "q \<noteq> p" for q
  proof -
    have "q \<notin> {nodes_nb d..<nodes_nb d'}" using that(1) by simp
    then have "q \<notin> below l (d_nodes d') p" using f(3) that(2) by blast
    then show ?thesis using f(4) [OF that] g(4) [of q] that(1,3) f(2) by simp
  qed
  show "node_look l (d_nodes d'') p x = (if index \<le> x \<and> x < index + (m + m') then leaf else node_look l (d_nodes d) p x)"
    if "x div 512 ^ Suc l = b" for x
    unfolding g(7) [OF that] f(7) [OF that] by auto
qed

lemma entry_filledD:
  assumes "entry_filled l b lp leaf d index m d'"
  shows "tree l (d_nodes d') (nodes_nb d') (get_entry d' lp)" "nodes_nb d \<le> nodes_nb d'"
    "reach l (d_nodes d') (get_entry d' lp) \<subseteq> reach l (d_nodes d) (get_entry d lp) \<union> {nodes_nb d..<nodes_nb d'}"
    "\<And>q i. q < nodes_nb d \<Longrightarrow> q \<notin> reach l (d_nodes d) (get_entry d lp) \<Longrightarrow> lp \<noteq> Slot q i \<Longrightarrow> d_nodes d' q i = d_nodes d q i"
    "lp \<noteq> Root \<Longrightarrow> phys_map d' = phys_map d" "d_rest d' = d_rest d"
    "\<And>x. x div 512 ^ l = b \<Longrightarrow> look l (d_nodes d') (get_entry d' lp) x
          = (if index \<le> x \<and> x < index + m then leaf else look l (d_nodes d) (get_entry d lp) x)"
  using assms unfolding entry_filled_def by blast+

lemma slot_filled:
  assumes ok: "node_ok l (d_nodes d) (nodes_nb d) p" and j: "j < 512"
    and f: "entry_filled l (b * 512 + j) (Slot p j) leaf d index m d'"
    and r: "\<And>x. index \<le> x \<Longrightarrow> x < index + m \<Longrightarrow> x div 512 ^ l = b * 512 + j"
  shows "node_filled l b p leaf d index m d'"
proof -
  let ?N = "d_nodes d" and ?N' = "d_nodes d'" and ?n = "nodes_nb d" and ?n' = "nodes_nb d'"
  note f = entry_filledD [OF f, simplified]
  have o: "tree l ?N ?n (?N p i)" "p \<notin> reach l ?N (?N p i)" "reach l ?N (?N p i) \<subseteq> {..<?n}" if "i < 512" for i
    using ok that reach_below unfolding node_ok_def by blast+
  have dj: "reach l ?N (?N p i) \<inter> reach l ?N (?N p i') = {}" if "i < 512" "i' < 512" "i \<noteq> i'" for i i'
    using ok that unfolding node_ok_def by blast
  have pn: "p < ?n" using ok by (simp add: node_ok_def)
  have slots: "?N' p i = ?N p i" if "i \<noteq> j" for i using f(4) [OF pn o(2) [OF j]] that by simp
  have other: "?N' q = ?N q" if "q < ?n" "q \<notin> reach l ?N (?N p j)" "q \<noteq> p" for q
    using f(4) [OF that(1,2)] that(3) by (simp add: fun_eq_iff)
  have fr: "\<forall>q\<in>reach l ?N (?N p i). ?N' q = ?N q" if "i < 512" "i \<noteq> j" for i
    using other o [OF that(1)] dj [OF that(1) j that(2)] by blast
  have re: "reach l ?N' (?N' p i) = reach l ?N (?N p i)" if "i < 512" "i \<noteq> j" for i
    using reach_cong [OF fr [OF that]] slots [OF that(2)] by simp
  have sub: "reach l ?N' (?N' p i) \<subseteq> reach l ?N (?N p i) \<union> {?n..<?n'}" if "i < 512" for i
    using f(3) re [OF that] by (cases "i = j") auto
  show ?thesis
  proof (rule node_filledI)
    have "tree l ?N' ?n' (?N' p i)" if "i < 512" for i
      using f(1) tree_cong [OF o(1) [OF that] fr [OF that] f(2)] slots [of i] by (cases "i = j") simp_all
    moreover have "p \<notin> reach l ?N' (?N' p i)" if "i < 512" for i using sub [OF that] o(2) [OF that] pn by auto
    moreover have "reach l ?N' (?N' p i) \<inter> reach l ?N' (?N' p i') = {}" if a: "i < 512" "i' < 512" "i \<noteq> i'" for i i'
    proof (cases "i = j")
      case True
      then show ?thesis using sub [OF a(1)] re [OF a(2)] dj [OF a] o(3) [OF a(2)] a(3) by fastforce
    next
      case False
      then show ?thesis using sub [OF a(2)] re [OF a(1)] dj [OF a] o(3) [OF a(1)] by fastforce
    qed
    ultimately show "node_ok l ?N' ?n' p" using pn f(2) unfolding node_ok_def by (meson less_le_trans)
    show "below l ?N' p \<subseteq> below l ?N p \<union> {?n..<?n'}" using sub by blast
    show "?N' q = ?N q" if "q < ?n" "q \<notin> below l ?N p" "q \<noteq> p" for q using other that j by blast
    show "node_look l ?N' p x = (if index \<le> x \<and> x < index + m then leaf else node_look l ?N p x)"
      if x: "x div 512 ^ Suc l = b" for x
    proof (cases "x div 512 ^ l mod 512 = j")
      case True
      have "x div 512 ^ l div 512 = b" using x by (simp add: div_mult2_eq mult.commute [of 512])
      then have "x div 512 ^ l = b * 512 + j" using True div_mult_mod_eq [of "x div 512 ^ l" 512] by simp
      then show ?thesis using f(7) True by simp
    next
      case False
      then have "\<not> (index \<le> x \<and> x < index + m)" using r [of x] j by auto
      then show ?thesis using look_cong [OF fr [OF _ False]] slots [OF False] by auto
    qed
  qed (use f in auto)
qed

section \<open>The loop over the slots\<close>

lemma reach_leaf: "is_leaf e \<Longrightarrow> reach l N e = {}"
  by (cases l) simp_all

lemma look_leaf: "is_leaf e \<Longrightarrow> look l N e x = pe_ptr e"
  by (cases l) simp_all

lemma tree_leaf: "is_leaf e \<Longrightarrow> pe_ptr e \<noteq> 0 \<Longrightarrow> pe_ptr e < 2 ^ 16 \<Longrightarrow> tree l N n e"
  by (cases l) (simp_all add: tree_Suc)

lemma leaf_entry: "leaf < 2 ^ 16 \<Longrightarrow> page_entry 0 leaf = \<lparr>pe_skip = 0, pe_ptr = leaf\<rparr>"
  by (simp add: page_entry_def)

lemma block_bounds: "(x::nat) div P = b \<Longrightarrow> 0 < P \<Longrightarrow> b * P \<le> x \<and> x < b * P + P"
proof -
  assume "x div P = b" "0 < P"
  then have "x = b * P + x mod P" "x mod P < P" using div_mult_mod_eq [of x P] by simp_all
  then show ?thesis by linarith
qed

lemma block_eqI: "b * P \<le> x \<Longrightarrow> x < b * P + P \<Longrightarrow> (x::nat) div P = b"
  by (rule div_nat_eqI) (simp_all add: mult.commute)

lemma leaf_filled:
  assumes "0 < leaf" "leaf < 2 ^ 16"
  shows "entry_filled l b (Slot p j) leaf d (b * 512 ^ l) (512 ^ l) (set_entry d (Slot p j) (page_entry 0 leaf))"
proof -
  have "b * 512 ^ l \<le> x \<and> x < b * 512 ^ l + 512 ^ l" if "x div 512 ^ l = b" for x :: nat
    by (rule block_bounds [OF that]) simp
  then show ?thesis
    using assms by (simp add: entry_filled_def leaf_entry tree_leaf reach_leaf look_leaf d_rest_def)
qed

text \<open>
  What a call for an entry of height \<open>l\<close> sets, and the nodes it may take: one per level for a range
  that touches an end of the block, two below the first otherwise.
\<close>

definition part :: "nat \<Rightarrow> nat \<Rightarrow> nat \<Rightarrow> nat" where
  "part l index nb = min nb (512 ^ l - index mod 512 ^ l)"

definition entry_cost :: "nat \<Rightarrow> nat \<Rightarrow> nat \<Rightarrow> nat" where
  "entry_cost l index nb = (if index mod 512 ^ l = 0 \<or> 512 ^ l \<le> index mod 512 ^ l + nb then l else 2 * l - 1)"

definition roomy :: "dispatch \<Rightarrow> nat \<Rightarrow> bool" where
  "roomy d c \<longleftrightarrow> nodes_nb d + c \<le> nodes_nb_alloc d \<and> nodes_nb d + c \<le> PHYS_MAP_NODE_NIL"

definition rec_fills :: "(dispatch \<Rightarrow> entry_loc \<Rightarrow> nat \<Rightarrow> nat \<Rightarrow> (dispatch \<times> nat \<times> nat) option) \<Rightarrow> nat \<Rightarrow> nat \<Rightarrow> nat \<Rightarrow> nat \<Rightarrow> bool" where
  "rec_fills rec l b p leaf \<longleftrightarrow> (\<forall>d j index nb. node_ok l (d_nodes d) (nodes_nb d) p \<and> j < 512
     \<and> index div 512 ^ l = b * 512 + j \<and> 0 < nb \<and> \<not> (index mod 512 ^ l = 0 \<and> 512 ^ l \<le> nb)
     \<and> (\<forall>x. index \<le> x \<and> x < index + part l index nb \<longrightarrow> node_look l (d_nodes d) p x = 0)
     \<and> roomy d (entry_cost l index nb)
     \<longrightarrow> (\<exists>d'. rec d (Slot p j) index nb = Some (d', index + part l index nb, nb - part l index nb)
           \<and> entry_filled l (b * 512 + j) (Slot p j) leaf d index (part l index nb) d'
           \<and> nodes_nb d' \<le> nodes_nb d + entry_cost l index nb))"

lemma set_slots_none [simp]: "set_slots rec step leaf p k d index 0 = Some (d, index, 0)"
  by (cases k) simp_all

lemma part_in_block:
  assumes "index \<le> x" "x < index + part l index nb"
  shows "x div 512 ^ l = index div 512 ^ l"
proof -
  have b: "index div 512 ^ l * 512 ^ l \<le> index" "index mod 512 ^ l < (512 ^ l :: nat)"
    "index div 512 ^ l * 512 ^ l + index mod 512 ^ l = index"
    by (simp_all add: div_mult_mod_eq)
  then show ?thesis using assms by (intro block_eqI) (simp_all add: part_def)
qed

text \<open>One slot: written as a leaf, or handed to the level below.\<close>

definition slot_step :: "(dispatch \<Rightarrow> entry_loc \<Rightarrow> nat \<Rightarrow> nat \<Rightarrow> (dispatch \<times> nat \<times> nat) option) \<Rightarrow> nat \<Rightarrow> nat \<Rightarrow> nat \<Rightarrow> nat
    \<Rightarrow> dispatch \<Rightarrow> nat \<Rightarrow> nat \<Rightarrow> (dispatch \<times> nat \<times> nat) option" where
  "slot_step rec step leaf p j d index nb = (if index mod step = 0 \<and> nb \<ge> step
     then Some (set_entry d (Slot p j) (page_entry 0 leaf), index + step, nb - step)
     else rec d (Slot p j) index nb)"

lemma set_slots_step:
  "nb \<noteq> 0 \<Longrightarrow> set_slots rec step leaf p (Suc k) d index nb
     = (case slot_step rec step leaf p (512 - Suc k) d index nb of None \<Rightarrow> None
        | Some (d', index', nb') \<Rightarrow> set_slots rec step leaf p k d' index' nb')"
  by (simp add: slot_step_def Let_def)

definition slot_cost :: "nat \<Rightarrow> nat \<Rightarrow> nat \<Rightarrow> nat" where
  "slot_cost l index nb = (if index mod 512 ^ l = 0 \<and> 512 ^ l \<le> nb then 0 else entry_cost l index nb)"

lemma slot_step_fills:
  assumes "rec_fills rec l b p leaf" "0 < leaf" "leaf < 2 ^ 16" "node_ok l (d_nodes d) (nodes_nb d) p" "j < 512"
    "index div 512 ^ l = b * 512 + j" "0 < nb"
    "\<forall>x. index \<le> x \<and> x < index + part l index nb \<longrightarrow> node_look l (d_nodes d) p x = 0"
    "roomy d (slot_cost l index nb)"
  shows "\<exists>d'. slot_step rec (512 ^ l) leaf p j d index nb = Some (d', index + part l index nb, nb - part l index nb)
    \<and> node_filled l b p leaf d index (part l index nb) d' \<and> nodes_nb d' \<le> nodes_nb d + slot_cost l index nb"
proof -
  have r: "x div 512 ^ l = b * 512 + j" if "index \<le> x" "x < index + part l index nb" for x
    using part_in_block [OF that] assms(6) by simp
  show ?thesis
  proof (cases "index mod 512 ^ l = 0 \<and> 512 ^ l \<le> nb")
    case True
    then have "index = (b * 512 + j) * 512 ^ l" using assms(6) div_mult_mod_eq [of index "512 ^ l"] by simp
    then have "entry_filled l (b * 512 + j) (Slot p j) leaf d index (512 ^ l) (set_entry d (Slot p j) (page_entry 0 leaf))"
      using leaf_filled [OF assms(2,3), of l "b * 512 + j" p j d] by simp
    moreover have "part l index nb = 512 ^ l" using True by (simp add: part_def)
    ultimately show ?thesis using slot_filled [OF assms(4,5) _ r] True by (simp add: slot_step_def)
  next
    case False
    then have "\<exists>d'. rec d (Slot p j) index nb = Some (d', index + part l index nb, nb - part l index nb)
        \<and> entry_filled l (b * 512 + j) (Slot p j) leaf d index (part l index nb) d'
        \<and> nodes_nb d' \<le> nodes_nb d + entry_cost l index nb"
      using assms(4-9) unfolding slot_cost_def
      by (intro assms(1) [unfolded rec_fills_def, THEN spec, THEN spec, THEN spec, THEN spec, THEN mp] conjI) (simp_all only: if_False not_False_eq_True)
    moreover have "slot_step rec (512 ^ l) leaf p j d index nb = rec d (Slot p j) index nb"
      "slot_cost l index nb = entry_cost l index nb" using False by (auto simp: slot_step_def slot_cost_def)
    ultimately show ?thesis using slot_filled [OF assms(4,5) _ r] by metis
  qed
qed

text \<open>The nodes a loop over slots of height \<open>l\<close> may take before the end \<open>e\<close> of the block.\<close>

definition slots_cost :: "nat \<Rightarrow> nat \<Rightarrow> nat \<Rightarrow> nat \<Rightarrow> nat" where
  "slots_cost l e index nb = (if nb = 0 then 0
     else (if index mod 512 ^ l = 0 then 0 else l) + (if e \<le> index + nb then 0 else l))"

lemma slot_arith:
  assumes "index div 512 ^ l = b * 512 + j" "j < 512" "e = (b + 1) * 512 ^ Suc l"
  shows "index + 512 ^ l - index mod 512 ^ l \<le> e" "index + (512 ^ l - index mod 512 ^ l) = (b * 512 + Suc j) * 512 ^ l"
proof -
  have r: "index = (b * 512 + j) * 512 ^ l + index mod 512 ^ l" using div_mult_mod_eq [of index "512 ^ l"] assms(1) by simp
  have m: "index mod 512 ^ l < (512 ^ l :: nat)" by simp
  have "(b * 512 + Suc j) * 512 ^ l = (b * 512 + j) * 512 ^ l + 512 ^ l" by (simp add: algebra_simps)
  then show s: "index + (512 ^ l - index mod 512 ^ l) = (b * 512 + Suc j) * 512 ^ l" using r m by linarith
  have "(b * 512 + Suc j) * 512 ^ l \<le> (b * 512 + 512) * 512 ^ l" using assms(2) by (intro mult_le_mono1) simp
  also have "\<dots> = e" by (simp add: assms(3) algebra_simps)
  finally show "index + 512 ^ l - index mod 512 ^ l \<le> e" using s m by linarith
qed

lemma slot_next:
  assumes "index div 512 ^ l = b * 512 + j" "j < 512" "e = (b + 1) * 512 ^ Suc l" "part l index nb < nb"
  shows "(index + part l index nb) mod 512 ^ l = 0" "(index + part l index nb) div 512 ^ l = b * 512 + Suc j"
    "index + part l index nb = (b * 512 + Suc j) * 512 ^ l"
proof -
  have "part l index nb = 512 ^ l - index mod 512 ^ l" using assms(4) by (simp add: part_def min_def split: if_splits)
  then show n: "index + part l index nb = (b * 512 + Suc j) * 512 ^ l" using slot_arith(2) [OF assms(1-3)] by simp
  show "(index + part l index nb) mod 512 ^ l = 0" "(index + part l index nb) div 512 ^ l = b * 512 + Suc j"
    unfolding n by simp_all
qed

lemma slot_cost_sum:
  assumes "index div 512 ^ l = b * 512 + j" "j < 512" "e = (b + 1) * 512 ^ Suc l" "0 < nb"
  shows "slot_cost l index nb + slots_cost l e (index + part l index nb) (nb - part l index nb) \<le> slots_cost l e index nb"
proof (cases "part l index nb < nb")
  case True
  have "512 ^ l \<le> index mod 512 ^ l + nb" using True by (simp add: part_def min_def split: if_splits)
  moreover have "(index + part l index nb) mod 512 ^ l = 0" by (rule slot_next(1) [OF assms(1-3) True])
  ultimately show ?thesis using True by (auto simp: slots_cost_def slot_cost_def entry_cost_def)
next
  case False
  then have eq: "part l index nb = nb" "nb \<le> 512 ^ l - index mod 512 ^ l" by (auto simp: part_def)
  have m: "index mod 512 ^ l < (512 ^ l :: nat)" by simp
  have "index + nb \<le> e" using slot_arith(1) [OF assms(1-3)] eq(2) m by linarith
  show ?thesis
  proof (cases "e \<le> index + nb")
    case True
    then have "512 ^ l \<le> index mod 512 ^ l + nb" using slot_arith(1) [OF assms(1-3)] m by linarith
    then show ?thesis using eq(1) True assms(4) by (auto simp: slots_cost_def slot_cost_def entry_cost_def)
  qed (use eq(1) assms(4) in \<open>auto simp: slots_cost_def slot_cost_def entry_cost_def\<close>)
qed

lemma part_rest:
  assumes "index div 512 ^ l = b * 512 + j" "j < 512" "e = (b + 1) * 512 ^ Suc l"
  shows "part l index nb + min (nb - part l index nb) (e - (index + part l index nb)) = min nb (e - index)"
proof -
  have m: "index mod 512 ^ l < (512 ^ l :: nat)" by simp
  then have "part l index nb \<le> e - index" "part l index nb \<le> nb" using slot_arith(1) [OF assms] by (simp_all add: part_def)
  then show ?thesis by linarith
qed

lemma roomy_step: "roomy d c \<Longrightarrow> nodes_nb d' \<le> nodes_nb d + c' \<Longrightarrow> d_rest d' = d_rest d \<Longrightarrow> c' + c'' \<le> c \<Longrightarrow> roomy d' c''"
  by (simp add: roomy_def d_rest_def)

definition slots_fill :: "(dispatch \<Rightarrow> entry_loc \<Rightarrow> nat \<Rightarrow> nat \<Rightarrow> (dispatch \<times> nat \<times> nat) option) \<Rightarrow> nat \<Rightarrow> nat \<Rightarrow> nat
    \<Rightarrow> nat \<Rightarrow> nat \<Rightarrow> nat \<Rightarrow> dispatch \<Rightarrow> nat \<Rightarrow> nat \<Rightarrow> bool" where
  "slots_fill rec l b p leaf e k d index nb \<longleftrightarrow> (\<exists>d'. set_slots rec (512 ^ l) leaf p k d index nb
       = Some (d', index + min nb (e - index), nb - min nb (e - index))
     \<and> node_filled l b p leaf d index (min nb (e - index)) d' \<and> nodes_nb d' \<le> nodes_nb d + slots_cost l e index nb)"

lemma slots_fill_none: "nb = 0 \<or> k = 0 \<and> index = e \<Longrightarrow> node_ok l (d_nodes d) (nodes_nb d) p \<Longrightarrow> slots_fill rec l b p leaf e k d index nb"
  by (auto simp: slots_fill_def node_filled_refl)

lemma slots_fill_Suc:
  assumes i: "index div 512 ^ l = b * 512 + (512 - Suc k)" "512 - Suc k < 512" "e = (b + 1) * 512 ^ Suc l" "0 < nb"
    and d1: "slot_step rec (512 ^ l) leaf p (512 - Suc k) d index nb = Some (d1, index + part l index nb, nb - part l index nb)"
      "node_filled l b p leaf d index (part l index nb) d1" "nodes_nb d1 \<le> nodes_nb d + slot_cost l index nb"
    and fill: "slots_fill rec l b p leaf e k d1 (index + part l index nb) (nb - part l index nb)"
  shows "slots_fill rec l b p leaf e (Suc k) d index nb"
proof -
  let ?pt = "part l index nb"
  note rest = part_rest [OF i(1-3), of nb]
  from fill obtain d2 where d2: "set_slots rec (512 ^ l) leaf p k d1 (index + ?pt) (nb - ?pt)
        = Some (d2, index + ?pt + min (nb - ?pt) (e - (index + ?pt)), nb - ?pt - min (nb - ?pt) (e - (index + ?pt)))"
      "node_filled l b p leaf d1 (index + ?pt) (min (nb - ?pt) (e - (index + ?pt))) d2"
      "nodes_nb d2 \<le> nodes_nb d1 + slots_cost l e (index + ?pt) (nb - ?pt)" unfolding slots_fill_def by blast
  have "set_slots rec (512 ^ l) leaf p (Suc k) d index nb = Some (d2, index + min nb (e - index), nb - min nb (e - index))"
    using d1(1) d2(1) rest i(4) by (simp add: set_slots_step add.assoc del: set_slots.simps)
  moreover have "node_filled l b p leaf d index (min nb (e - index)) d2"
    using node_filled_trans [OF d1(2) d2(2)] unfolding rest .
  moreover have "nodes_nb d2 \<le> nodes_nb d + slots_cost l e index nb"
    using d1(3) d2(3) slot_cost_sum [OF i] by linarith
  ultimately show ?thesis unfolding slots_fill_def by blast
qed

lemma block_up: "index div 512 ^ l = b * 512 + j \<Longrightarrow> j < 512 \<Longrightarrow> index div 512 ^ Suc l = (b::nat)"
  by (simp add: div_mult2_eq mult.commute [of 512])

lemma set_slots_fills:
  assumes rec: "rec_fills rec l b p leaf" and lf: "0 < leaf" "leaf < 2 ^ 16" and e: "e = (b + 1) * 512 ^ Suc l"
  shows "node_ok l (d_nodes d) (nodes_nb d) p \<Longrightarrow> k \<le> 512
    \<Longrightarrow> (if k = 0 then index = e else index div 512 ^ l = b * 512 + (512 - k))
    \<Longrightarrow> \<forall>x. index \<le> x \<and> x < index + min nb (e - index) \<longrightarrow> node_look l (d_nodes d) p x = 0
    \<Longrightarrow> roomy d (slots_cost l e index nb) \<Longrightarrow> slots_fill rec l b p leaf e k d index nb"
proof (induction k arbitrary: d index nb)
  case 0
  then show ?case by (simp add: slots_fill_none)
next
  case (Suc k)
  let ?j = "512 - Suc k" and ?pt = "part l index nb"
  show ?case
  proof (cases "nb = 0")
    case True
    then show ?thesis using Suc.prems(1) by (simp add: slots_fill_none)
  next
    case False
    have j: "?j < 512" and i: "index div 512 ^ l = b * 512 + ?j" and sj: "Suc ?j = 512 - k" using Suc.prems(2,3) by simp_all
    note rest = part_rest [OF i j e, of nb]
    have cost: "slot_cost l index nb + slots_cost l e (index + ?pt) (nb - ?pt) \<le> slots_cost l e index nb"
      by (rule slot_cost_sum [OF i j e]) (use False in simp)
    have "\<forall>x. index \<le> x \<and> x < index + ?pt \<longrightarrow> node_look l (d_nodes d) p x = 0" using Suc.prems(4) rest by auto
    moreover have "roomy d (slot_cost l index nb)" by (rule roomy_step [OF Suc.prems(5), of d 0]) (use cost in simp_all)
    ultimately obtain d1 where d1: "slot_step rec (512 ^ l) leaf p ?j d index nb = Some (d1, index + ?pt, nb - ?pt)"
      "node_filled l b p leaf d index ?pt d1" "nodes_nb d1 \<le> nodes_nb d + slot_cost l index nb"
      using slot_step_fills [OF rec lf Suc.prems(1) j i] False by blast
    note f = node_filledD [OF d1(2)]
    have "slots_fill rec l b p leaf e k d1 (index + ?pt) (nb - ?pt)"
    proof (cases "?pt < nb")
      case True
      note n = slot_next [OF i j e True, unfolded sj]
      have "b * 512 ^ Suc l \<le> index" using block_bounds [OF block_up [OF i j]] by simp
      then have "node_look l (d_nodes d1) p x = 0" if "index + ?pt \<le> x" "x < index + ?pt + min (nb - ?pt) (e - (index + ?pt))" for x
        using f(7) [OF block_eqI [of b _ x]] Suc.prems(4) rest that e by auto
      moreover have "if k = 0 then index + ?pt = e else (index + ?pt) div 512 ^ l = b * 512 + (512 - k)"
        using n(2,3) e by (simp add: algebra_simps)
      ultimately show ?thesis
        using Suc.prems(2) roomy_step [OF Suc.prems(5) d1(3) f(6) cost] by (intro Suc.IH [OF f(1)]) simp_all
    qed (use f(1) in \<open>simp add: slots_fill_none\<close>)
    then show ?thesis using slots_fill_Suc [OF i j e _ d1] False by simp
  qed
qed

section \<open>One level\<close>

text \<open>The location of the entry lies outside the subtree of the entry.\<close>

fun loc_ok :: "nat \<Rightarrow> dispatch \<Rightarrow> entry_loc \<Rightarrow> bool" where
  "loc_ok l d Root \<longleftrightarrow> True"
| "loc_ok l d (Slot q i) \<longleftrightarrow> q < nodes_nb d \<and> q \<notin> reach l (d_nodes d) (d_nodes d q i)"

lemma entry_filledI:
  assumes "tree l (d_nodes d') (nodes_nb d') (get_entry d' lp)" "nodes_nb d \<le> nodes_nb d'"
    "reach l (d_nodes d') (get_entry d' lp) \<subseteq> reach l (d_nodes d) (get_entry d lp) \<union> {nodes_nb d..<nodes_nb d'}"
    "\<And>q i. q < nodes_nb d \<Longrightarrow> q \<notin> reach l (d_nodes d) (get_entry d lp) \<Longrightarrow> lp \<noteq> Slot q i \<Longrightarrow> d_nodes d' q i = d_nodes d q i"
    "lp \<noteq> Root \<Longrightarrow> phys_map d' = phys_map d" "d_rest d' = d_rest d"
    "\<And>x. x div 512 ^ l = b \<Longrightarrow> look l (d_nodes d') (get_entry d' lp) x
          = (if index \<le> x \<and> x < index + m then leaf else look l (d_nodes d) (get_entry d lp) x)"
  shows "entry_filled l b lp leaf d index m d'"
  using assms unfolding entry_filled_def by blast

lemma entry_filled_trans:
  assumes "entry_filled l b lp leaf d index m d'" "entry_filled l b lp leaf d' (index + m) m' d''"
  shows "entry_filled l b lp leaf d index (m + m') d''"
proof (rule entry_filledI)
  note f = entry_filledD [OF assms(1)] and g = entry_filledD [OF assms(2)]
  show "tree l (d_nodes d'') (nodes_nb d'') (get_entry d'' lp)" by (rule g(1))
  show "nodes_nb d \<le> nodes_nb d''" using f(2) g(2) by (rule le_trans)
  show "reach l (d_nodes d'') (get_entry d'' lp) \<subseteq> reach l (d_nodes d) (get_entry d lp) \<union> {nodes_nb d..<nodes_nb d''}"
    by (rule fresh_trans [OF g(3) f(3) f(2) g(2)])
  show "phys_map d'' = phys_map d" if "lp \<noteq> Root" using f(5) g(5) that by simp
  show "d_rest d'' = d_rest d" using f(6) g(6) by simp
  show "d_nodes d'' q i = d_nodes d q i" if q: "q < nodes_nb d" "q \<notin> reach l (d_nodes d) (get_entry d lp)" "lp \<noteq> Slot q i" for q i
  proof -
    have "q \<notin> {nodes_nb d..<nodes_nb d'}" using q(1) by simp
    then have "q \<notin> reach l (d_nodes d') (get_entry d' lp)" using f(3) q(2) by blast
    then show ?thesis using f(4) [OF q] g(4) [of q i] q(1,3) f(2) by simp
  qed
  show "look l (d_nodes d'') (get_entry d'' lp) x = (if index \<le> x \<and> x < index + (m + m') then leaf else look l (d_nodes d) (get_entry d lp) x)"
    if "x div 512 ^ l = b" for x
    unfolding g(7) [OF that] f(7) [OF that] by auto
qed

lemma loc_ok_filled: "entry_filled l b lp leaf d index m d' \<Longrightarrow> loc_ok l d lp \<Longrightarrow> loc_ok l d' lp"
  using entry_filledD(2,3) [of l b lp leaf d index m d'] by (cases lp) fastforce+

lemma node_entry_filled:
  assumes f: "node_filled l b (pe_ptr (get_entry d lp)) leaf d index m d'"
    and e: "pe_skip (get_entry d lp) = 1" "\<not> is_nil (get_entry d lp)" and lp: "loc_ok (Suc l) d lp"
  shows "entry_filled (Suc l) b lp leaf d index m d'" "get_entry d' lp = get_entry d lp"
proof -
  note f = node_filledD [OF f]
  show same: "get_entry d' lp = get_entry d lp"
  proof (cases lp)
    case (Slot q i)
    then have "q \<notin> below l (d_nodes d) (pe_ptr (get_entry d lp))" "q \<noteq> pe_ptr (get_entry d lp)" "q < nodes_nb d"
      using lp e by auto
    then show ?thesis using f(4) Slot by simp
  qed (use f(5) in simp)
  show "entry_filled (Suc l) b lp leaf d index m d'"
  proof (rule entry_filledI)
    show "tree (Suc l) (d_nodes d') (nodes_nb d') (get_entry d' lp)" unfolding same using f(1) e by (simp add: tree_Suc)
    show "reach (Suc l) (d_nodes d') (get_entry d' lp) \<subseteq> reach (Suc l) (d_nodes d) (get_entry d lp) \<union> {nodes_nb d..<nodes_nb d'}"
      unfolding same using f(3) e by auto
    show "d_nodes d' q i = d_nodes d q i" if "q < nodes_nb d" "q \<notin> reach (Suc l) (d_nodes d) (get_entry d lp)" for q i
      using f(4) that e by simp
    show "look (Suc l) (d_nodes d') (get_entry d' lp) x
        = (if index \<le> x \<and> x < index + m then leaf else look (Suc l) (d_nodes d) (get_entry d lp) x)" if "x div 512 ^ Suc l = b" for x
      unfolding same using f(7) [OF that] e by simp
  qed (use f in simp_all)
qed

text \<open>A new node is empty.\<close>

definition new_node :: "dispatch \<Rightarrow> entry_loc \<Rightarrow> bool \<Rightarrow> dispatch option" where
  "new_node d lp leaf = map_option (\<lambda>(d', n). set_entry d' lp (page_entry (pe_skip (get_entry d lp)) n)) (phys_map_node_alloc d leaf)"

lemma new_node_filled:
  assumes e: "pe_skip (get_entry d lp) = 1" "is_nil (get_entry d lp)" and lp: "loc_ok (Suc l) d lp" and r: "roomy d (Suc c)"
  shows "\<exists>d'. new_node d lp (l = 0) = Some d' \<and> entry_filled (Suc l) b lp leaf d index 0 d' \<and> nodes_nb d' = Suc (nodes_nb d)
    \<and> pe_skip (get_entry d' lp) = 1 \<and> \<not> is_nil (get_entry d' lp)"
proof -
  define n where "n = nodes_nb d"
  define x where "x = page_entry (if l = 0 then 0 else 1) (if l = 0 then 0 else PHYS_MAP_NODE_NIL)"
  define d' where "d' = set_entry (d\<lparr>nodes_nb := n + 1, d_nodes := (d_nodes d)(n := (\<lambda>i. if i < 512 then x else d_nodes d n i))\<rparr>)
    lp (page_entry 1 n)"
  have n: "n < PHYS_MAP_NODE_NIL" "n < nodes_nb_alloc d" using r by (simp_all add: roomy_def n_def)
  then have al: "new_node d lp (l = 0) = Some d'"
    using e(1) by (simp add: new_node_def phys_map_node_alloc_def Let_def d'_def x_def n_def cong: if_cong)
  have en: "page_entry 1 n = \<lparr>pe_skip = 1, pe_ptr = n\<rparr>" using n(1) by (simp add: page_entry_def PHYS_MAP_NODE_NIL_def)
  have ge: "get_entry d' lp = page_entry 1 n" by (cases lp) (simp_all add: d'_def)
  have nn: "d_nodes d' n i = x" if "i < 512" for i using that lp by (cases lp) (auto simp: d'_def n_def)
  have re: "reach l (d_nodes d') x = {}" and tr: "tree l (d_nodes d') (Suc n) x" and lk: "look l (d_nodes d') x y = 0" for y
    by (cases l; simp add: x_def page_entry_def PHYS_MAP_NODE_NIL_def tree_Suc)+
  have nb: "nodes_nb d' = Suc n" by (cases lp) (simp_all add: d'_def)
  have "entry_filled (Suc l) b lp leaf d index 0 d'"
  proof (rule entry_filledI)
    show "tree (Suc l) (d_nodes d') (nodes_nb d') (get_entry d' lp)"
      unfolding ge en tree_Suc node_ok_def using re tr nn nb by simp
    show "reach (Suc l) (d_nodes d') (get_entry d' lp) \<subseteq> reach (Suc l) (d_nodes d) (get_entry d lp) \<union> {nodes_nb d..<nodes_nb d'}"
      unfolding ge en using re nn nb by (auto simp: n_def)
    show "d_nodes d' q i = d_nodes d q i" if "q < nodes_nb d" "lp \<noteq> Slot q i" for q i
      using that by (cases lp) (auto simp: d'_def n_def)
    show "phys_map d' = phys_map d" if "lp \<noteq> Root" using that by (cases lp) (auto simp: d'_def)
    show "d_rest d' = d_rest d" by (cases lp) (auto simp: d'_def d_rest_def)
    show "look (Suc l) (d_nodes d') (get_entry d' lp) y
        = (if index \<le> y \<and> y < index + 0 then leaf else look (Suc l) (d_nodes d) (get_entry d lp) y)" for y
      unfolding ge en using e lk nn n(1) by simp
  qed (simp add: nb n_def)
  then show ?thesis using al nb ge en n(1) by (simp add: n_def)
qed

lemma pow512: "2 ^ (l * 9) = (512 ^ l :: nat)"
  by (simp add: power_mult mult.commute [of l])

lemma set_level_body_eq:
  assumes "pe_skip (get_entry d lp) \<noteq> 0"
  shows "set_level_body rec l leaf d lp index nb
    = (case (if is_nil (get_entry d lp) then new_node d lp (l = 0) else Some d) of None \<Rightarrow> None
       | Some d' \<Rightarrow> if pe_ptr (get_entry d' lp) < nodes_nb d'
           then set_slots rec (512 ^ l) leaf (pe_ptr (get_entry d' lp)) (512 - index div 512 ^ l mod 512) d' index nb else None)"
  using assms by (simp add: set_level_body_def new_node_def pow512 Let_def split: option.split)

definition fills :: "(dispatch \<Rightarrow> entry_loc \<Rightarrow> nat \<Rightarrow> nat \<Rightarrow> (dispatch \<times> nat \<times> nat) option) \<Rightarrow> nat \<Rightarrow> nat \<Rightarrow> dispatch
    \<Rightarrow> entry_loc \<Rightarrow> nat \<Rightarrow> nat \<Rightarrow> bool" where
  "fills f l leaf d lp index nb \<longleftrightarrow> (\<exists>d'. f d lp index nb = Some (d', index + part l index nb, nb - part l index nb)
     \<and> entry_filled l (index div 512 ^ l) lp leaf d index (part l index nb) d' \<and> nodes_nb d' \<le> nodes_nb d + entry_cost l index nb
     \<and> pe_skip (get_entry d' lp) = 1)"

lemma slots_cost_entry: "0 < nb \<Longrightarrow> slots_cost l ((index div 512 ^ Suc l + 1) * 512 ^ Suc l) index nb < entry_cost (Suc l) index nb"
proof -
  assume "0 < nb"
  have d: "index = index div 512 ^ Suc l * 512 ^ Suc l + index mod 512 ^ Suc l" by (rule div_mult_mod_eq [symmetric])
  have "index mod 512 ^ l = 0" if "index mod 512 ^ Suc l = 0"
    using that by (metis dvd_eq_mod_eq_0 dvd_trans le_imp_power_dvd lessI less_imp_le)
  moreover have "(index div 512 ^ Suc l + 1) * 512 ^ Suc l \<le> index + nb \<longleftrightarrow> 512 ^ Suc l \<le> index mod 512 ^ Suc l + nb"
    by (subst (2) d) (simp add: algebra_simps)
  ultimately show ?thesis using \<open>0 < nb\<close> by (auto simp: slots_cost_def entry_cost_def)
qed

text \<open>The body fills the entry when it has a node.\<close>

lemma set_level_node:
  assumes rec: "rec_fills rec l (index div 512 ^ Suc l) (pe_ptr (get_entry d lp)) leaf" and lf: "0 < leaf" "leaf < 2 ^ 16"
    and e: "tree (Suc l) (d_nodes d) (nodes_nb d) (get_entry d lp)" "pe_skip (get_entry d lp) = 1" "\<not> is_nil (get_entry d lp)"
    and lp: "loc_ok (Suc l) d lp" and nb: "0 < nb"
    and un: "\<forall>x. index \<le> x \<and> x < index + part (Suc l) index nb \<longrightarrow> look (Suc l) (d_nodes d) (get_entry d lp) x = 0"
    and ro: "roomy d (entry_cost (Suc l) index nb - 1)"
  shows "\<exists>d'. set_level_body rec l leaf d lp index nb = Some (d', index + part (Suc l) index nb, nb - part (Suc l) index nb)
     \<and> entry_filled (Suc l) (index div 512 ^ Suc l) lp leaf d index (part (Suc l) index nb) d'
     \<and> nodes_nb d' \<le> nodes_nb d + (entry_cost (Suc l) index nb - 1) \<and> pe_skip (get_entry d' lp) = 1"
proof -
  let ?b = "index div 512 ^ Suc l" and ?p = "pe_ptr (get_entry d lp)"
  define en where "en = (?b + 1) * 512 ^ Suc l"
  have ok: "node_ok l (d_nodes d) (nodes_nb d) ?p" using e by (simp add: tree_Suc)
  then have pl: "?p < nodes_nb d" by (simp add: node_ok_def)
  have m: "index mod 512 ^ Suc l < (512 ^ Suc l :: nat)" by simp
  have "index = ?b * 512 ^ Suc l + index mod 512 ^ Suc l" by (rule div_mult_mod_eq [symmetric])
  then have "en - index = 512 ^ Suc l - index mod 512 ^ Suc l" unfolding en_def add_mult_distrib using m by linarith
  then have pt: "min nb (en - index) = part (Suc l) index nb" by (simp add: part_def)
  have c: "slots_cost l en index nb \<le> entry_cost (Suc l) index nb - 1" using slots_cost_entry [OF nb] unfolding en_def by (metis Suc_pred' less_Suc_eq_le not_less_zero zero_less_iff_neq_zero)
  have i: "index div 512 ^ l = ?b * 512 + index div 512 ^ l mod 512"
    using div_mult_mod_eq [of "index div 512 ^ l" 512] by (simp add: div_mult2_eq mult.commute [of 512])
  have "index div 512 ^ l mod 512 < 512" by simp
  then have ne: "512 - index div 512 ^ l mod 512 \<noteq> 0" "512 - (512 - index div 512 ^ l mod 512) = index div 512 ^ l mod 512"
    by linarith+
  have "slots_fill rec l ?b ?p leaf en (512 - index div 512 ^ l mod 512) d index nb"
  proof (rule set_slots_fills [OF rec lf en_def ok])
    show "if 512 - index div 512 ^ l mod 512 = 0 then index = en else index div 512 ^ l = ?b * 512 + (512 - (512 - index div 512 ^ l mod 512))"
      using i ne by (simp only: if_False)
    show "\<forall>x. index \<le> x \<and> x < index + min nb (en - index) \<longrightarrow> node_look l (d_nodes d) ?p x = 0" using un e unfolding pt by simp
    show "roomy d (slots_cost l en index nb)" by (rule roomy_step [OF ro, of d 0]) (use c in simp_all)
  qed simp
  then obtain d' where d': "set_slots rec (512 ^ l) leaf ?p (512 - index div 512 ^ l mod 512) d index nb
      = Some (d', index + part (Suc l) index nb, nb - part (Suc l) index nb)"
    "node_filled l ?b ?p leaf d index (part (Suc l) index nb) d'" "nodes_nb d' \<le> nodes_nb d + slots_cost l en index nb"
    unfolding slots_fill_def pt by blast
  show ?thesis using d'(1,3) node_entry_filled [OF d'(2) e(2,3) lp] c e pl by (auto simp: set_level_body_eq)
qed

text \<open>The body fills the entry, with a new node if need be.\<close>

lemma set_level_body_fills:
  assumes rec: "\<And>p. rec_fills rec l (index div 512 ^ Suc l) p leaf" and lf: "0 < leaf" "leaf < 2 ^ 16"
    and e: "tree (Suc l) (d_nodes d) (nodes_nb d) (get_entry d lp)" "pe_skip (get_entry d lp) = 1"
    and lp: "loc_ok (Suc l) d lp" and nb: "0 < nb"
    and un: "\<forall>x. index \<le> x \<and> x < index + part (Suc l) index nb \<longrightarrow> look (Suc l) (d_nodes d) (get_entry d lp) x = 0"
    and ro: "roomy d (entry_cost (Suc l) index nb)"
  shows "fills (set_level_body rec l leaf) (Suc l) leaf d lp index nb"
proof (cases "is_nil (get_entry d lp)")
  case False
  have "roomy d (entry_cost (Suc l) index nb - 1)" by (rule roomy_step [OF ro, of d 0]) simp_all
  from set_level_node [OF rec lf e False lp nb un this] show ?thesis unfolding fills_def by (meson add_left_mono diff_le_self le_trans)
next
  case True
  have c: "0 < entry_cost (Suc l) index nb" by (simp add: entry_cost_def)
  then have ro': "roomy d (Suc (entry_cost (Suc l) index nb - 1))" using ro by simp
  obtain d1 where d1: "new_node d lp (l = 0) = Some d1" "entry_filled (Suc l) (index div 512 ^ Suc l) lp leaf d index 0 d1"
    "nodes_nb d1 = Suc (nodes_nb d)" "pe_skip (get_entry d1 lp) = 1" "\<not> is_nil (get_entry d1 lp)"
    using new_node_filled [OF e(2) True lp ro'] by blast
  note f = entry_filledD [OF d1(2)]
  have "look (Suc l) (d_nodes d1) (get_entry d1 lp) x = 0" if "index \<le> x" "x < index + part (Suc l) index nb" for x
    using f(7) [OF part_in_block [OF that]] un that by simp
  moreover have "roomy d1 (entry_cost (Suc l) index nb - 1)"
    by (rule roomy_step [OF ro, of d1 1]) (use d1(3) f(6) in \<open>simp_all add: entry_cost_def\<close>)
  ultimately obtain d2 where d2: "set_level_body rec l leaf d1 lp index nb = Some (d2, index + part (Suc l) index nb, nb - part (Suc l) index nb)"
    "entry_filled (Suc l) (index div 512 ^ Suc l) lp leaf d1 index (part (Suc l) index nb) d2"
    "nodes_nb d2 \<le> nodes_nb d1 + (entry_cost (Suc l) index nb - 1)" "pe_skip (get_entry d2 lp) = 1"
    using set_level_node [OF rec lf f(1) d1(4,5) loc_ok_filled [OF d1(2) lp] nb] by blast
  have "set_level_body rec l leaf d lp index nb = set_level_body rec l leaf d1 lp index nb"
    using True d1(1,4,5) e(2) by (simp add: set_level_body_eq)
  moreover have "entry_filled (Suc l) (index div 512 ^ Suc l) lp leaf d index (part (Suc l) index nb) d2"
    using entry_filled_trans [OF d1(2), of "part (Suc l) index nb" d2] d2(2) by simp
  ultimately show ?thesis unfolding fills_def using d2(1,3,4) d1(3) c by auto
qed

lemma rec_fills_base: "rec_fills rec 0 b p leaf"
  by (auto simp: rec_fills_def)

lemma rec_fills_Suc:
  assumes "\<And>d lp index nb. tree (Suc l) (d_nodes d) (nodes_nb d) (get_entry d lp) \<Longrightarrow> pe_skip (get_entry d lp) = 1
      \<Longrightarrow> loc_ok (Suc l) d lp \<Longrightarrow> 0 < nb
      \<Longrightarrow> \<forall>x. index \<le> x \<and> x < index + part (Suc l) index nb \<longrightarrow> look (Suc l) (d_nodes d) (get_entry d lp) x = 0
      \<Longrightarrow> roomy d (entry_cost (Suc l) index nb) \<Longrightarrow> fills f (Suc l) leaf d lp index nb"
  shows "rec_fills f (Suc l) b p leaf"
  unfolding rec_fills_def
proof (intro allI impI, elim conjE)
  fix d j index nb
  assume ok: "node_ok (Suc l) (d_nodes d) (nodes_nb d) p" and j: "j < 512" "index div 512 ^ Suc l = b * 512 + j" and nb: "0 < nb"
    and un: "\<forall>x. index \<le> x \<and> x < index + part (Suc l) index nb \<longrightarrow> node_look (Suc l) (d_nodes d) p x = 0"
    and ro: "roomy d (entry_cost (Suc l) index nb)"
  have t: "tree (Suc l) (d_nodes d) (nodes_nb d) (d_nodes d p j)" "loc_ok (Suc l) d (Slot p j)"
    using ok j(1) unfolding node_ok_def by simp_all
  have un': "look (Suc l) (d_nodes d) (d_nodes d p j) x = 0" if "index \<le> x" "x < index + part (Suc l) index nb" for x
  proof -
    have "x div 512 ^ Suc l mod 512 = j" using part_in_block [OF that] j by simp
    then show ?thesis using un that by (metis (no_types))
  qed
  have "index mod 512 ^ Suc l < (512 ^ Suc l :: nat)" by simp
  then have "0 < part (Suc l) index nb" using nb by (simp add: part_def del: power_Suc)
  then have "look (Suc l) (d_nodes d) (d_nodes d p j) index = 0" using un' by simp
  then have "pe_skip (d_nodes d p j) = 1" using t(1) unfolding tree_Suc by (auto simp: look_leaf split: if_splits)
  then have "fills f (Suc l) leaf d (Slot p j) index nb" using assms [of d "Slot p j" nb index] t nb un' ro by simp
  then show "\<exists>d'. f d (Slot p j) index nb = Some (d', index + part (Suc l) index nb, nb - part (Suc l) index nb)
       \<and> entry_filled (Suc l) (b * 512 + j) (Slot p j) leaf d index (part (Suc l) index nb) d'
       \<and> nodes_nb d' \<le> nodes_nb d + entry_cost (Suc l) index nb"
    unfolding fills_def j(2) by blast
qed

lemma phys_page_set_level_fills:
  assumes lf: "0 < leaf" "leaf < 2 ^ 16"
  shows "tree (Suc l) (d_nodes d) (nodes_nb d) (get_entry d lp) \<Longrightarrow> pe_skip (get_entry d lp) = 1
      \<Longrightarrow> loc_ok (Suc l) d lp \<Longrightarrow> 0 < nb
      \<Longrightarrow> \<forall>x. index \<le> x \<and> x < index + part (Suc l) index nb \<longrightarrow> look (Suc l) (d_nodes d) (get_entry d lp) x = 0
      \<Longrightarrow> roomy d (entry_cost (Suc l) index nb) \<Longrightarrow> fills (phys_page_set_level l leaf) (Suc l) leaf d lp index nb"
proof (induction l arbitrary: d lp index nb)
  case 0
  then show ?case using set_level_body_fills [OF rec_fills_base lf] by simp
next
  case (Suc l)
  show ?case
    using set_level_body_fills [OF rec_fills_Suc [OF Suc.IH] lf] Suc.prems by simp
qed

section \<open>The whole map\<close>

definition map_ok :: "target_page \<Rightarrow> dispatch \<Rightarrow> bool" where
  "map_ok tp d \<longleftrightarrow> tree (P_L2_LEVELS tp) (d_nodes d) (nodes_nb d) (phys_map d) \<and> pe_skip (phys_map d) = 1"

definition page_section :: "target_page \<Rightarrow> dispatch \<Rightarrow> nat \<Rightarrow> nat" where
  "page_section tp d x = look (P_L2_LEVELS tp) (d_nodes d) (phys_map d) x"

definition pages :: "target_page \<Rightarrow> nat" where
  "pages tp = 512 ^ P_L2_LEVELS tp"

lemma levels_pos: "P_L2_LEVELS tp = Suc (P_L2_LEVELS tp - 1)"
  by (simp add: P_L2_LEVELS_def)

lemma phys_page_set_spec:
  assumes ok: "map_ok tp d" and lf: "0 < leaf" "leaf < 2 ^ 16" and r: "0 < nb" "index + nb \<le> pages tp"
    and un: "\<And>x. index \<le> x \<Longrightarrow> x < index + nb \<Longrightarrow> page_section tp d x = 0"
    and ro: "nodes_nb d + 2 * P_L2_LEVELS tp \<le> PHYS_MAP_NODE_NIL"
  shows "\<exists>d'. phys_page_set tp d index nb leaf = Some d' \<and> map_ok tp d' \<and> nodes_nb d' \<le> nodes_nb d + 2 * P_L2_LEVELS tp
    \<and> d_sections d' = d_sections d \<and> d_subpages d' = d_subpages d \<and> mru_section d' = mru_section d
    \<and> (\<forall>x<pages tp. page_section tp d' x = (if index \<le> x \<and> x < index + nb then leaf else page_section tp d x))"
proof -
  define L where "L = P_L2_LEVELS tp - 1"
  have L: "P_L2_LEVELS tp = Suc L" using levels_pos unfolding L_def .
  define d1 where "d1 = phys_map_node_reserve d (3 * P_L2_LEVELS tp)"
  have same: "d_nodes d1 = d_nodes d" "nodes_nb d1 = nodes_nb d" "phys_map d1 = phys_map d" "d_sections d1 = d_sections d"
    "d_subpages d1 = d_subpages d" "mru_section d1 = mru_section d" "nodes_nb d1 + 3 * P_L2_LEVELS tp \<le> nodes_nb_alloc d1"
    by (simp_all add: d1_def phys_map_node_reserve_def Let_def)
  have i: "index < 512 ^ Suc L" using r unfolding pages_def L by simp
  then have b: "index div 512 ^ Suc L = 0" "index mod 512 ^ Suc L = index" by (simp_all del: power_Suc)
  have p: "part (Suc L) index nb = nb" unfolding part_def b(2) using r(2) unfolding pages_def L by simp
  have c: "entry_cost (Suc L) index nb \<le> 2 * Suc L" by (simp add: entry_cost_def)
  have "roomy d1 (entry_cost (Suc L) index nb)" using same(2,7) ro c unfolding L by (simp add: roomy_def)
  moreover have "\<forall>x. index \<le> x \<and> x < index + part (Suc L) index nb \<longrightarrow> look (Suc L) (d_nodes d1) (get_entry d1 Root) x = 0"
    using un same unfolding p page_section_def L by simp
  ultimately have "fills (phys_page_set_level L leaf) (Suc L) leaf d1 Root index nb"
    using ok same r(1) unfolding map_ok_def L by (intro phys_page_set_level_fills [OF lf]) simp_all
  then obtain d' where d': "phys_page_set_level L leaf d1 Root index nb = Some (d', index + nb, nb - nb)"
    "entry_filled (Suc L) 0 Root leaf d1 index nb d'" "nodes_nb d' \<le> nodes_nb d1 + entry_cost (Suc L) index nb" "pe_skip (phys_map d') = 1"
    unfolding fills_def p b by auto
  note f = entry_filledD [OF d'(2)]
  have "phys_page_set tp d index nb leaf = Some d'" using d'(1) by (simp add: phys_page_set_def Let_def L d1_def)
  moreover have "page_section tp d' x = (if index \<le> x \<and> x < index + nb then leaf else page_section tp d x)" if "x < pages tp" for x
    using f(7) [of x] that same unfolding page_section_def pages_def L by simp
  ultimately show ?thesis using f(1,6) d'(3,4) c same unfolding map_ok_def L by (simp add: d_rest_def)
qed

end
