(* ===== verification/Phys_Compact.thy ===== *)
theory Phys_Compact
  imports Phys_Set
begin

text \<open>
  \<open>phys_page_find\<close> and \<open>phys_page_compact\<close>: the loop of the lookup reads the section of a page, and
  compaction, which drops comparisons of digits, still leads every assigned page to its section;
  an unassigned page may then lead to the section of another page.
\<close>

section \<open>The lookup loop\<close>

lemma find_leaf: "is_leaf e \<Longrightarrow> find_loop N e l x = Some (pe_ptr e)"
  by (subst find_loop.simps) simp

lemma find_nil: "pe_skip e \<noteq> 0 \<Longrightarrow> pe_skip e \<le> l \<Longrightarrow> is_nil e \<Longrightarrow> find_loop N e l x = None"
  by (subst find_loop.simps) simp

lemma find_node:
  "pe_skip e \<noteq> 0 \<Longrightarrow> pe_skip e \<le> l \<Longrightarrow> \<not> is_nil e
     \<Longrightarrow> find_loop N e l x = find_loop N (N (pe_ptr e) (x div 512 ^ (l - pe_skip e) mod 512)) (l - pe_skip e) x"
  by (subst find_loop.simps) (simp add: pow512)

lemma find_tree:
  "tree l N n e \<Longrightarrow> find_loop N e l x = None \<and> look l N e x = 0 \<or> find_loop N e l x = Some (look l N e x)"
proof (induction l arbitrary: e)
  case 0
  then show ?case by (simp add: find_leaf)
next
  case (Suc l)
  show ?case
  proof (cases "is_leaf e \<or> is_nil e")
    case True
    then show ?thesis using Suc.prems by (auto simp: find_leaf find_nil tree_Suc)
  next
    case False
    then have "tree l N n (N (pe_ptr e) (x div 512 ^ l mod 512))" "pe_skip e = 1"
      using Suc.prems by (simp_all add: tree_Suc node_ok_def)
    then show ?thesis using Suc.IH False by (simp add: find_node)
  qed
qed

text \<open>A set of nodes that the entries of its nodes do not leave.\<close>

definition inside :: "nat set \<Rightarrow> phys_page_entry \<Rightarrow> bool" where
  "inside R e \<longleftrightarrow> is_leaf e \<or> is_nil e \<or> pe_ptr e \<in> R"

definition closed :: "nat set \<Rightarrow> pnodes \<Rightarrow> bool" where
  "closed R N \<longleftrightarrow> (\<forall>q\<in>R. \<forall>i<512. inside R (N q i))"

lemma find_stop: "\<not> (pe_skip e \<noteq> 0 \<and> pe_skip e \<le> l) \<Longrightarrow> find_loop N e l x = Some (pe_ptr e)"
  by (subst find_loop.simps) (simp only: if_False)

lemma find_cong:
  assumes "closed R N" "\<forall>q\<in>R. N' q = N q" "inside R e"
  shows "find_loop N' e l x = find_loop N e l x"
  using assms(3)
proof (induction l arbitrary: e rule: less_induct)
  case (less l)
  consider "\<not> (pe_skip e \<noteq> 0 \<and> pe_skip e \<le> l)" | "pe_skip e \<noteq> 0" "pe_skip e \<le> l" "is_nil e"
    | "pe_skip e \<noteq> 0" "pe_skip e \<le> l" "\<not> is_nil e" by blast
  then show ?case
  proof cases
    case 3
    then have p: "pe_ptr e \<in> R" using less.prems by (simp add: inside_def)
    then have "inside R (N (pe_ptr e) (x div 512 ^ (l - pe_skip e) mod 512))" using assms(1) by (simp add: closed_def)
    then have "find_loop N' (N (pe_ptr e) (x div 512 ^ (l - pe_skip e) mod 512)) (l - pe_skip e) x
        = find_loop N (N (pe_ptr e) (x div 512 ^ (l - pe_skip e) mod 512)) (l - pe_skip e) x"
      using 3 by (intro less.IH) auto
    then show ?thesis using 3 p assms(2) by (simp add: find_node)
  qed (simp_all add: find_stop find_nil)
qed

section \<open>What compaction keeps\<close>

text \<open>
  An entry of height \<open>l\<close> leads the pages to the sections \<open>f\<close> gives them: an assigned page to its own,
  any other page nowhere or to the section of some page.
\<close>

definition leads :: "nat \<Rightarrow> nat set \<Rightarrow> pnodes \<Rightarrow> phys_page_entry \<Rightarrow> (nat \<Rightarrow> nat) \<Rightarrow> bool" where
  "leads l R N e f \<longleftrightarrow> closed R N \<and> inside R e \<and> pe_skip e \<le> l \<and> pe_ptr e \<le> PHYS_MAP_NODE_NIL
     \<and> (\<forall>x. (f x \<noteq> 0 \<longrightarrow> find_loop N e l x = Some (f x)) \<and> (\<forall>s. find_loop N e l x = Some s \<longrightarrow> s = 0 \<or> s \<in> range f))"

lemma leadsD:
  assumes "leads l R N e f"
  shows "closed R N" "inside R e" "pe_skip e \<le> l" "pe_ptr e \<le> PHYS_MAP_NODE_NIL"
    "\<And>x. f x \<noteq> 0 \<Longrightarrow> find_loop N e l x = Some (f x)"
    "\<And>x s. find_loop N e l x = Some s \<Longrightarrow> s = 0 \<or> s \<in> range f"
  using assms unfolding leads_def by blast+

lemma leads_cong:
  assumes "leads l R N e f" "\<forall>q\<in>R. N' q = N q"
  shows "leads l R N' e f"
proof -
  note h = leadsD [OF assms(1)]
  have "find_loop N' e l x = find_loop N e l x" for x by (rule find_cong [OF h(1) assms(2) h(2)])
  moreover have "closed R N'" using h(1) assms(2) by (simp add: closed_def)
  ultimately show ?thesis using assms(1) by (simp add: leads_def)
qed

lemma leads_leaf:
  assumes "is_leaf e" "pe_ptr e < 2 ^ 16"
  shows "leads l {} N e (look l N' e)"
  using assms by (auto simp: leads_def closed_def inside_def look_leaf find_leaf PHYS_MAP_NODE_NIL_def)

lemma leads_nil: "pe_skip e = 1 \<Longrightarrow> is_nil e \<Longrightarrow> leads (Suc l) {} N e (look (Suc l) N' e)"
  by (simp add: leads_def closed_def inside_def find_nil)

definition d_keep :: "dispatch \<Rightarrow> nat \<times> nat option \<times> phys_section list \<times> nat \<times> nat \<times> subpage list \<times> nat" where
  "d_keep d = (nodes_nb d, d_rest d)"

text \<open>The entry at \<open>lp\<close> was compacted from \<open>d\<close> to \<open>d'\<close>, within its subtree.\<close>

definition compacted :: "nat \<Rightarrow> dispatch \<Rightarrow> entry_loc \<Rightarrow> dispatch \<Rightarrow> bool" where
  "compacted l d lp d' \<longleftrightarrow>
     (\<forall>q i. q \<notin> reach l (d_nodes d) (get_entry d lp) \<and> lp \<noteq> Slot q i \<longrightarrow> d_nodes d' q i = d_nodes d q i)
     \<and> (lp \<noteq> Root \<longrightarrow> phys_map d' = phys_map d) \<and> d_keep d' = d_keep d
     \<and> leads l (reach l (d_nodes d) (get_entry d lp)) (d_nodes d') (get_entry d' lp) (look l (d_nodes d) (get_entry d lp))"

text \<open>The first \<open>j\<close> slots of node \<open>p\<close> were compacted from \<open>d\<close> to \<open>d'\<close>.\<close>

definition slots_done :: "nat \<Rightarrow> nat \<Rightarrow> dispatch \<Rightarrow> nat \<Rightarrow> dispatch \<Rightarrow> bool" where
  "slots_done l p d j d' \<longleftrightarrow>
     (\<forall>q. q \<notin> below l (d_nodes d) p \<and> q \<noteq> p \<longrightarrow> d_nodes d' q = d_nodes d q)
     \<and> phys_map d' = phys_map d \<and> d_keep d' = d_keep d
     \<and> (\<forall>i. j \<le> i \<longrightarrow> d_nodes d' p i = d_nodes d p i)
     \<and> (\<forall>i<512. j \<le> i \<longrightarrow> (\<forall>q\<in>reach l (d_nodes d) (d_nodes d p i). d_nodes d' q = d_nodes d q))
     \<and> (\<forall>i<j. leads l (reach l (d_nodes d) (d_nodes d p i)) (d_nodes d') (d_nodes d' p i) (look l (d_nodes d) (d_nodes d p i)))"

lemma slots_doneD:
  assumes "slots_done l p d j d'"
  shows "\<And>q. q \<notin> below l (d_nodes d) p \<Longrightarrow> q \<noteq> p \<Longrightarrow> d_nodes d' q = d_nodes d q" "phys_map d' = phys_map d" "d_keep d' = d_keep d"
    "\<And>i. j \<le> i \<Longrightarrow> d_nodes d' p i = d_nodes d p i"
    "\<And>i. i < 512 \<Longrightarrow> j \<le> i \<Longrightarrow> \<forall>q\<in>reach l (d_nodes d) (d_nodes d p i). d_nodes d' q = d_nodes d q"
    "\<And>i. i < j \<Longrightarrow> leads l (reach l (d_nodes d) (d_nodes d p i)) (d_nodes d') (d_nodes d' p i) (look l (d_nodes d) (d_nodes d p i))"
  using assms unfolding slots_done_def by blast+

lemma compactedD:
  assumes "compacted l d lp d'"
  shows "\<And>q i. q \<notin> reach l (d_nodes d) (get_entry d lp) \<Longrightarrow> lp \<noteq> Slot q i \<Longrightarrow> d_nodes d' q i = d_nodes d q i"
    "lp \<noteq> Root \<Longrightarrow> phys_map d' = phys_map d" "d_keep d' = d_keep d"
    "leads l (reach l (d_nodes d) (get_entry d lp)) (d_nodes d') (get_entry d' lp) (look l (d_nodes d) (get_entry d lp))"
  using assms unfolding compacted_def by blast+

lemma slots_done_keep:
  assumes s: "slots_done l p d j d'" and j: "j < 512"
    and g: "leads l (reach l (d_nodes d) (d_nodes d p j)) (d_nodes d') (d_nodes d p j) (look l (d_nodes d) (d_nodes d p j))"
  shows "slots_done l p d (Suc j) d'"
proof -
  note h = slots_doneD [OF s]
  have "leads l (reach l (d_nodes d) (d_nodes d p i)) (d_nodes d') (d_nodes d' p i) (look l (d_nodes d) (d_nodes d p i))" if "i < Suc j" for i
    using h(6) [of i] h(4) [of j] g that by (cases "i = j") simp_all
  then show ?thesis using h unfolding slots_done_def by simp
qed

lemma slots_done_compact:
  assumes ok: "node_ok l (d_nodes d) (nodes_nb d) p" and s: "slots_done l p d j d'" and j: "j < 512"
    and c: "compacted l d' (Slot p j) d''"
  shows "slots_done l p d (Suc j) d''"
proof -
  let ?N = "d_nodes d" and ?N' = "d_nodes d'" and ?N'' = "d_nodes d''"
  note h = slots_doneD [OF s]
  have e: "?N' p j = ?N p j" "reach l ?N' (?N p j) = reach l ?N (?N p j)" "look l ?N' (?N p j) = look l ?N (?N p j)"
    using h(4) reach_cong [OF h(5) [OF j]] look_cong [OF h(5) [OF j]] by (simp_all add: fun_eq_iff)
  note g = compactedD [OF c, simplified, unfolded e]
  have pj: "p \<notin> reach l ?N (?N p j)" using ok j by (simp add: node_ok_def)
  have dis: "reach l ?N (?N p i) \<inter> reach l ?N (?N p j) = {}" "p \<notin> reach l ?N (?N p i)" if "i < 512" "i \<noteq> j" for i
    using ok j that unfolding node_ok_def by blast+
  have q: "?N'' q = ?N' q" if "q \<notin> reach l ?N (?N p j)" "q \<noteq> p" for q using g(1) that by (simp add: fun_eq_iff)
  have qi: "\<forall>q\<in>reach l ?N (?N p i). ?N'' q = ?N' q" if "i < 512" "i \<noteq> j" for i using q dis [OF that] by blast
  have pi: "?N'' p i = ?N' p i" if "i \<noteq> j" for i using g(1) [OF pj] that by simp
  have "leads l (reach l ?N (?N p i)) ?N'' (?N'' p i) (look l ?N (?N p i))" if i: "i < Suc j" for i
  proof (cases "i = j")
    case False
    then show ?thesis using leads_cong [OF h(6) qi] pi i j by simp
  qed (use g(4) in simp)
  moreover have "?N'' q = ?N q" if "q \<notin> below l ?N p" "q \<noteq> p" for q using q h(1) that j by auto
  moreover have "\<forall>q\<in>reach l ?N (?N p i). ?N'' q = ?N q" if "i < 512" "Suc j \<le> i" for i using qi [of i] h(5) [of i] that by simp
  ultimately show ?thesis using g(2,3) h(2,3,4) pi unfolding slots_done_def by simp
qed

section \<open>The loop over the slots\<close>

definition count_ok :: "nat \<Rightarrow> dispatch \<Rightarrow> nat \<Rightarrow> nat \<Rightarrow> nat \<Rightarrow> bool" where
  "count_ok p d j valid vp \<longleftrightarrow> (valid = 0 \<longrightarrow> (\<forall>i<j. is_nil (d_nodes d p i)))
     \<and> (valid = 1 \<longrightarrow> vp < j \<and> (\<forall>i<j. i \<noteq> vp \<longrightarrow> is_nil (d_nodes d p i)))"

definition compacts :: "(dispatch \<Rightarrow> entry_loc \<Rightarrow> dispatch option) \<Rightarrow> nat \<Rightarrow> bool" where
  "compacts f l \<longleftrightarrow> (\<forall>d lp. tree l (d_nodes d) (nodes_nb d) (get_entry d lp) \<and> pe_skip (get_entry d lp) = 1
     \<and> loc_ok l d lp \<and> nodes_nb d \<le> PHYS_MAP_NODE_NIL \<longrightarrow> (\<exists>d'. f d lp = Some d' \<and> compacted l d lp d'))"

lemma tree_skip: "tree l N n e \<Longrightarrow> pe_skip e \<noteq> 0 \<Longrightarrow> pe_skip e = 1"
  by (cases l) (simp_all add: tree_Suc)

lemma compact_slot:
  assumes ok: "node_ok l (d_nodes d) (nodes_nb d) p" and n: "nodes_nb d \<le> PHYS_MAP_NODE_NIL" and rec: "compacts rec l"
    and s: "slots_done l p d j d'" and j: "j < 512"
  shows "is_nil (d_nodes d p j) \<Longrightarrow> slots_done l p d (Suc j) d'"
    and "\<not> is_nil (d_nodes d p j) \<Longrightarrow> \<exists>d''. (if pe_skip (d_nodes d p j) \<noteq> 0 then rec d' (Slot p j) else Some d') = Some d''
      \<and> slots_done l p d (Suc j) d''"
proof -
  note h = slots_doneD [OF s]
  let ?e = "d_nodes d p j"
  have e: "d_nodes d' p j = ?e" using h(4) by simp
  have t: "tree l (d_nodes d) (nodes_nb d) ?e" "p \<notin> reach l (d_nodes d) ?e" "p < nodes_nb d" using ok j by (simp_all add: node_ok_def)
  have nb: "nodes_nb d' = nodes_nb d" using h(3) by (simp add: d_keep_def)
  have leaf: "slots_done l p d (Suc j) d'" if "is_leaf ?e"
    using slots_done_keep [OF s j] leads_leaf [OF that] t(1) that reach_leaf [OF that] by (cases l) (auto simp: tree_Suc)
  show "slots_done l p d (Suc j) d'" if nil: "is_nil ?e"
  proof (cases "is_leaf ?e")
    case False
    then obtain k where k: "l = Suc k" using t(1) by (cases l) simp_all
    have "reach l (d_nodes d) ?e = {}" using nil by (simp add: k)
    then show ?thesis using slots_done_keep [OF s j] leads_nil [OF tree_skip [OF t(1) False] nil] by (simp add: k)
  qed (rule leaf)
  show "\<exists>d''. (if pe_skip ?e \<noteq> 0 then rec d' (Slot p j) else Some d') = Some d'' \<and> slots_done l p d (Suc j) d''"
  proof (cases "is_leaf ?e")
    case False
    have "tree l (d_nodes d') (nodes_nb d') ?e" using tree_cong [OF t(1) h(5) [OF j]] nb by simp
    moreover have "loc_ok l d' (Slot p j)" using t(2,3) nb e reach_cong [OF h(5) [OF j]] by simp
    ultimately obtain d'' where "rec d' (Slot p j) = Some d''" "compacted l d' (Slot p j) d''"
      using rec n nb e tree_skip [OF t(1) False] unfolding compacts_def by (metis get_entry.simps(2))
    then show ?thesis using slots_done_compact [OF ok s j] False by simp
  qed (use leaf in simp)
qed

lemma compact_slots_done:
  assumes ok: "node_ok l (d_nodes d) (nodes_nb d) p" and n: "nodes_nb d \<le> PHYS_MAP_NODE_NIL" and rec: "compacts rec l"
  shows "k \<le> 512 \<Longrightarrow> slots_done l p d (512 - k) d' \<Longrightarrow> count_ok p d (512 - k) valid vp
    \<Longrightarrow> \<exists>d'' valid' vp'. compact_slots rec p k d' valid vp = Some (d'', valid', vp')
      \<and> slots_done l p d 512 d'' \<and> count_ok p d 512 valid' vp'"
proof (induction k arbitrary: d' valid vp)
  case (Suc k)
  let ?j = "512 - Suc k"
  have j: "?j < 512" and sj: "512 - k = Suc ?j" using Suc.prems(1) by simp_all
  note st = compact_slot [OF ok n rec Suc.prems(2) j]
  have e: "d_nodes d' p ?j = d_nodes d p ?j" using slots_doneD(4) [OF Suc.prems(2)] by simp
  show ?case
  proof (cases "is_nil (d_nodes d p ?j)")
    case True
    have "count_ok p d (512 - k) valid vp"
      using Suc.prems(3) True unfolding sj count_ok_def by (auto simp: less_Suc_eq)
    then show ?thesis using Suc.IH [of d' valid vp] st(1) [OF True] Suc.prems(1) True e sj by (simp add: Let_def)
  next
    case False
    obtain d'' where d'': "(if pe_skip (d_nodes d p ?j) \<noteq> 0 then rec d' (Slot p ?j) else Some d') = Some d''"
      "slots_done l p d (Suc ?j) d''" using st(2) [OF False] by blast
    have "count_ok p d (512 - k) (valid + 1) ?j"
      using Suc.prems(3) unfolding sj count_ok_def by (auto simp: less_Suc_eq)
    moreover have "compact_slots rec p (Suc k) d' valid vp = compact_slots rec p k d'' (valid + 1) ?j"
      by (simp only: compact_slots.simps Let_def e d''(1) False if_False option.case)
    ultimately show ?thesis using Suc.IH [of d'' "valid + 1" ?j] d''(2) Suc.prems(1) unfolding sj by simp
  qed
qed auto

section \<open>One entry\<close>

lemma look_range:
  assumes "pe_skip e \<noteq> 0" "\<not> is_nil e" "i < 512"
  shows "range (look l N (N (pe_ptr e) i)) \<subseteq> range (look (Suc l) N e)"
proof (rule image_subsetI)
  fix y
  let ?y = "i * 512 ^ l + y mod 512 ^ l"
  have "?y div 512 ^ l mod 512 = i" "?y mod 512 ^ l = y mod 512 ^ l" using assms(3) by simp_all
  then have "look (Suc l) N e ?y = look l N (N (pe_ptr e) i) ?y" using assms(1,2) by simp
  also have "\<dots> = look l N (N (pe_ptr e) i) y" by (metis look_mod \<open>?y mod 512 ^ l = y mod 512 ^ l\<close>)
  finally show "look l N (N (pe_ptr e) i) y \<in> range (look (Suc l) N e)" by (metis rangeI)
qed

text \<open>The entry of a node whose slots are all done leads like the entry before; so does the one that skips the node.\<close>

lemma leads_node:
  assumes ok: "node_ok l (d_nodes d) (nodes_nb d) p" and n: "nodes_nb d \<le> PHYS_MAP_NODE_NIL" and s: "slots_done l p d 512 d'"
    and e: "pe_skip e = 1" "pe_ptr e = p"
  shows "leads (Suc l) (reach (Suc l) (d_nodes d) e) (d_nodes d') e (look (Suc l) (d_nodes d) e)"
proof -
  let ?N = "d_nodes d" and ?N' = "d_nodes d'"
  have p: "p < PHYS_MAP_NODE_NIL" using ok n by (simp add: node_ok_def)
  have R: "reach (Suc l) ?N e = insert p (below l ?N p)" using e p by simp
  have h: "leads l (reach l ?N (?N p i)) ?N' (?N' p i) (look l ?N (?N p i))" if "i < 512" for i using slots_doneD(6) [OF s that] .
  have "inside (insert p (below l ?N p)) (?N' q i)" if q: "q \<in> insert p (below l ?N p)" and i: "i < 512" for q i
  proof (cases "q = p")
    case True
    then show ?thesis using leadsD(2) [OF h [OF i]] i by (auto simp: inside_def)
  next
    case False
    then obtain k where k: "k < 512" "q \<in> reach l ?N (?N p k)" using q by auto
    then have "inside (reach l ?N (?N p k)) (?N' q i)" using leadsD(1) [OF h [OF k(1)]] i unfolding closed_def by blast
    then show ?thesis using k(1) by (auto simp: inside_def)
  qed
  then have cl: "closed (reach (Suc l) ?N e) ?N'" unfolding R closed_def by blast
  have f: "find_loop ?N' e (Suc l) x = find_loop ?N' (?N' p (x div 512 ^ l mod 512)) l x" for x using e p by (simp add: find_node)
  have lk: "look (Suc l) ?N e x = look l ?N (?N p (x div 512 ^ l mod 512)) x" for x using e p by simp
  have sub: "range (look l ?N (?N p i)) \<subseteq> range (look (Suc l) ?N e)" if "i < 512" for i using look_range [of e i l ?N] e p that by simp
  have "find_loop ?N' e (Suc l) x = Some (look (Suc l) ?N e x)" if "look (Suc l) ?N e x \<noteq> 0" for x
    using leadsD(5) [OF h] that unfolding f lk by simp
  moreover have "t = 0 \<or> t \<in> range (look (Suc l) ?N e)" if "find_loop ?N' e (Suc l) x = Some t" for x t
    using leadsD(6) [OF h, of "x div 512 ^ l mod 512" x t] that sub [of "x div 512 ^ l mod 512"] unfolding f by auto
  ultimately show ?thesis using cl e p unfolding leads_def inside_def R by simp
qed

lemma nil_look: "tree l N n e \<Longrightarrow> is_nil e \<Longrightarrow> look l N e x = 0"
  by (cases l) (auto simp: tree_Suc PHYS_MAP_NODE_NIL_def split: if_splits)

lemma leads_skip:
  assumes lev: "Suc l < 2 ^ 6" and ok: "node_ok l (d_nodes d) (nodes_nb d) p" and n: "nodes_nb d \<le> PHYS_MAP_NODE_NIL"
    and s: "slots_done l p d 512 d'" and e: "pe_skip e = 1" "pe_ptr e = p"
    and v: "vp < 512" "\<And>i. i < 512 \<Longrightarrow> i \<noteq> vp \<Longrightarrow> is_nil (d_nodes d p i)"
  defines "c \<equiv> d_nodes d' p vp"
  defines "e' \<equiv> page_entry (if pe_skip c = 0 then 0 else 1 + pe_skip c) (pe_ptr c)"
  shows "leads (Suc l) (reach (Suc l) (d_nodes d) e) (d_nodes d') e' (look (Suc l) (d_nodes d) e)"
proof -
  let ?N = "d_nodes d" and ?N' = "d_nodes d'"
  have p: "p < PHYS_MAP_NODE_NIL" using ok n by (simp add: node_ok_def)
  note h = leadsD [OF slots_doneD(6) [OF s v(1)], folded c_def]
  have en: "pe_skip e' = (if pe_skip c = 0 then 0 else 1 + pe_skip c)" "pe_ptr e' = pe_ptr c"
    using h(3,4) lev by (simp_all add: e'_def page_entry_def PHYS_MAP_NODE_NIL_def)
  have f: "find_loop ?N' e' (Suc l) x = find_loop ?N' c l x" for x
  proof (cases "pe_skip c = 0")
    case False
    then show ?thesis using en h(3) by (cases "is_nil c") (simp_all add: find_nil find_node)
  qed (simp add: find_leaf en)
  have lk: "look (Suc l) ?N e x = (if x div 512 ^ l mod 512 = vp then look l ?N (?N p vp) x else 0)" for x
  proof (cases "x div 512 ^ l mod 512 = vp")
    case False
    let ?i = "x div 512 ^ l mod 512"
    have t: "is_nil (?N p ?i)" "tree l ?N (nodes_nb d) (?N p ?i)" using v(2) False ok by (simp_all add: node_ok_def)
    then show ?thesis using nil_look [OF t(2,1)] e p False by simp
  qed (use e p in simp)
  have sub: "range (look l ?N (?N p vp)) \<subseteq> range (look (Suc l) ?N e)" using look_range [of e vp l ?N] e p v(1) by simp
  have "inside (reach (Suc l) ?N e) e'" using h(2) en e p v(1) by (auto simp: inside_def)
  moreover have "closed (reach (Suc l) ?N e) ?N'" using leadsD(1) [OF leads_node [OF ok n s e]] .
  moreover have "find_loop ?N' e' (Suc l) x = Some (look (Suc l) ?N e x)" if "look (Suc l) ?N e x \<noteq> 0" for x
    using h(5) [of x] that unfolding f lk by (simp split: if_splits)
  moreover have "t = 0 \<or> t \<in> range (look (Suc l) ?N e)" if "find_loop ?N' e' (Suc l) x = Some t" for x t
    using h(6) [of x t] that sub unfolding f by auto
  ultimately show ?thesis using en h(3,4) unfolding leads_def by simp
qed

lemma get_set_entry: "get_entry (set_entry d lp e) lp = e"
  by (cases lp) simp_all

lemma set_entry_nodes: "lp \<noteq> Slot q i \<Longrightarrow> d_nodes (set_entry d lp e) q i = d_nodes d q i"
  by (cases lp) auto

lemma set_entry_root: "lp \<noteq> Root \<Longrightarrow> phys_map (set_entry d lp e) = phys_map d"
  by (cases lp) simp_all

lemma set_entry_keep: "d_keep (set_entry d lp e) = d_keep d"
  by (cases lp) (simp_all add: d_keep_def d_rest_def)

text \<open>Writing the entry after its slots were compacted.\<close>

lemma compacted_set:
  assumes ok: "node_ok l (d_nodes d) (nodes_nb d) p" and s: "slots_done l p d 512 d'"
    and lp: "loc_ok (Suc l) d lp" and e: "pe_skip (get_entry d lp) = 1" "pe_ptr (get_entry d lp) = p" "\<not> is_nil (get_entry d lp)"
    and g: "leads (Suc l) (reach (Suc l) (d_nodes d) (get_entry d lp)) (d_nodes d') e' (look (Suc l) (d_nodes d) (get_entry d lp))"
  shows "compacted (Suc l) d lp (set_entry d' lp e')"
proof -
  let ?R = "reach (Suc l) (d_nodes d) (get_entry d lp)"
  note h = slots_doneD [OF s]
  have R: "?R = insert p (below l (d_nodes d) p)" using e by simp
  have "d_nodes d' q i = d_nodes d q i" if "q \<notin> ?R" for q i using h(1) [of q] that unfolding R by simp
  moreover have "\<forall>q\<in>?R. d_nodes (set_entry d' lp e') q = d_nodes d' q"
    using lp by (cases lp) auto
  then have "leads (Suc l) ?R (d_nodes (set_entry d' lp e')) e' (look (Suc l) (d_nodes d) (get_entry d lp))" by (rule leads_cong [OF g])
  ultimately show ?thesis
    using h(2,3) unfolding compacted_def by (simp add: get_set_entry set_entry_nodes set_entry_root set_entry_keep)
qed

lemma slots_done_entry:
  assumes "slots_done l p d 512 d'" "loc_ok (Suc l) d lp" "pe_skip (get_entry d lp) = 1" "pe_ptr (get_entry d lp) = p" "\<not> is_nil (get_entry d lp)"
  shows "get_entry d' lp = get_entry d lp"
proof (cases lp)
  case (Slot q i)
  then have "q \<noteq> p" "q \<notin> below l (d_nodes d) p" using assms(2-5) by auto
  then show ?thesis using slots_doneD(1) [OF assms(1)] Slot by simp
qed (use slots_doneD(2) [OF assms(1)] in simp)

lemma set_entry_same: "set_entry d lp (get_entry d lp) = d"
  by (cases lp) simp_all

lemma phys_page_compact_step:
  assumes lev: "Suc l < 2 ^ 6" "P_L2_LEVELS tp < 2 ^ 6" and rec: "compacts (phys_page_compact l tp) l"
  shows "compacts (phys_page_compact (Suc l) tp) (Suc l)"
  unfolding compacts_def
proof (intro allI impI, elim conjE)
  fix d lp
  let ?e = "get_entry d lp"
  let ?p = "pe_ptr ?e"
  assume t: "tree (Suc l) (d_nodes d) (nodes_nb d) ?e" and sk: "pe_skip ?e = 1" and lp: "loc_ok (Suc l) d lp"
    and n: "nodes_nb d \<le> PHYS_MAP_NODE_NIL"
  show "\<exists>d'. phys_page_compact (Suc l) tp d lp = Some d' \<and> compacted (Suc l) d lp d'"
  proof (cases "is_nil ?e")
    case True
    then have "compacted (Suc l) d lp d" unfolding compacted_def using leads_nil [OF sk True] by simp
    then show ?thesis using True by simp
  next
    case False
    have ok: "node_ok l (d_nodes d) (nodes_nb d) ?p" using t sk False by (simp add: tree_Suc)
    have "slots_done l ?p d 0 d" "count_ok ?p d 0 0 512" by (simp_all add: slots_done_def count_ok_def)
    then obtain d' v vp where r: "compact_slots (phys_page_compact l tp) ?p 512 d 0 512 = Some (d', v, vp)"
      "slots_done l ?p d 512 d'" "count_ok ?p d 512 v vp"
      using compact_slots_done [OF ok n rec, of 512 d 0 512] by auto
    note set = compacted_set [OF ok r(2) lp sk refl False]
    have e: "get_entry d' lp = ?e" by (rule slots_done_entry [OF r(2) lp sk refl False])
    have pn: "?p < nodes_nb d" using ok by (simp add: node_ok_def)
    show ?thesis
    proof (cases "v = 1")
      case no: False
      have "compacted (Suc l) d lp d'" using set [OF leads_node [OF ok n r(2) sk refl]] set_entry_same [of d' lp] unfolding e by simp
      then show ?thesis using False no pn r(1) by (simp add: Let_def)
    next
      case True
      then have v: "vp < 512" "\<And>i. i < 512 \<Longrightarrow> i \<noteq> vp \<Longrightarrow> is_nil (d_nodes d ?p i)" using r(3) by (simp_all add: count_ok_def)
      show ?thesis using set [OF leads_skip [OF lev(1) ok n r(2) sk refl v]] False True pn r(1) v(1) lev(2) e sk
        by (cases "pe_skip (d_nodes d' ?p vp) = 0") (simp_all add: Let_def)
    qed
  qed
qed

lemma phys_page_compact_compacts: "l < 2 ^ 6 \<Longrightarrow> P_L2_LEVELS tp < 2 ^ 6 \<Longrightarrow> compacts (phys_page_compact l tp) l"
proof (induction l)
  case 0
  show ?case by (simp add: compacts_def)
next
  case (Suc l)
  then show ?case by (intro phys_page_compact_step) simp_all
qed

section \<open>The whole map\<close>

lemma levels_small: "P_L2_LEVELS tp < 2 ^ 6"
proof -
  have "(64 - tp_bits tp - 1) div 9 \<le> (63::nat) div 9" by (rule div_le_mono) simp
  then show ?thesis by (simp add: P_L2_LEVELS_def)
qed

lemma dispatch_compact_spec:
  assumes "map_ok tp d" "nodes_nb d \<le> PHYS_MAP_NODE_NIL"
  shows "\<exists>d'. address_space_dispatch_compact tp d = Some d' \<and> d_keep d' = d_keep d
    \<and> (\<forall>x. (page_section tp d x \<noteq> 0 \<longrightarrow> find_loop (d_nodes d') (phys_map d') (P_L2_LEVELS tp) x = Some (page_section tp d x))
      \<and> (\<forall>s. find_loop (d_nodes d') (phys_map d') (P_L2_LEVELS tp) x = Some s \<longrightarrow> s = 0 \<or> s \<in> range (page_section tp d)))"
proof -
  have "compacts (phys_page_compact (P_L2_LEVELS tp) tp) (P_L2_LEVELS tp)" by (rule phys_page_compact_compacts [OF levels_small levels_small])
  then obtain d' where d': "phys_page_compact (P_L2_LEVELS tp) tp d Root = Some d'" "compacted (P_L2_LEVELS tp) d Root d'"
    using assms unfolding compacts_def map_ok_def by (elim allE [of _ d] allE [of _ Root]) auto
  have "page_section tp d = look (P_L2_LEVELS tp) (d_nodes d) (phys_map d)" by (simp add: fun_eq_iff page_section_def)
  then show ?thesis
    using d'(1) compactedD(3,4) [OF d'(2)] assms(1) by (simp add: address_space_dispatch_compact_def map_ok_def leads_def)
qed

end
