(* ===== verification/Phys_Dispatch.thy ===== *)
theory Phys_Dispatch
  imports Phys_Compact
begin

text \<open>
  Registering the sections of a view: what the structure shows at an address, the invariant of
  its pages, sections and subpages, and that \<open>flatview_add_to_dispatch\<close> adds exactly the addresses
  of its section.
\<close>

section \<open>Pages of addresses\<close>

definition tp_ok :: "target_page \<Rightarrow> bool" where
  "tp_ok tp \<longleftrightarrow> 0 < tp_bits tp \<and> tp_bits tp \<le> 16 \<and> 32 \<le> tp_mask_bits tp \<and> tp_mask_bits tp \<le> 64"

definition page :: "target_page \<Rightarrow> u64 \<Rightarrow> nat" where
  "page tp a = unat (drop_bit (tp_bits tp) a)"

abbreviation psize :: "target_page \<Rightarrow> int" where
  "psize tp \<equiv> 2 ^ tp_bits tp"

lemma page_div: "page tp a = unat a div 2 ^ tp_bits tp"
  unfolding page_def unat_drop_bit_eq by (rule drop_bit_eq_div)

lemma int_page: "int (page tp a) = uint a div psize tp"
  by (simp add: page_div zdiv_int)

lemma div_block_iff: "0 < P \<Longrightarrow> (u::int) div P = x \<longleftrightarrow> x * P \<le> u \<and> u < x * P + P"
proof
  assume P: "0 < P" and "u div P = x"
  then have "u = x * P + u mod P" "0 \<le> u mod P" "u mod P < P" using div_mult_mod_eq [of u P] by simp_all
  then show "x * P \<le> u \<and> u < x * P + P" by linarith
next
  assume "0 < P" "x * P \<le> u \<and> u < x * P + P"
  then have "u = P * x + (u - x * P)" "0 \<le> u - x * P" "u - x * P < P" by (simp_all add: mult.commute)
  then show "u div P = x" by (rule int_div_pos_eq)
qed

lemma page_iff: "page tp a = x \<longleftrightarrow> int x * psize tp \<le> uint a \<and> uint a < int x * psize tp + psize tp"
proof -
  have "page tp a = x \<longleftrightarrow> uint a div psize tp = int x" using int_page [of tp a] by (metis of_nat_eq_iff)
  then show ?thesis by (simp add: div_block_iff)
qed

lemma page_bound: "page tp a < pages tp"
proof -
  have "64 - tp_bits tp \<le> 9 * P_L2_LEVELS tp"
    using div_mult_mod_eq [of "64 - tp_bits tp - 1" 9] mod_less_divisor [of 9 "64 - tp_bits tp - 1"] by (simp add: P_L2_LEVELS_def)
  then have "64 \<le> tp_bits tp + P_L2_LEVELS tp * 9" by simp
  then have "(2::nat) ^ 64 \<le> 2 ^ (tp_bits tp + P_L2_LEVELS tp * 9)" by (rule power_increasing) simp
  also have "\<dots> = pages tp * 2 ^ tp_bits tp" by (simp add: power_add pages_def pow512)
  finally have "unat a < pages tp * 2 ^ tp_bits tp" using unsigned_less [of a, where ?'a = nat] by simp
  then show ?thesis unfolding page_div by (rule less_mult_imp_div_less)
qed

lemma not_mask: "tp_ok tp \<Longrightarrow> NOT_TARGET_PAGE_MASK tp = mask (tp_bits tp)"
  unfolding NOT_TARGET_PAGE_MASK_def push_bit_minus_one_eq_not_mask bit.double_compl take_bit_of_mask
  by (simp add: tp_ok_def min_def)

lemma uint_take_bit: "uint (take_bit n (a::u64)) = uint a mod 2 ^ n"
  by (simp add: unsigned_take_bit_eq flip: take_bit_eq_mod)

lemma page_offset: "tp_ok tp \<Longrightarrow> uint (a AND NOT_TARGET_PAGE_MASK tp) = uint a mod psize tp"
  by (simp add: not_mask uint_take_bit flip: take_bit_eq_mask)

lemma subpage_idx: "tp_ok tp \<Longrightarrow> int (SUBPAGE_IDX tp a) = uint a mod psize tp"
  unfolding SUBPAGE_IDX_def uint_nat [symmetric] by (rule page_offset)

lemma subpage_idx_less: "tp_ok tp \<Longrightarrow> SUBPAGE_IDX tp a < 2 ^ tp_bits tp"
proof -
  assume "tp_ok tp"
  then have "int (SUBPAGE_IDX tp a) < psize tp" by (simp add: subpage_idx)
  then show ?thesis by (metis of_nat_less_iff of_nat_numeral of_nat_power)
qed

lemma page_bounds: "int (page tp a) * psize tp \<le> uint a" "uint a < int (page tp a) * psize tp + psize tp"
  using page_iff [of tp a "page tp a"] by simp_all

lemma page_end:
  assumes "tp_ok tp" "int x * psize tp < 2 ^ 64"
  shows "int x * psize tp + psize tp \<le> 2 ^ 64"
proof -
  have e: "(2::int) ^ 64 = 2 ^ (64 - tp_bits tp) * psize tp" using assms(1) by (simp add: tp_ok_def flip: power_add)
  then have "int x < 2 ^ (64 - tp_bits tp)" using assms(2) by (simp only: mult_less_cancel_right) simp
  then have "int x + 1 \<le> 2 ^ (64 - tp_bits tp)" by linarith
  then have "(int x + 1) * psize tp \<le> 2 ^ (64 - tp_bits tp) * psize tp" by (rule mult_right_mono) simp
  then show ?thesis unfolding e by (simp add: algebra_simps)
qed

lemma and_not_mask: "(a::'a::ring_bit_operations) AND NOT (mask n) = a - take_bit n a"
proof -
  have "a AND NOT (mask n) = push_bit n (drop_bit n a)"
    by (rule bit_eqI) (auto simp: bit_simps)
  then show ?thesis using bits_ident [of n a] by (simp only: eq_diff_eq)
qed

lemma page_base:
  assumes "tp_ok tp" "uint a < 2 ^ tp_mask_bits tp"
  shows "uint (a AND TARGET_PAGE_MASK tp) = int (page tp a) * psize tp"
proof -
  have "a AND TARGET_PAGE_MASK tp = take_bit (tp_mask_bits tp) a AND NOT (mask (tp_bits tp))"
    unfolding TARGET_PAGE_MASK_def push_bit_minus_one_eq_not_mask by (rule bit_eqI) (auto simp: bit_simps)
  also have "take_bit (tp_mask_bits tp) a = a"
    using assms(2) uint_take_bit [of "tp_mask_bits tp" a] by (simp add: word_uint_eq_iff)
  also have "a AND NOT (mask (tp_bits tp)) = a - take_bit (tp_bits tp) a" by (rule and_not_mask)
  finally have "a AND TARGET_PAGE_MASK tp = a - take_bit (tp_bits tp) a" .
  moreover have "uint (take_bit (tp_bits tp) a) \<le> uint a" unfolding uint_take_bit by (simp add: zmod_le_nonneg_dividend)
  ultimately have "uint (a AND TARGET_PAGE_MASK tp) = uint a - uint a mod psize tp"
    by (simp add: uint_sub_if' uint_take_bit)
  then show ?thesis by (simp add: int_page minus_mod_eq_div_mult)
qed

lemma mod_pred: "(u::int) mod P \<noteq> 0 \<Longrightarrow> 0 < P \<Longrightarrow> (u + P - 1) mod P = u mod P - 1"
proof -
  assume r: "u mod P \<noteq> 0" "0 < P"
  then have b: "0 \<le> u mod P - 1" "u mod P - 1 < P" using pos_mod_sign [of P u] pos_mod_bound [of P u] by linarith+
  have "u + P - 1 = u - 1 + P" by simp
  then have "(u + P - 1) mod P = (u mod P - 1) mod P" by (simp only: mod_add_self2 mod_diff_left_eq)
  then show ?thesis using b by simp
qed

lemma page_align:
  assumes "tp_ok tp" "uint a mod psize tp \<noteq> 0"
  shows "uint (TARGET_PAGE_ALIGN tp a - a) = psize tp - uint a mod psize tp"
proof -
  define P :: u64 where "P = 2 ^ tp_bits tp"
  let ?r = "uint a mod psize tp"
  have b: "tp_bits tp < 64" using assms(1) by (simp add: tp_ok_def)
  have "0 < psize tp" by simp
  then have r: "0 < ?r" "?r < psize tp" using assms(2) pos_mod_sign [of "psize tp" "uint a"] pos_mod_bound [of "psize tp" "uint a"] by linarith+
  have Pb: "psize tp < 2 ^ 64" using b by (intro power_strict_increasing) simp_all
  have P: "P = word_of_int (psize tp)" by (simp add: P_def)
  have x: "a + P - 1 = word_of_int (uint a + psize tp - 1)" by (simp add: P)
  have dv: "psize tp dvd 2 ^ 64" using b by (intro le_imp_power_dvd) simp
  have "uint (a + P - 1) mod psize tp = (uint a + psize tp - 1) mod psize tp"
    unfolding x uint_word_of_int using dv by (simp add: mod_mod_cancel)
  then have u: "uint (take_bit (tp_bits tp) (a + P - 1)) = ?r - 1"
    unfolding uint_take_bit using mod_pred [OF assms(2)] by simp
  have "TARGET_PAGE_ALIGN tp a - a = P - 1 - take_bit (tp_bits tp) (a + P - 1)"
    unfolding TARGET_PAGE_ALIGN_def TARGET_PAGE_SIZE_def of_nat_power of_nat_numeral P_def [symmetric]
    by (simp add: P_def minus_exp_eq_not_mask and_not_mask)
  also have "take_bit (tp_bits tp) (a + P - 1) = word_of_int (?r - 1)" by (subst u [symmetric]) simp
  finally have "TARGET_PAGE_ALIGN tp a - a = word_of_int (psize tp - ?r)" by (simp add: P)
  moreover have "0 \<le> psize tp - ?r" "psize tp - ?r < 2 ^ 64" using r Pb by linarith+
  ultimately show ?thesis by (simp only: uint_of_int_small)
qed

section \<open>Sections\<close>

definition sec_ok :: "phys_section \<Rightarrow> bool" where
  "sec_ok s \<longleftrightarrow> 0 < mrs_size s \<and> uint (mrs_offset_within_address_space s) + mrs_size s \<le> 2 ^ 64"

definition in_sec :: "phys_section \<Rightarrow> u64 \<Rightarrow> bool" where
  "in_sec s a \<longleftrightarrow> uint (mrs_offset_within_address_space s) \<le> uint a
     \<and> uint a < uint (mrs_offset_within_address_space s) + mrs_size s"

text \<open>What a section shows at an address: the region, the offset in it, the write protection.\<close>

definition sec_target :: "phys_section \<Rightarrow> u64 \<Rightarrow> (nat \<times> u64 \<times> bool) option" where
  "sec_target s a = (case mrs_mr s of
     Region r \<Rightarrow> Some (r, a - mrs_offset_within_address_space s + mrs_offset_within_region s, mrs_readonly s)
   | _ \<Rightarrow> None)"

lemma section_covers_iff: "sec_ok s \<Longrightarrow> section_covers_addr s a \<longleftrightarrow> in_sec s a"
proof -
  assume ok: "sec_ok s"
  let ?o = "mrs_offset_within_address_space s" and ?n = "mrs_size s"
  have b: "0 \<le> uint ?o" "uint a < 2 ^ 64" using unsigned_less [of a, where ?'a = int] by simp_all
  show ?thesis
  proof (cases "?n = 2 ^ 64")
    case True
    then show ?thesis using ok b by (simp add: section_covers_addr_def in_sec_def sec_ok_def)
  next
    case False
    then have n: "0 < ?n" "?n < 2 ^ 64" "uint ?o + ?n - 1 < 2 ^ 64" using ok b unfolding sec_ok_def by linarith+
    have "?o + word_of_int ?n - 1 = word_of_int (uint ?o + ?n - 1)" by simp
    moreover have "uint (word_of_int (uint ?o + ?n - 1) :: u64) = uint ?o + ?n - 1" using n b by (intro uint_of_int_small) linarith+
    ultimately have "uint (?o + word_of_int ?n - 1) = uint ?o + ?n - 1" by (simp only:)
    then show ?thesis using n by (auto simp: section_covers_addr_def range_covers_byte_def in_sec_def word_le_def)
  qed
qed

lemma dummy_ok: "sec_ok dummy_section" "in_sec dummy_section a" "sec_target dummy_section a = None" "mrs_mr dummy_section = Io_Mem_Unassigned"
  using unsigned_less [of a, where ?'a = int] by (simp_all add: sec_ok_def in_sec_def dummy_section_def sec_target_def)

section \<open>The invariant\<close>

text \<open>
  Section \<open>s\<close> of the structure serves page \<open>x\<close> and shows there what \<open>T\<close> gives: a region that
  contains the page, or the subpage of the page.
\<close>

definition serves :: "target_page \<Rightarrow> dispatch \<Rightarrow> (u64 \<Rightarrow> (nat \<times> u64 \<times> bool) option) \<Rightarrow> nat \<Rightarrow> phys_section \<Rightarrow> bool" where
  "serves tp d T x s \<longleftrightarrow> (\<forall>a. page tp a = x \<longrightarrow> in_sec s a) \<and>
     (case mrs_mr s of
        Io_Mem_Unassigned \<Rightarrow> False
      | Region r \<Rightarrow> (\<forall>a. page tp a = x \<longrightarrow> T a = sec_target s a)
      | Subpage k \<Rightarrow> k < length (d_subpages d) \<and> unat (sp_base (d_subpages d ! k)) = x * 2 ^ tp_bits tp
          \<and> uint (mrs_offset_within_address_space s) = int x * psize tp \<and> mrs_size s = psize tp
          \<and> (\<forall>a. page tp a = x \<longrightarrow> T a = sec_target (d_sections d ! (sub_section (d_subpages d ! k) ! SUBPAGE_IDX tp a)) a
               \<and> in_sec (d_sections d ! (sub_section (d_subpages d ! k) ! SUBPAGE_IDX tp a)) a
               \<and> (\<forall>k'. mrs_mr (d_sections d ! (sub_section (d_subpages d ! k) ! SUBPAGE_IDX tp a)) \<noteq> Subpage k')))"

definition sections_ok :: "target_page \<Rightarrow> dispatch \<Rightarrow> bool" where
  "sections_ok tp d \<longleftrightarrow> (\<exists>ss. d_sections d = dummy_section # ss) \<and> length (d_sections d) \<le> 2 ^ tp_bits tp
     \<and> nodes_nb d + 16 \<le> 16 * length (d_sections d) \<and> (\<forall>s\<in>set (d_sections d). sec_ok s)
     \<and> (\<forall>sp\<in>set (d_subpages d). length (sub_section sp) = 2 ^ tp_bits tp \<and> (\<forall>n\<in>set (sub_section sp). n < length (d_sections d)))"

definition dinv :: "target_page \<Rightarrow> dispatch \<Rightarrow> (u64 \<Rightarrow> (nat \<times> u64 \<times> bool) option) \<Rightarrow> bool" where
  "dinv tp d T \<longleftrightarrow> map_ok tp d \<and> sections_ok tp d
     \<and> (\<forall>x. page_section tp d x < length (d_sections d))
     \<and> (\<forall>a. if page_section tp d (page tp a) = 0 then T a = None
            else serves tp d T (page tp a) (d_sections d ! page_section tp d (page tp a)))
     \<and> (\<forall>x a. page_section tp d x \<noteq> 0 \<and> in_sec (d_sections d ! page_section tp d x) a
          \<longrightarrow> page_section tp d (page tp a) = page_section tp d x)"

text \<open>A subpage shows something.\<close>

definition subs_used :: "target_page \<Rightarrow> dispatch \<Rightarrow> (u64 \<Rightarrow> (nat \<times> u64 \<times> bool) option) \<Rightarrow> bool" where
  "subs_used tp d T \<longleftrightarrow> (\<forall>a. page_section tp d (page tp a) \<noteq> 0 \<longrightarrow> (\<exists>a'. page tp a' = page tp a \<and> T a' \<noteq> None))"

lemma dinvD:
  assumes "dinv tp d T"
  shows "map_ok tp d" "sections_ok tp d" "\<And>x. page_section tp d x < length (d_sections d)"
    "\<And>a. page_section tp d (page tp a) = 0 \<Longrightarrow> T a = None"
    "\<And>a. page_section tp d (page tp a) \<noteq> 0 \<Longrightarrow> serves tp d T (page tp a) (d_sections d ! page_section tp d (page tp a))"
    "\<And>x a. page_section tp d x \<noteq> 0 \<Longrightarrow> in_sec (d_sections d ! page_section tp d x) a
          \<Longrightarrow> page_section tp d (page tp a) = page_section tp d x"
  using assms unfolding dinv_def by (auto split: if_splits)

text \<open>Before and after compaction the lookup gives the section of the page.\<close>

lemma phys_page_find_section:
  assumes inv: "dinv tp d T" and k: "d_sections d' = d_sections d"
    and f: "\<And>x. page_section tp d x \<noteq> 0 \<Longrightarrow> find_loop (d_nodes d') (phys_map d') (P_L2_LEVELS tp) x = Some (page_section tp d x)"
      "\<And>x s. find_loop (d_nodes d') (phys_map d') (P_L2_LEVELS tp) x = Some s \<Longrightarrow> s = 0 \<or> s \<in> range (page_section tp d)"
  shows "phys_page_find tp d' a = Some (page_section tp d (page tp a))"
proof -
  note h = dinvD [OF inv]
  let ?x = "page tp a"
  let ?s = "page_section tp d ?x"
  have z: "d_sections d ! 0 = dummy_section" "d_sections d \<noteq> []" using h(2) by (auto simp: sections_ok_def)
  have so: "sec_ok (d_sections d ! page_section tp d y)" for y using h(2) h(3) [of y] by (simp add: sections_ok_def)
  show ?thesis
  proof (cases "?s = 0")
    case False
    have "in_sec (d_sections d ! ?s) a" using h(5) [OF False] by (simp add: serves_def)
    then show ?thesis using f(1) [OF False] h(3) [of ?x] k so by (simp add: phys_page_find_def page_def section_covers_iff)
  next
    case True
    show ?thesis
    proof (cases "find_loop (d_nodes d') (phys_map d') (P_L2_LEVELS tp) ?x")
      case (Some n)
      have "n = 0 \<or> \<not> section_covers_addr (d_sections d ! n) a \<and> n < length (d_sections d)"
      proof (cases "n = 0")
        case nz: False
        then obtain y where y: "n = page_section tp d y" using f(2) [OF Some] by auto
        have "\<not> in_sec (d_sections d ! n) a" using h(6) [of y a] y nz True by auto
        then show ?thesis using h(3) so y by (simp add: section_covers_iff)
      qed simp
      then show ?thesis using True Some z dummy_ok k by (auto simp: phys_page_find_def page_def section_covers_iff)
    qed (use True in \<open>simp add: phys_page_find_def page_def\<close>)
  qed
qed

lemma find_uncompacted:
  assumes "dinv tp d T"
  shows "phys_page_find tp d a = Some (page_section tp d (page tp a))"
proof (rule phys_page_find_section [OF assms refl])
  have t: "tree (P_L2_LEVELS tp) (d_nodes d) (nodes_nb d) (phys_map d)" using dinvD(1) [OF assms] by (simp add: map_ok_def)
  note f = find_tree [OF t, folded page_section_def]
  show "find_loop (d_nodes d) (phys_map d) (P_L2_LEVELS tp) x = Some (page_section tp d x)" if "page_section tp d x \<noteq> 0" for x
    using f [of x] that by auto
  show "n = 0 \<or> n \<in> range (page_section tp d)" if "find_loop (d_nodes d) (phys_map d) (P_L2_LEVELS tp) x = Some n" for x n
    using f [of x] that by auto
qed

section \<open>Adding a section\<close>

lemma section_add:
  assumes tp: "tp_ok tp" and n: "length (d_sections d) < 2 ^ tp_bits tp"
  shows "\<exists>d'. phys_section_add tp d s = Some (d', length (d_sections d)) \<and> d_sections d' = d_sections d @ [s]
    \<and> phys_map d' = phys_map d \<and> d_nodes d' = d_nodes d \<and> nodes_nb d' = nodes_nb d \<and> d_subpages d' = d_subpages d \<and> mru_section d' = mru_section d"
proof -
  have "(2::nat) ^ tp_bits tp \<le> 2 ^ 16" using tp by (intro power_increasing) (simp_all add: tp_ok_def)
  then show ?thesis using n by (simp add: phys_section_add_def TARGET_PAGE_SIZE_def Let_def)
qed

lemma serves_add:
  assumes "serves tp d T x s" "d_sections d' = d_sections d @ [s']" "d_subpages d' = d_subpages d"
    "\<forall>sp\<in>set (d_subpages d). length (sub_section sp) = 2 ^ tp_bits tp \<and> (\<forall>n\<in>set (sub_section sp). n < length (d_sections d))" "tp_ok tp"
  shows "serves tp d' T x s"
proof (cases "mrs_mr s")
  case (Subpage k)
  then have k: "k < length (d_subpages d)" using assms(1) by (simp add: serves_def)
  then have "d_subpages d ! k \<in> set (d_subpages d)" by simp
  then have l: "length (sub_section (d_subpages d ! k)) = 2 ^ tp_bits tp" "\<forall>n\<in>set (sub_section (d_subpages d ! k)). n < length (d_sections d)"
    using assms(4) by blast+
  have "sub_section (d_subpages d ! k) ! SUBPAGE_IDX tp a < length (d_sections d)" for a
    using l subpage_idx_less [OF assms(5), of a] by (metis nth_mem)
  then show ?thesis using assms(1-3) Subpage by (simp add: serves_def nth_append)
qed (use assms(1) in \<open>simp_all add: serves_def\<close>)

lemma dinv_add:
  assumes "dinv tp d T" "tp_ok tp" "sec_ok s" "length (d_sections d) < 2 ^ tp_bits tp"
    "d_sections d' = d_sections d @ [s]" "phys_map d' = phys_map d" "d_nodes d' = d_nodes d" "nodes_nb d' = nodes_nb d" "d_subpages d' = d_subpages d"
  shows "dinv tp d' T" "page_section tp d' = page_section tp d"
proof -
  note h = dinvD [OF assms(1)]
  show p: "page_section tp d' = page_section tp d" using assms(6,7) by (intro ext) (simp add: page_section_def)
  have so: "sections_ok tp d'" using h(2) assms(3-9) by (auto simp: sections_ok_def less_Suc_eq)
  have nth: "d_sections d' ! page_section tp d x = d_sections d ! page_section tp d x" for x using h(3) assms(5) by (simp add: nth_append)
  have "serves tp d' T (page tp a) (d_sections d ! page_section tp d (page tp a))" if "page_section tp d (page tp a) \<noteq> 0" for a
    using serves_add [OF h(5) [OF that] assms(5,9) _ assms(2)] h(2) by (simp add: sections_ok_def)
  moreover have "map_ok tp d'" using h(1) assms(6-8) by (simp add: map_ok_def)
  ultimately show "dinv tp d' T" unfolding dinv_def p nth using so h(3,4,6) assms(5) by (simp add: less_Suc_eq)
qed

section \<open>Showing a section\<close>

lemma page_section_mod: "page_section tp d (x mod pages tp) = page_section tp d x"
  by (simp add: page_section_def pages_def look_mod)

lemma levels_le: "P_L2_LEVELS tp \<le> 8"
proof -
  have "(64 - tp_bits tp - 1) div 9 \<le> (63::nat) div 9" by (rule div_le_mono) simp
  then show ?thesis by (simp add: P_L2_LEVELS_def)
qed

lemma serves_same:
  assumes "serves tp d T x s" "d_sections d' = d_sections d" "d_subpages d' = d_subpages d" "\<And>a. page tp a = x \<Longrightarrow> T' a = T a"
  shows "serves tp d' T' x s"
  using assms unfolding serves_def by (cases "mrs_mr s") simp_all

lemma dinv_shown:
  assumes inv: "dinv tp d T" and n: "0 < n" "n < length (d_sections d)"
    and d': "map_ok tp d'" "nodes_nb d' \<le> nodes_nb d + 16" "d_sections d' = d_sections d" "d_subpages d' = d_subpages d"
    and ps: "\<And>x. page_section tp d' x = (if x mod pages tp \<in> X then n else page_section tp d x)"
    and un: "\<And>x. x \<in> X \<Longrightarrow> page_section tp d x = 0"
    and nodes: "nodes_nb d + 32 \<le> 16 * length (d_sections d)"
    and s: "\<And>a. in_sec (d_sections d ! n) a \<Longrightarrow> page tp a \<in> X" "\<And>a. page tp a \<in> X \<Longrightarrow> serves tp d T' (page tp a) (d_sections d ! n)"
    and T: "\<And>a. page tp a \<notin> X \<Longrightarrow> T' a = T a"
  shows "dinv tp d' T'"
  unfolding dinv_def
proof (intro conjI allI impI)
  note h = dinvD [OF inv]
  have pa: "page_section tp d' (page tp a) = (if page tp a \<in> X then n else page_section tp d (page tp a))" for a
    using ps [of "page tp a"] page_bound [of tp a] by simp
  show "map_ok tp d'" by (rule d'(1))
  show "sections_ok tp d'" using h(2) d'(2-4) nodes by (simp add: sections_ok_def)
  show "page_section tp d' x < length (d_sections d')" for x using ps h(3) n(2) d'(3) by simp
  show "if page_section tp d' (page tp a) = 0 then T' a = None
      else serves tp d' T' (page tp a) (d_sections d' ! page_section tp d' (page tp a))" for a
  proof (cases "page tp a \<in> X")
    case True
    then show ?thesis using pa n serves_same [OF s(2) d'(3,4) refl] d'(3) by simp
  next
    case False
    have "serves tp d' T' (page tp a) (d_sections d' ! page_section tp d (page tp a))" if "page_section tp d (page tp a) \<noteq> 0"
      using serves_same [OF h(5) [OF that] d'(3,4), of T'] T False d'(3) by simp
    then show ?thesis using pa [of a] False T h(4) [of a] by simp
  qed
  fix x a
  assume a: "page_section tp d' x \<noteq> 0 \<and> in_sec (d_sections d' ! page_section tp d' x) a"
  show "page_section tp d' (page tp a) = page_section tp d' x"
  proof (cases "page_section tp d' x = n")
    case False
    then have e: "page_section tp d' x = page_section tp d x" using ps [of x] by (simp split: if_splits)
    then have "page_section tp d (page tp a) = page_section tp d x" "page_section tp d x \<noteq> 0" using h(6) a d'(3) by simp_all
    then show ?thesis using pa [of a] un [of "page tp a"] e by auto
  qed (use a s(1) [of a] pa d'(3) in simp)
qed

lemma dinv_set:
  assumes inv: "dinv tp d T" and n: "0 < n" "n < length (d_sections d)" and tp: "tp_ok tp"
    and r: "0 < nb" "index + nb \<le> pages tp"
    and un: "\<And>x. x \<in> {index..<index + nb} \<Longrightarrow> page_section tp d x = 0"
    and nodes: "nodes_nb d + 32 \<le> 16 * length (d_sections d)"
    and s: "\<And>a. in_sec (d_sections d ! n) a \<Longrightarrow> page tp a \<in> {index..<index + nb}"
      "\<And>a. page tp a \<in> {index..<index + nb} \<Longrightarrow> serves tp d T' (page tp a) (d_sections d ! n)"
    and T: "\<And>a. page tp a \<notin> {index..<index + nb} \<Longrightarrow> T' a = T a"
  shows "\<exists>d'. phys_page_set tp d index nb n = Some d' \<and> dinv tp d' T' \<and> d_sections d' = d_sections d \<and> d_subpages d' = d_subpages d
    \<and> mru_section d' = mru_section d
    \<and> (\<forall>a. page_section tp d' (page tp a) = (if page tp a \<in> {index..<index + nb} then n else page_section tp d (page tp a)))"
proof -
  note h = dinvD [OF inv]
  have "length (d_sections d) \<le> 2 ^ tp_bits tp" using h(2) by (simp add: sections_ok_def)
  also have "(2::nat) ^ tp_bits tp \<le> 2 ^ 16" using tp by (intro power_increasing) (simp_all add: tp_ok_def)
  finally have l: "length (d_sections d) \<le> 2 ^ 16" .
  have "n < 2 ^ 16" using n(2) l by simp
  moreover have "nodes_nb d + 2 * P_L2_LEVELS tp \<le> PHYS_MAP_NODE_NIL"
    using nodes l levels_le [of tp] by (simp add: PHYS_MAP_NODE_NIL_def)
  ultimately obtain d' where d': "phys_page_set tp d index nb n = Some d'" "map_ok tp d'"
    "nodes_nb d' \<le> nodes_nb d + 2 * P_L2_LEVELS tp" "d_sections d' = d_sections d" "d_subpages d' = d_subpages d" "mru_section d' = mru_section d"
    "\<And>x. x < pages tp \<Longrightarrow> page_section tp d' x = (if index \<le> x \<and> x < index + nb then n else page_section tp d x)"
    using phys_page_set_spec [OF h(1) n(1) _ r] un by auto
  have ps: "page_section tp d' x = (if x mod pages tp \<in> {index..<index + nb} then n else page_section tp d x)" for x
    using d'(7) [of "x mod pages tp"] page_section_mod [of tp _ x] r by simp
  have "nodes_nb d' \<le> nodes_nb d + 16" using d'(3) levels_le [of tp] by simp
  from dinv_shown [OF inv n d'(2) this d'(4,5) ps un nodes s T] have "dinv tp d' T'" by simp
  then show ?thesis using d'(1,4-7) page_bound by auto
qed

end
