(* ===== verification/Phys_Register.thy ===== *)
theory Phys_Register
  imports Phys_Dispatch
begin

text \<open>
  \<open>register_multipage\<close>, \<open>register_subpage\<close> and \<open>flatview_add_to_dispatch\<close> on the invariant: each adds
  the addresses of its section to what the structure shows, and trips no assertion.
\<close>

section \<open>What a registration adds\<close>

definition show_sec :: "phys_section \<Rightarrow> (u64 \<Rightarrow> (nat \<times> u64 \<times> bool) option) \<Rightarrow> u64 \<Rightarrow> (nat \<times> u64 \<times> bool) option" where
  "show_sec s T a = (if in_sec s a then sec_target s a else T a)"

text \<open>A section of a region shows its region at every address it contains.\<close>

definition secs_true :: "dispatch \<Rightarrow> (u64 \<Rightarrow> (nat \<times> u64 \<times> bool) option) \<Rightarrow> bool" where
  "secs_true d T \<longleftrightarrow> (\<forall>s\<in>set (d_sections d). \<forall>a. sec_target s a \<noteq> None \<and> in_sec s a \<longrightarrow> T a = sec_target s a)"

text \<open>The state of the registration: the invariant, every assigned page shows something, nothing was looked up yet.\<close>

definition reg_inv :: "target_page \<Rightarrow> dispatch \<Rightarrow> (u64 \<Rightarrow> (nat \<times> u64 \<times> bool) option) \<Rightarrow> bool" where
  "reg_inv tp d T \<longleftrightarrow> dinv tp d T \<and> subs_used tp d T \<and> secs_true d T \<and> mru_section d = None"

text \<open>A registration of \<open>s\<close> succeeds, shows its addresses and takes at most \<open>n\<close> section numbers.\<close>

definition registers :: "target_page \<Rightarrow> (dispatch \<Rightarrow> phys_section \<Rightarrow> dispatch option) \<Rightarrow> dispatch \<Rightarrow> phys_section
    \<Rightarrow> (u64 \<Rightarrow> (nat \<times> u64 \<times> bool) option) \<Rightarrow> nat \<Rightarrow> bool" where
  "registers tp reg d s T n \<longleftrightarrow> (\<exists>d'. reg d s = Some d' \<and> reg_inv tp d' (show_sec s T) \<and> length (d_sections d') \<le> length (d_sections d) + n)"

definition free_sec :: "phys_section \<Rightarrow> (u64 \<Rightarrow> (nat \<times> u64 \<times> bool) option) \<Rightarrow> bool" where
  "free_sec s T \<longleftrightarrow> sec_ok s \<and> (\<exists>r. mrs_mr s = Region r) \<and> (\<forall>a. in_sec s a \<longrightarrow> T a = None)"

lemma page_ex:
  assumes "int x * psize tp < 2 ^ 64"
  shows "\<exists>a. uint a = int x * psize tp \<and> page tp a = x"
proof -
  have "uint (word_of_int (int x * psize tp) :: u64) = int x * psize tp" using assms by (intro uint_of_int_small) simp_all
  then show ?thesis by (intro exI [of _ "word_of_int (int x * psize tp)"]) (simp add: page_iff)
qed

lemma le_div_mult: "0 < P \<Longrightarrow> (k::int) \<le> u div P \<longleftrightarrow> k * P \<le> u"
proof
  assume "0 < P" "k \<le> u div P"
  then have "k * P \<le> u div P * P" by simp
  also have "\<dots> \<le> u" using div_mult_mod_eq [of u P] pos_mod_sign [OF \<open>0 < P\<close>, of u] by linarith
  finally show "k * P \<le> u" .
next
  assume "0 < P" "k * P \<le> u"
  then show "k \<le> u div P" using zdiv_mono1 [of "k * P" u P] by simp
qed

lemma secs_true_show:
  assumes "secs_true d T" "free_sec s T" "\<And>t. t \<in> set (d_sections d') \<Longrightarrow> t \<in> set (d_sections d) \<or> t = s \<or> (\<exists>k. mrs_mr t = Subpage k)"
  shows "secs_true d' (show_sec s T)"
  unfolding secs_true_def
proof (intro ballI allI impI)
  fix t a
  assume t: "t \<in> set (d_sections d')" and a: "sec_target t a \<noteq> None \<and> in_sec t a"
  have "t = s \<or> t \<in> set (d_sections d)" using assms(3) [OF t] a by (auto simp: sec_target_def)
  then show "show_sec s T a = sec_target t a"
  proof
    assume "t \<in> set (d_sections d)"
    then have "T a = sec_target t a" using assms(1) a unfolding secs_true_def by blast
    then show ?thesis using assms(2) a by (auto simp: show_sec_def free_sec_def)
  qed (use a in \<open>simp add: show_sec_def\<close>)
qed

section \<open>Whole pages\<close>

lemma aligned_pages:
  assumes "uint (mrs_offset_within_address_space s) mod psize tp = 0" "mrs_size s mod psize tp = 0" "sec_ok s"
  defines "index \<equiv> page tp (mrs_offset_within_address_space s)" and "nb \<equiv> nat (mrs_size s div psize tp)"
  shows "0 < nb" "int (index + nb) * psize tp \<le> 2 ^ 64" "int nb = mrs_size s div psize tp"
    "\<And>a. in_sec s a \<longleftrightarrow> page tp a \<in> {index..<index + nb}"
proof -
  let ?o = "uint (mrs_offset_within_address_space s)" and ?P = "psize tp"
  have o: "?o = int index * ?P" using assms(1) div_mult_mod_eq [of ?o ?P] by (simp add: index_def int_page)
  have sz: "mrs_size s = mrs_size s div ?P * ?P" using assms(2) div_mult_mod_eq [of "mrs_size s" ?P] by simp
  have pos: "0 < mrs_size s" "?o + mrs_size s \<le> 2 ^ 64" using assms(3) by (simp_all add: sec_ok_def)
  then have "0 < mrs_size s div ?P" using sz by (smt (verit) mult_nonpos_nonneg zero_less_power)
  then show nb: "0 < nb" "int nb = mrs_size s div ?P" by (simp_all add: nb_def)
  have sz': "mrs_size s = int nb * ?P" using sz nb(2) by simp
  then show "int (index + nb) * ?P \<le> 2 ^ 64" using pos(2) o by (simp add: algebra_simps)
  fix a
  have "in_sec s a \<longleftrightarrow> int index * ?P \<le> uint a \<and> uint a < int (index + nb) * ?P" by (simp add: in_sec_def o sz' algebra_simps)
  also have "\<dots> \<longleftrightarrow> int index \<le> uint a div ?P \<and> \<not> int (index + nb) \<le> uint a div ?P"
    by (simp add: le_div_mult not_le)
  finally show "in_sec s a \<longleftrightarrow> page tp a \<in> {index..<index + nb}" unfolding int_page [symmetric] by auto
qed

lemma num_pages:
  assumes "tp_ok tp" "sec_ok s"
  shows "int128_get64 (mrs_size s div psize tp) = Some (word_of_int (mrs_size s div psize tp))"
    "unat (word_of_int (mrs_size s div psize tp) :: u64) = nat (mrs_size s div psize tp)"
    "0 < nat (mrs_size s div psize tp) \<Longrightarrow> word_of_int (mrs_size s div psize tp) \<noteq> (0::u64)"
proof -
  have "(2::int) ^ 1 \<le> psize tp" using assms(1) by (intro power_increasing) (simp_all add: tp_ok_def)
  then have "mrs_size s div psize tp \<le> mrs_size s div 2" using assms(2) by (intro zdiv_mono2) (simp_all add: sec_ok_def)
  moreover have "mrs_size s \<le> 2 ^ 64" using assms(2) unfolding sec_ok_def by (smt (verit) uint_nonnegative)
  ultimately have b: "0 \<le> mrs_size s div psize tp" "mrs_size s div psize tp < 2 ^ 64"
    using assms(2) by (simp_all add: sec_ok_def pos_imp_zdiv_nonneg_iff)
  then show "int128_get64 (mrs_size s div psize tp) = Some (word_of_int (mrs_size s div psize tp))" by (rule int128_get64_Some)
  show u: "unat (word_of_int (mrs_size s div psize tp) :: u64) = nat (mrs_size s div psize tp)"
    using uint_of_int_small [OF b] by (simp only: unat_eq_nat_uint)
  show "word_of_int (mrs_size s div psize tp) \<noteq> (0::u64)" if "0 < nat (mrs_size s div psize tp)"
  proof
    assume "word_of_int (mrs_size s div psize tp) = (0::u64)"
    then show False using u that by (simp only: unsigned_0)
  qed
qed

lemma free_page:
  assumes "subs_used tp d T" "page tp a = x" "\<And>a. page tp a = x \<Longrightarrow> T a = None"
  shows "page_section tp d x = 0"
  using assms unfolding subs_used_def by metis

lemma aligned_free:
  assumes "subs_used tp d T" and fs: "free_sec s T"
    and al: "uint (mrs_offset_within_address_space s) mod psize tp = 0" "mrs_size s mod psize tp = 0"
  defines "index \<equiv> page tp (mrs_offset_within_address_space s)" and "nb \<equiv> nat (mrs_size s div psize tp)"
  shows "\<And>x. x \<in> {index..<index + nb} \<Longrightarrow> page_section tp d x = 0" "index + nb \<le> pages tp"
proof -
  have so: "sec_ok s" and fr: "\<And>a. in_sec s a \<Longrightarrow> T a = None" using fs by (simp_all add: free_sec_def)
  note ap = aligned_pages [OF al so, folded index_def nb_def]
  have pex: "\<exists>a. page tp a = x" if x: "x \<in> {index..<index + nb}" for x
  proof -
    have "int x * psize tp < int (index + nb) * psize tp" using x by simp
    then show ?thesis using page_ex [of x tp] ap(2) by (meson less_le_trans)
  qed
  show "page_section tp d x = 0" if x: "x \<in> {index..<index + nb}" for x
  proof -
    obtain a where a: "page tp a = x" using pex [OF x] by blast
    show ?thesis by (rule free_page [OF assms(1) a]) (use fr ap(4) x in blast)
  qed
  have "index + nb - 1 \<in> {index..<index + nb}" using ap(1) by auto
  then obtain a where "page tp a = index + nb - 1" using pex by blast
  then show "index + nb \<le> pages tp" using page_bound [of tp a] by simp
qed

text \<open>Pages that get a new section keep the rest in use.\<close>

lemma subs_used_shown:
  assumes "subs_used tp d T" "\<And>a. page_section tp d' (page tp a) \<noteq> 0 \<Longrightarrow> page tp a \<in> X \<or> page_section tp d (page tp a) \<noteq> 0"
    "\<And>a. page tp a \<in> X \<Longrightarrow> \<exists>a'. page tp a' = page tp a \<and> T' a' \<noteq> None" "\<And>a. page tp a \<notin> X \<Longrightarrow> T' a = T a"
  shows "subs_used tp d' T'"
  unfolding subs_used_def
proof (intro allI impI)
  fix a assume a: "page_section tp d' (page tp a) \<noteq> 0"
  show "\<exists>a'. page tp a' = page tp a \<and> T' a' \<noteq> None"
  proof (cases "page tp a \<in> X")
    case False
    then have "page_section tp d (page tp a) \<noteq> 0" using a assms(2) by blast
    then obtain a' where "page tp a' = page tp a" "T a' \<noteq> None" using assms(1) unfolding subs_used_def by blast
    then show ?thesis using assms(4) [of a'] False by auto
  qed (rule assms(3))
qed

lemma register_multipage_spec:
  assumes inv: "reg_inv tp d T" and tp: "tp_ok tp" and fs: "free_sec s T"
    and al: "uint (mrs_offset_within_address_space s) mod psize tp = 0" "mrs_size s mod psize tp = 0"
    and room: "length (d_sections d) < 2 ^ tp_bits tp"
  shows "registers tp (register_multipage tp) d s T 1"
proof -
  have so: "sec_ok s" using fs by (simp_all add: free_sec_def)
  obtain r where mr: "mrs_mr s = Region r" using fs by (auto simp: free_sec_def)
  define index where "index = page tp (mrs_offset_within_address_space s)"
  define nb where "nb = nat (mrs_size s div psize tp)"
  note ap = aligned_pages [OF al so, folded index_def nb_def]
  have d: "dinv tp d T" "subs_used tp d T" "mru_section d = None" "secs_true d T" using inv by (simp_all add: reg_inv_def)
  let ?n = "length (d_sections d)" and ?X = "{index..<index + nb}"
  obtain d1 where d1: "phys_section_add tp d s = Some (d1, ?n)" "d_sections d1 = d_sections d @ [s]"
    "phys_map d1 = phys_map d" "d_nodes d1 = d_nodes d" "nodes_nb d1 = nodes_nb d" "d_subpages d1 = d_subpages d" "mru_section d1 = mru_section d"
    using section_add [OF tp room] by blast
  note i1 = dinv_add [OF d(1) tp so room d1(2-6)]
  have sn: "d_sections d1 ! ?n = s" using d1(2) by simp
  have "0 < ?n" "?n < length (d_sections d1)" "nodes_nb d1 + 32 \<le> 16 * length (d_sections d1)"
    using dinvD(2) [OF d(1)] d1(2,5) by (auto simp: sections_ok_def)
  moreover have "serves tp d1 (show_sec s T) (page tp a) s" if "page tp a \<in> ?X" for a
    using that ap(4) mr by (simp add: serves_def show_sec_def)
  ultimately have "\<exists>d'. phys_page_set tp d1 index nb ?n = Some d' \<and> dinv tp d' (show_sec s T) \<and> d_sections d' = d_sections d1
      \<and> d_subpages d' = d_subpages d1 \<and> mru_section d' = mru_section d1
      \<and> (\<forall>a. page_section tp d' (page tp a) = (if page tp a \<in> ?X then ?n else page_section tp d1 (page tp a)))"
    using aligned_free [OF d(2) fs al, folded index_def nb_def] ap(4)
    by (intro dinv_set [OF i1(1) _ _ tp ap(1)]) (auto simp: sn i1(2) show_sec_def)
  then obtain d' where d': "phys_page_set tp d1 index nb ?n = Some d'" "dinv tp d' (show_sec s T)" "d_sections d' = d_sections d1"
    "mru_section d' = mru_section d1" "\<And>a. page_section tp d' (page tp a) = (if page tp a \<in> ?X then ?n else page_section tp d1 (page tp a))"
    by blast
  have "subs_used tp d' (show_sec s T)"
  proof (rule subs_used_shown [OF d(2), of _ ?X])
    show "\<exists>a'. page tp a' = page tp a \<and> show_sec s T a' \<noteq> None" if "page tp a \<in> ?X" for a
      using that ap(4) mr by (intro exI [of _ a]) (simp add: show_sec_def sec_target_def)
  qed (use d'(5) i1(2) ap(4) in \<open>auto simp: show_sec_def split: if_splits\<close>)
  moreover have "word_of_int (mrs_size s div psize tp) \<noteq> (0::u64)" by (rule num_pages(3) [OF tp so]) (use ap(1) in \<open>simp only: nb_def\<close>)
  then have "register_multipage tp d s = Some d'"
    unfolding register_multipage_def d1(1) option.case prod.case num_pages [OF tp so]
    using d'(1) unfolding index_def nb_def page_def by (simp only: if_False)
  moreover have "secs_true d' (show_sec s T)" by (rule secs_true_show [OF d(4) fs]) (use d'(3) d1(2) in auto)
  ultimately show ?thesis using d'(2-4) d1(2,7) d(3) by (simp add: registers_def reg_inv_def)
qed

section \<open>Subpages\<close>

lemma register_idx_length [simp]: "length (register_idx sub idx eidx n) = length sub"
  by (induction sub idx eidx n rule: register_idx.induct) (subst register_idx.simps, simp)

lemma register_idx_nth: "i < length sub \<Longrightarrow> register_idx sub idx eidx n ! i = (if idx \<le> i \<and> i \<le> eidx then n else sub ! i)"
proof (induction sub idx eidx n rule: register_idx.induct)
  case (1 sub idx eidx n)
  show ?case
    by (subst register_idx.simps) (use 1 in \<open>auto simp: nth_list_update not_less_eq_eq le_Suc_eq\<close>)
qed

lemma register_idx_set: "set (register_idx sub idx eidx n) \<subseteq> insert n (set sub)"
proof
  fix m assume "m \<in> set (register_idx sub idx eidx n)"
  then obtain i where "i < length sub" "m = register_idx sub idx eidx n ! i" by (auto simp: in_set_conv_nth)
  then show "m \<in> insert n (set sub)" by (simp add: register_idx_nth)
qed

lemma unassigned_mr:
  assumes "dinv tp d T" "page tp a = x"
  shows "mrs_mr (d_sections d ! page_section tp d x) = Io_Mem_Unassigned \<longleftrightarrow> page_section tp d x = 0"
proof
  assume "mrs_mr (d_sections d ! page_section tp d x) = Io_Mem_Unassigned"
  then show "page_section tp d x = 0" using dinvD(5) [OF assms(1), of a] assms(2) by (auto simp: serves_def)
next
  assume "page_section tp d x = 0"
  then show "mrs_mr (d_sections d ! page_section tp d x) = Io_Mem_Unassigned"
    using dinvD(2) [OF assms(1)] by (auto simp: sections_ok_def dummy_section_def)
qed

lemma page_size_int: "int (TARGET_PAGE_SIZE tp) = psize tp"
  by (simp add: TARGET_PAGE_SIZE_def)

text \<open>The section of a subpage.\<close>

abbreviation subsection_of :: "target_page \<Rightarrow> nat \<Rightarrow> u64 \<Rightarrow> phys_section" where
  "subsection_of tp k base \<equiv> \<lparr>mrs_mr = Subpage k, mrs_offset_within_region = 0,
     mrs_size = int (TARGET_PAGE_SIZE tp), mrs_offset_within_address_space = base, mrs_readonly = False\<rparr>"

lemma subsection_page:
  assumes "uint base = int x * psize tp"
  shows "in_sec (subsection_of tp k base) a \<longleftrightarrow> page tp a = x"
  using assms by (auto simp: in_sec_def page_iff page_size_int)

lemma dinv_subpage:
  assumes "dinv tp d T"
  shows "dinv tp (fst (subpage_init tp d base)) T"
proof -
  let ?d = "fst (subpage_init tp d base)"
  note h = dinvD [OF assms]
  have f: "d_sections ?d = d_sections d" "d_nodes ?d = d_nodes d" "phys_map ?d = phys_map d" "nodes_nb ?d = nodes_nb d"
    "d_subpages ?d = d_subpages d @ [\<lparr>sp_base = base, sub_section = replicate (TARGET_PAGE_SIZE tp) 0\<rparr>]"
    by (simp_all add: subpage_init_def)
  have p: "page_section tp ?d = page_section tp d" using f by (intro ext) (simp add: page_section_def)
  have "serves tp ?d T x s" if "serves tp d T x s" for x s
    using that f unfolding serves_def by (cases "mrs_mr s") (simp_all add: nth_append)
  moreover have "sections_ok tp ?d" using h(2) f by (auto simp: sections_ok_def TARGET_PAGE_SIZE_def)
  moreover have "map_ok tp ?d" using h(1) f by (simp add: map_ok_def)
  ultimately show ?thesis unfolding dinv_def p f(1) using h(3-6) by simp
qed

lemma new_subpage:
  assumes inv: "dinv tp d T" and tp: "tp_ok tp" and b: "uint base = int x * psize tp" and z: "page_section tp d x = 0"
    and room: "length (d_sections d) < 2 ^ tp_bits tp"
  shows "\<exists>d' k. find_subpage tp d base = Some (d', k) \<and> dinv tp d' T \<and> mru_section d' = mru_section d
    \<and> (\<exists>t k'. d_sections d' = d_sections d @ [t] \<and> mrs_mr t = Subpage k') \<and> mrs_mr (d_sections d' ! page_section tp d' x) = Subpage k
    \<and> (\<forall>a. page tp a \<noteq> x \<longrightarrow> page_section tp d' (page tp a) = page_section tp d (page tp a))"
proof -
  let ?n = "length (d_sections d)" and ?k = "length (d_subpages d)"
  let ?s = "subsection_of tp ?k base"
  have px: "page tp base = x" using b by (simp add: page_iff)
  define d1 where "d1 = fst (subpage_init tp d base)"
  have d1: "subpage_init tp d base = (d1, ?k)" "d_sections d1 = d_sections d" "mru_section d1 = mru_section d"
    "d_subpages d1 = d_subpages d @ [\<lparr>sp_base = base, sub_section = replicate (TARGET_PAGE_SIZE tp) 0\<rparr>]" "nodes_nb d1 = nodes_nb d"
    "page_section tp d1 = page_section tp d"
    by (simp_all add: d1_def subpage_init_def page_section_def fun_eq_iff)
  have i1: "dinv tp d1 T" unfolding d1_def by (rule dinv_subpage [OF inv])
  have bound: "int x * psize tp + psize tp \<le> 2 ^ 64"
    by (rule page_end [OF tp]) (use b unsigned_less [of base, where ?'a = int] in simp)
  have so: "sec_ok ?s" using b bound by (simp add: sec_ok_def page_size_int)
  have room1: "length (d_sections d1) < 2 ^ tp_bits tp" using room d1(2) by simp
  obtain d2 where d2: "phys_section_add tp d1 ?s = Some (d2, ?n)" "d_sections d2 = d_sections d1 @ [?s]" "phys_map d2 = phys_map d1"
    "d_nodes d2 = d_nodes d1" "nodes_nb d2 = nodes_nb d1" "d_subpages d2 = d_subpages d1" "mru_section d2 = mru_section d1"
    using section_add [OF tp room1, of ?s] d1(2) by auto
  note i2 = dinv_add [OF i1 tp so room1 d2(2-6)]
  have sn: "d_sections d2 ! ?n = ?s" using d1(2) d2(2) by simp
  have z0: "d_sections d2 ! 0 = dummy_section" "0 < ?n" "nodes_nb d2 + 32 \<le> 16 * length (d_sections d2)"
    using dinvD(2) [OF inv] d1(2,5) d2(2,5) by (auto simp: sections_ok_def)
  have "serves tp d2 T x ?s"
    using dinvD(4) [OF inv] z b subpage_idx_less [OF tp] z0(1) dummy_ok(2-4) d1(4) d2(6) page_bounds [where tp = tp]
    by (auto simp: serves_def subsection_page [OF b, unfolded page_size_int] TARGET_PAGE_SIZE_def unat_eq_nat_uint nat_mult_distrib nat_power_eq)
  then have "\<exists>d'. phys_page_set tp d2 x 1 ?n = Some d' \<and> dinv tp d' T \<and> d_sections d' = d_sections d2 \<and> d_subpages d' = d_subpages d2
      \<and> mru_section d' = mru_section d2
      \<and> (\<forall>a. page_section tp d' (page tp a) = (if page tp a \<in> {x..<x + 1} then ?n else page_section tp d2 (page tp a)))"
    using z z0(2,3) d1(2,6) d2(2) i2(2) px page_bound [of tp base] subsection_page [OF b] sn
    by (intro dinv_set [OF i2(1) _ _ tp]) auto
  then show ?thesis
    using z dinvD(2) [OF inv] d1 d2 sn i2(2) px find_uncompacted [OF inv, of base] unassigned_mr [OF inv px]
    by (auto simp: find_subpage_def page_def)
qed

lemma find_subpage_spec:
  assumes inv: "dinv tp d T" and tp: "tp_ok tp" and b: "uint base = int x * psize tp" and a: "page tp a = x" "T a = None"
    and room: "length (d_sections d) < 2 ^ tp_bits tp"
  shows "\<exists>d' k. find_subpage tp d base = Some (d', k) \<and> dinv tp d' T \<and> mru_section d' = mru_section d
    \<and> length (d_sections d') \<le> Suc (length (d_sections d)) \<and> mrs_mr (d_sections d' ! page_section tp d' x) = Subpage k
    \<and> (\<forall>t\<in>set (d_sections d'). t \<in> set (d_sections d) \<or> (\<exists>k. mrs_mr t = Subpage k))
    \<and> (\<forall>a. page tp a \<noteq> x \<longrightarrow> page_section tp d' (page tp a) = page_section tp d (page tp a))"
proof (cases "page_section tp d x = 0")
  case True
  from new_subpage [OF inv tp b True room] show ?thesis by fastforce
next
  case False
  have px: "page tp base = x" using b by (simp add: page_iff)
  note un = unassigned_mr [OF inv px]
  have "serves tp d T x (d_sections d ! page_section tp d x)" using dinvD(5) [OF inv, of a] a(1) False by simp
  then have "mrs_mr (d_sections d ! page_section tp d x) \<noteq> Region r" for r using a by (auto simp: serves_def sec_target_def)
  then obtain k where k: "mrs_mr (d_sections d ! page_section tp d x) = Subpage k" using un False by (cases "mrs_mr (d_sections d ! page_section tp d x)") auto
  then have "find_subpage tp d base = Some (d, k)" using find_uncompacted [OF inv, of base] px by (simp add: find_subpage_def)
  then show ?thesis using inv k by auto
qed

lemma dinv_piece:
  assumes inv: "dinv tp d T" and tp: "tp_ok tp" and n: "n < length (d_sections d)" "d_sections d ! n = s" "mrs_mr s = Region q"
    and k: "mrs_mr (d_sections d ! page_section tp d x) = Subpage k" and px: "page tp b = x"
    and s: "\<And>a. in_sec s a \<Longrightarrow> page tp a = x"
      "\<And>a. page tp a = x \<Longrightarrow> i \<le> SUBPAGE_IDX tp a \<and> SUBPAGE_IDX tp a \<le> j \<longleftrightarrow> in_sec s a"
  defines "sp \<equiv> d_subpages d ! k"
  shows "dinv tp (d\<lparr>d_subpages := (d_subpages d)[k := sp\<lparr>sub_section := register_idx (sub_section sp) i j n\<rparr>]\<rparr>) (show_sec s T)"
proof -
  let ?d = "d\<lparr>d_subpages := (d_subpages d)[k := sp\<lparr>sub_section := register_idx (sub_section sp) i j n\<rparr>]\<rparr>"
  note h = dinvD [OF inv]
  have p: "page_section tp ?d = page_section tp d" by (intro ext) (simp add: page_section_def)
  have nz: "page_section tp d x \<noteq> 0" using unassigned_mr [OF inv px] k by auto
  then have sx: "serves tp d T x (d_sections d ! page_section tp d x)" using h(5) [of b] px by simp
  then have kl: "k < length (d_subpages d)" and base: "unat (sp_base sp) = x * 2 ^ tp_bits tp"
    and Tx: "\<And>a. page tp a = x \<Longrightarrow> T a = sec_target (d_sections d ! (sub_section sp ! SUBPAGE_IDX tp a)) a
      \<and> in_sec (d_sections d ! (sub_section sp ! SUBPAGE_IDX tp a)) a \<and> (\<forall>k'. mrs_mr (d_sections d ! (sub_section sp ! SUBPAGE_IDX tp a)) \<noteq> Subpage k')"
    using k by (simp_all add: serves_def sp_def)
  have spm: "sp \<in> set (d_subpages d)" using kl by (simp add: sp_def)
  have len: "length (sub_section sp) = 2 ^ tp_bits tp" using h(2) spm by (simp add: sections_ok_def)
  have serve: "serves tp ?d (show_sec s T) y (d_sections d ! page_section tp d y)" if y: "serves tp d T y (d_sections d ! page_section tp d y)" for y
  proof (cases "y = x")
    case True
    then show ?thesis
      using sx k kl s(2) Tx n(2,3) subpage_idx_less [OF tp] len
      by (auto simp: serves_def register_idx_nth show_sec_def sp_def)
  next
    case False
    then have "show_sec s T a = T a" if "page tp a = y" for a using s(1) that by (auto simp: show_sec_def)
    moreover have "k' \<noteq> k" if "mrs_mr (d_sections d ! page_section tp d y) = Subpage k'" for k'
      using y that base False by (auto simp: serves_def sp_def)
    ultimately show ?thesis using y by (cases "mrs_mr (d_sections d ! page_section tp d y)") (simp_all add: serves_def)
  qed
  have old: "length (sub_section q) = 2 ^ tp_bits tp \<and> (\<forall>n\<in>set (sub_section q). n < length (d_sections d))" if "q \<in> set (d_subpages d)" for q
    using h(2) that by (simp add: sections_ok_def)
  have "length (sub_section q) = 2 ^ tp_bits tp \<and> (\<forall>n\<in>set (sub_section q). n < length (d_sections d))" if "q \<in> set (d_subpages ?d)" for q
  proof -
    have "q = sp\<lparr>sub_section := register_idx (sub_section sp) i j n\<rparr> \<or> q \<in> set (d_subpages d)"
      using that set_update_subset_insert by fastforce
    then show ?thesis using old [of q] old [OF spm] register_idx_set [of "sub_section sp" i j n] n(1) by auto
  qed
  then have "sections_ok tp ?d" using h(2) by (simp add: sections_ok_def)
  moreover have "show_sec s T a = None" if "page_section tp d (page tp a) = 0" for a
    using that nz s(1) [of a] h(4) [of a] by (auto simp: show_sec_def)
  moreover have "map_ok tp ?d" using h(1) by (simp add: map_ok_def)
  ultimately show ?thesis unfolding dinv_def p using serve h(3,5,6) by simp
qed

text \<open>Offsets in a page survive the conversion to 32 bits.\<close>

lemma page_split: "uint a = int (page tp a) * psize tp + uint a mod psize tp"
  unfolding int_page by (rule div_mult_mod_eq [symmetric])

lemma idx_u32:
  assumes tp: "tp_ok tp" and w: "uint (w::u64) < psize tp"
  shows "int (unat (ucast w :: u32)) = uint w" "int (SUBPAGE_IDX tp (ucast (ucast w :: u32))) = uint w"
proof -
  have "psize tp \<le> 2 ^ 16" using tp by (intro power_increasing) (simp_all add: tp_ok_def)
  then have b: "uint w < 2 ^ 16" using w by simp
  have u: "uint (ucast w :: u32) = uint w" using b by (subst unsigned_ucast_eq) (simp add: take_bit_int_eq_self_iff)
  then show "int (unat (ucast w :: u32)) = uint w" by simp
  have "uint (ucast v :: u64) = uint v" for v :: u32
    using unsigned_less [of v, where ?'a = int] by (subst unsigned_ucast_eq) (simp add: take_bit_int_eq_self_iff)
  then have "uint (ucast (ucast w :: u32) :: u64) = uint w" using u by (simp only:)
  then show "int (SUBPAGE_IDX tp (ucast (ucast w :: u32))) = uint w" using w by (simp only: subpage_idx [OF tp]) simp
qed

text \<open>The first and the last index of a section within one page.\<close>

lemma piece_bounds:
  assumes tp: "tp_ok tp" and so: "sec_ok s" and pg: "\<And>a. in_sec s a \<Longrightarrow> page tp a = page tp (mrs_offset_within_address_space s)"
  defines "r \<equiv> uint (mrs_offset_within_address_space s) mod psize tp"
  shows "r + mrs_size s \<le> psize tp" "uint (mrs_offset_within_address_space s) = int (page tp (mrs_offset_within_address_space s)) * psize tp + r"
proof -
  let ?o = "mrs_offset_within_address_space s"
  show o: "uint ?o = int (page tp ?o) * psize tp + r" unfolding r_def by (rule page_split)
  have sz: "0 < mrs_size s" "uint ?o + mrs_size s \<le> 2 ^ 64" using so by (simp_all add: sec_ok_def)
  define l where "l = (word_of_int (uint ?o + mrs_size s - 1) :: u64)"
  have l: "uint l = uint ?o + mrs_size s - 1" unfolding l_def by (rule uint_of_int_small) (use sz uint_nonnegative [of ?o] in linarith)+
  then have "in_sec s l" using sz by (simp add: in_sec_def)
  then have "uint l < int (page tp ?o) * psize tp + psize tp" using pg page_bounds(2) [of l tp] by simp
  then show "r + mrs_size s \<le> psize tp" using l o by linarith
qed

lemma piece_indices:
  assumes tp: "tp_ok tp" and pa: "page tp a = page tp (mrs_offset_within_address_space s)"
    and i: "int i = uint (mrs_offset_within_address_space s) mod psize tp" "int j = uint (mrs_offset_within_address_space s) mod psize tp + mrs_size s - 1"
  shows "i \<le> SUBPAGE_IDX tp a \<and> SUBPAGE_IDX tp a \<le> j \<longleftrightarrow> in_sec s a"
proof -
  let ?o = "mrs_offset_within_address_space s"
  have a: "uint a = int (page tp ?o) * psize tp + int (SUBPAGE_IDX tp a)" unfolding subpage_idx [OF tp] pa [symmetric] by (rule page_split)
  have o: "uint ?o = int (page tp ?o) * psize tp + int i" unfolding i by (rule page_split)
  have "i \<le> SUBPAGE_IDX tp a \<longleftrightarrow> uint ?o \<le> uint a" using a o by simp
  moreover have "SUBPAGE_IDX tp a \<le> j \<longleftrightarrow> uint a < uint ?o + mrs_size s" using a o i by linarith
  ultimately show ?thesis by (simp add: in_sec_def)
qed

lemma register_piece:
  assumes tp: "tp_ok tp" and so: "sec_ok s" and pg: "\<And>a. in_sec s a \<Longrightarrow> page tp a = page tp (mrs_offset_within_address_space s)"
    and d1: "find_subpage tp d (mrs_offset_within_address_space s AND TARGET_PAGE_MASK tp) = Some (d1, k)"
    and d2: "phys_section_add tp d1 s = Some (d2, n)"
  shows "\<exists>i j. register_subpage tp d s = Some (d2\<lparr>d_subpages := (d_subpages d2)[k := (d_subpages d2 ! k)\<lparr>sub_section :=
      register_idx (sub_section (d_subpages d2 ! k)) i j n\<rparr>]\<rparr>) \<and> int i = uint (mrs_offset_within_address_space s) mod psize tp
    \<and> int j = uint (mrs_offset_within_address_space s) mod psize tp + mrs_size s - 1"
proof -
  let ?o = "mrs_offset_within_address_space s"
  let ?r = "uint ?o mod psize tp"
  define st where "st = ?o AND NOT_TARGET_PAGE_MASK tp"
  define en where "en = st + word_of_int (mrs_size s) - 1"
  have st: "uint st = ?r" unfolding st_def by (rule page_offset [OF tp])
  have pb: "?r + mrs_size s \<le> psize tp" by (rule piece_bounds(1) [OF tp so pg])
  have sz: "0 < mrs_size s" using so by (simp add: sec_ok_def)
  have P: "psize tp \<le> 2 ^ 16" using tp by (intro power_increasing) (simp_all add: tp_ok_def)
  have r0: "0 \<le> ?r" "(2::int) ^ 16 < 2 ^ 64" by simp_all
  have b: "0 \<le> ?r + mrs_size s - 1" "?r + mrs_size s - 1 < 2 ^ 64" "mrs_size s < 2 ^ 64" using pb P sz r0 by linarith+
  have "en = word_of_int (uint st + mrs_size s - 1)" by (simp add: en_def)
  then have en: "uint en = ?r + mrs_size s - 1" unfolding st using uint_of_int_small [OF b(1,2)] by (simp only:)
  have less: "uint st < psize tp" "uint en < psize tp" using st en pb sz by linarith+
  note i = idx_u32 [OF tp less(1)] and j = idx_u32 [OF tp less(2)]
  have "\<not> (unat (ucast st :: u32) \<ge> TARGET_PAGE_SIZE tp \<or> unat (ucast en :: u32) \<ge> TARGET_PAGE_SIZE tp)"
    using i(1) j(1) less page_size_int [of tp] by linarith
  then have "register_subpage tp d s = Some (d2\<lparr>d_subpages := (d_subpages d2)[k := (d_subpages d2 ! k)\<lparr>sub_section :=
      register_idx (sub_section (d_subpages d2 ! k)) (SUBPAGE_IDX tp (ucast (ucast st :: u32))) (SUBPAGE_IDX tp (ucast (ucast en :: u32))) n\<rparr>]\<rparr>)"
    using d1 d2 int128_get64_Some [of "mrs_size s"] sz b(3) by (simp add: register_subpage_def subpage_register_def Let_def st_def en_def)
  then show ?thesis using i(2) j(2) st en by metis
qed

lemma register_subpage_spec:
  assumes inv: "reg_inv tp d T" and tp: "tp_ok tp" and fs: "free_sec s T"
    and pg: "\<And>a. in_sec s a \<Longrightarrow> page tp a = page tp (mrs_offset_within_address_space s)"
    and msk: "uint (mrs_offset_within_address_space s) < 2 ^ tp_mask_bits tp"
    and room: "Suc (length (d_sections d)) < 2 ^ tp_bits tp"
  shows "registers tp (register_subpage tp) d s T 2"
proof -
  let ?o = "mrs_offset_within_address_space s"
  let ?x = "page tp ?o" and ?r = "uint ?o mod psize tp"
  have so: "sec_ok s" and o: "in_sec s ?o" "T ?o = None" using fs by (auto simp: free_sec_def sec_ok_def in_sec_def)
  obtain q where mr: "mrs_mr s = Region q" using fs by (auto simp: free_sec_def)
  have d: "dinv tp d T" "subs_used tp d T" "mru_section d = None" "secs_true d T" using inv by (simp_all add: reg_inv_def)
  obtain d1 k where d1: "find_subpage tp d (?o AND TARGET_PAGE_MASK tp) = Some (d1, k)" "dinv tp d1 T" "mru_section d1 = mru_section d"
    "length (d_sections d1) \<le> Suc (length (d_sections d))" "mrs_mr (d_sections d1 ! page_section tp d1 ?x) = Subpage k"
    "\<And>a. page tp a \<noteq> ?x \<Longrightarrow> page_section tp d1 (page tp a) = page_section tp d (page tp a)"
    "\<forall>t\<in>set (d_sections d1). t \<in> set (d_sections d) \<or> (\<exists>k. mrs_mr t = Subpage k)"
    using find_subpage_spec [OF d(1) tp page_base [OF tp msk] refl o(2)] room by auto
  let ?n = "length (d_sections d1)"
  have room1: "?n < 2 ^ tp_bits tp" using d1(4) room by simp
  obtain d2 where d2: "phys_section_add tp d1 s = Some (d2, ?n)" "d_sections d2 = d_sections d1 @ [s]" "phys_map d2 = phys_map d1"
    "d_nodes d2 = d_nodes d1" "nodes_nb d2 = nodes_nb d1" "d_subpages d2 = d_subpages d1" "mru_section d2 = mru_section d1"
    using section_add [OF tp room1] by blast
  note i2 = dinv_add [OF d1(2) tp so room1 d2(2-6)]
  have n2: "?n < length (d_sections d2)" "d_sections d2 ! ?n = s" using d2(2) by simp_all
  have k2: "mrs_mr (d_sections d2 ! page_section tp d2 ?x) = Subpage k"
    using d1(5) dinvD(3) [OF d1(2), of ?x] d2(2) i2(2) by (simp add: nth_append)
  obtain i j where ij: "register_subpage tp d s = Some (d2\<lparr>d_subpages := (d_subpages d2)[k := (d_subpages d2 ! k)\<lparr>sub_section :=
      register_idx (sub_section (d_subpages d2 ! k)) i j ?n\<rparr>]\<rparr>)" "int i = ?r" "int j = ?r + mrs_size s - 1"
    using register_piece [OF tp so pg d1(1) d2(1)] d2(6) by metis
  from dinv_piece [OF i2(1) tp n2 mr k2 refl pg piece_indices [OF tp _ ij(2,3)]]
  have inv': "dinv tp (d2\<lparr>d_subpages := (d_subpages d2)[k := (d_subpages d2 ! k)\<lparr>sub_section :=
      register_idx (sub_section (d_subpages d2 ! k)) i j ?n\<rparr>]\<rparr>) (show_sec s T)" (is "dinv tp ?d _") by simp
  have ps: "page_section tp ?d = page_section tp d1" using i2(2) by (simp add: page_section_def fun_eq_iff)
  have "subs_used tp ?d (show_sec s T)"
  proof (rule subs_used_shown [OF d(2), of _ "{?x}"])
    show "\<exists>a'. page tp a' = page tp a \<and> show_sec s T a' \<noteq> None" if "page tp a \<in> {?x}" for a
      using that o(1) mr by (intro exI [of _ ?o]) (simp add: show_sec_def sec_target_def)
    show "page tp a \<in> {?x} \<or> page_section tp d (page tp a) \<noteq> 0" if "page_section tp ?d (page tp a) \<noteq> 0" for a
      using that d1(6) [of a] unfolding ps by (cases "page tp a = ?x") simp_all
    show "show_sec s T a = T a" if "page tp a \<notin> {?x}" for a using that pg by (auto simp: show_sec_def)
  qed
  moreover have "secs_true ?d (show_sec s T)" by (rule secs_true_show [OF d(4) fs]) (use d1(7) d2(2) in auto)
  ultimately show ?thesis unfolding registers_def ij(1) using inv' d(3) d1(3,4) d2(2,7) by (simp add: reg_inv_def)
qed

end
