(* ===== verification/Phys_Add.thy ===== *)
theory Phys_Add
  imports Phys_Register
begin

text \<open>
  \<open>flatview_add_to_dispatch\<close> cuts a section into a subpage, whole pages and a subpage;
  \<open>generate_memory_topology\<close> adds all ranges of a view and compacts the tree.
\<close>

section \<open>Cutting a section\<close>

abbreviation sec_off :: "phys_section \<Rightarrow> int" where
  "sec_off s \<equiv> uint (mrs_offset_within_address_space s)"

text \<open>What is left to register after a part of \<open>s\<close>, on top of \<open>T\<close>, from the structure \<open>d\<close>.\<close>

definition part_left :: "target_page \<Rightarrow> phys_section \<Rightarrow> (u64 \<Rightarrow> (nat \<times> u64 \<times> bool) option) \<Rightarrow> dispatch \<Rightarrow> phys_section option \<Rightarrow> bool" where
  "part_left tp s T d left \<longleftrightarrow> (case left of
     None \<Rightarrow> reg_inv tp d (show_sec s T)
   | Some s' \<Rightarrow> \<exists>T'. reg_inv tp d T' \<and> free_sec s' T' \<and> show_sec s' T' = show_sec s T \<and> sec_off s' + mrs_size s' = sec_off s + mrs_size s)"

lemma section_rest_spec:
  assumes fs: "free_sec s T" and n: "0 < n" "n < mrs_size s"
  defines "s1 \<equiv> s\<lparr>mrs_size := n\<rparr>"
  shows "\<exists>s'. section_rest s n = Some s' \<and> sec_off s' = sec_off s + n \<and> mrs_size s' = mrs_size s - n
    \<and> free_sec s' (show_sec s1 T) \<and> show_sec s' (show_sec s1 T) = show_sec s T"
proof -
  have so: "sec_ok s" and fr: "\<And>a. in_sec s a \<Longrightarrow> T a = None" using fs by (simp_all add: free_sec_def)
  obtain r where mr: "mrs_mr s = Region r" using fs by (auto simp: free_sec_def)
  have b: "n < 2 ^ 64" "sec_off s + n < 2 ^ 64" "0 \<le> sec_off s" using so n uint_nonnegative [of "mrs_offset_within_address_space s"]
    unfolding sec_ok_def by linarith+
  define s' where "s' = s\<lparr>mrs_size := mrs_size s - n, mrs_offset_within_address_space := mrs_offset_within_address_space s + word_of_int n,
    mrs_offset_within_region := mrs_offset_within_region s + word_of_int n\<rparr>"
  have r: "section_rest s n = Some s'" using n b by (simp add: section_rest_def int128_get64_Some s'_def)
  have "mrs_offset_within_address_space s' = word_of_int (sec_off s + n)" by (simp add: s'_def)
  then have o: "sec_off s' = sec_off s + n" using uint_of_int_small [of "sec_off s + n"] b n(1) by (simp only:)
  have sz: "mrs_size s' = mrs_size s - n" by (simp add: s'_def)
  have tg: "sec_target s' a = sec_target s a" "sec_target s1 a = sec_target s a" for a by (simp_all add: sec_target_def s'_def s1_def mr)
  have i: "in_sec s1 a \<longleftrightarrow> sec_off s \<le> uint a \<and> uint a < sec_off s + n" "in_sec s' a \<longleftrightarrow> sec_off s + n \<le> uint a \<and> uint a < sec_off s + mrs_size s"
    "in_sec s a \<longleftrightarrow> sec_off s \<le> uint a \<and> uint a < sec_off s + mrs_size s" for a
    by (simp_all add: in_sec_def s1_def o sz)
  have "show_sec s' (show_sec s1 T) = show_sec s T"
    using n by (auto simp: fun_eq_iff show_sec_def i tg)
  moreover have "free_sec s' (show_sec s1 T)"
    using so n fr mr unfolding free_sec_def sec_ok_def o sz i by (auto simp: show_sec_def i s'_def)
  ultimately show ?thesis using r o sz by blast
qed

lemma register_part_spec:
  assumes reg: "registers tp reg d (s\<lparr>mrs_size := n\<rparr>) T m" and fs: "free_sec s T" and n: "0 < n" "n \<le> mrs_size s"
  shows "\<exists>d' left. register_part reg d s n = Some (d', left) \<and> length (d_sections d') \<le> length (d_sections d) + m \<and> part_left tp s T d' left
    \<and> (\<forall>s'. left = Some s' \<longrightarrow> sec_off s' = sec_off s + n \<and> mrs_size s' = mrs_size s - n)"
proof -
  obtain d' where d': "reg d (s\<lparr>mrs_size := n\<rparr>) = Some d'" "reg_inv tp d' (show_sec (s\<lparr>mrs_size := n\<rparr>) T)"
    "length (d_sections d') \<le> length (d_sections d) + m" using reg unfolding registers_def by blast
  show ?thesis
  proof (cases "mrs_size s = n")
    case True
    then have e: "s\<lparr>mrs_size := n\<rparr> = s" by simp
    show ?thesis using d' True unfolding register_part_def part_left_def e by simp
  next
    case False
    then obtain s' where "section_rest s n = Some s'" "sec_off s' = sec_off s + n" "mrs_size s' = mrs_size s - n"
      "free_sec s' (show_sec (s\<lparr>mrs_size := n\<rparr>) T)" "show_sec s' (show_sec (s\<lparr>mrs_size := n\<rparr>) T) = show_sec s T"
      using section_rest_spec [OF fs n(1)] n(2) by auto
    then show ?thesis using d' False by (auto simp: register_part_def part_left_def)
  qed
qed

section \<open>The three parts\<close>

lemma free_sec_cut: "free_sec s T \<Longrightarrow> 0 < n \<Longrightarrow> n \<le> mrs_size s \<Longrightarrow> free_sec (s\<lparr>mrs_size := n\<rparr>) T"
  unfolding free_sec_def sec_ok_def in_sec_def by auto

lemma one_page:
  assumes "sec_off s mod psize tp + mrs_size s \<le> psize tp" "in_sec s a"
  shows "page tp a = page tp (mrs_offset_within_address_space s)"
proof -
  have "0 \<le> sec_off s mod psize tp" by simp
  then show ?thesis
    using assms page_split [of "mrs_offset_within_address_space s" tp] unfolding in_sec_def page_iff by linarith
qed

definition end_ok :: "target_page \<Rightarrow> phys_section \<Rightarrow> bool" where
  "end_ok tp s \<longleftrightarrow> sec_off s + mrs_size s \<le> 2 ^ tp_mask_bits tp \<or> sec_off s mod psize tp = 0 \<and> mrs_size s mod psize tp = 0"

lemma add_first_spec:
  assumes inv: "reg_inv tp d T" and tp: "tp_ok tp" and fs: "free_sec s T" and e: "end_ok tp s" and room: "Suc (length (d_sections d)) < 2 ^ tp_bits tp"
  shows "\<exists>d' left. add_first tp d s = Some (d', left) \<and> length (d_sections d') \<le> length (d_sections d) + 2 \<and> part_left tp s T d' left
    \<and> (\<forall>s'. left = Some s' \<longrightarrow> sec_off s' mod psize tp = 0 \<and> end_ok tp s')"
proof (cases "sec_off s mod psize tp = 0")
  case True
  then have "mrs_offset_within_address_space s AND NOT_TARGET_PAGE_MASK tp = 0"
    using page_offset [OF tp, of "mrs_offset_within_address_space s"] by (simp only: uint_0_iff)
  then show ?thesis using True inv fs e by (auto simp: add_first_def part_left_def)
next
  case False
  let ?r = "sec_off s mod psize tp" and ?o = "mrs_offset_within_address_space s"
  have r: "0 \<le> ?r" "?r < psize tp" by simp_all
  define n where "n = min (psize tp - ?r) (mrs_size s)"
  have sz: "0 < mrs_size s" using fs by (simp add: free_sec_def sec_ok_def)
  then have n: "0 < n" "n \<le> mrs_size s" "?r + n \<le> psize tp" using r by (auto simp: n_def)
  have m: "sec_off s + mrs_size s \<le> 2 ^ tp_mask_bits tp" using e False by (simp add: end_ok_def)
  have "registers tp (register_subpage tp) d (s\<lparr>mrs_size := n\<rparr>) T 2"
    using one_page [of "s\<lparr>mrs_size := n\<rparr>" tp] n m sz by (intro register_subpage_spec [OF inv tp free_sec_cut [OF fs n(1,2)] _ _ room]) simp_all
  from register_part_spec [OF this fs n(1,2)] obtain d' left where
    d': "register_part (register_subpage tp) d s n = Some (d', left)" "length (d_sections d') \<le> length (d_sections d) + 2"
    "part_left tp s T d' left" "\<And>s'. left = Some s' \<Longrightarrow> sec_off s' = sec_off s + n \<and> mrs_size s' = mrs_size s - n" by blast
  have "?o AND NOT_TARGET_PAGE_MASK tp \<noteq> 0" using page_offset [OF tp, of ?o] False by auto
  then have "add_first tp d s = Some (d', left)" using d'(1) page_align [OF tp False] by (simp add: add_first_def Let_def n_def)
  moreover have "sec_off s' mod psize tp = 0 \<and> end_ok tp s'" if "left = Some s'" for s'
  proof -
    have "0 < mrs_size s'" using d'(3) that by (auto simp: part_left_def free_sec_def sec_ok_def)
    then have "sec_off s' = sec_off s + (psize tp - ?r)" using d'(4) [OF that] by (auto simp: n_def min_def split: if_splits)
    also have "\<dots> = int (page tp ?o) * psize tp + psize tp" using page_split [of ?o tp] by linarith
    finally have "sec_off s' mod psize tp = 0" by simp
    then show ?thesis using d'(4) [OF that] m by (simp add: end_ok_def)
  qed
  ultimately show ?thesis using d'(2,3) by blast
qed

lemma whole_pages: "n = (x::int) AND - (2 ^ b) \<Longrightarrow> n = x - x mod 2 ^ b"
  by (simp add: minus_exp_eq_not_mask and_not_mask take_bit_eq_mod)

lemma add_pages_spec:
  assumes inv: "reg_inv tp d T" and tp: "tp_ok tp" and fs: "free_sec s T" and al: "sec_off s mod psize tp = 0"
    and e: "end_ok tp s" and room: "length (d_sections d) < 2 ^ tp_bits tp"
  shows "\<exists>d' left. add_pages tp d s = Some (d', left) \<and> length (d_sections d') \<le> length (d_sections d) + 1 \<and> part_left tp s T d' left
    \<and> (\<forall>s'. left = Some s' \<longrightarrow> sec_off s' mod psize tp = 0 \<and> mrs_size s' < psize tp \<and> sec_off s' < 2 ^ tp_mask_bits tp)"
proof (cases "mrs_size s \<ge> psize tp")
  case False
  then have "0 < mrs_size s" "mrs_size s mod psize tp \<noteq> 0" using fs by (simp_all add: free_sec_def sec_ok_def)
  then have "sec_off s < 2 ^ tp_mask_bits tp" using e by (simp add: end_ok_def)
  then show ?thesis using False al inv fs by (auto simp: add_pages_def part_left_def page_size_int)
next
  case True
  let ?m = "mrs_size s mod psize tp"
  define n where "n = mrs_size s - ?m"
  have "0 \<le> ?m" "?m < psize tp" by simp_all
  then have n: "0 < n" "n \<le> mrs_size s" using True unfolding n_def by linarith+
  have "n mod psize tp = 0" by (simp add: n_def minus_mod_eq_div_mult)
  then have "registers tp (register_multipage tp) d (s\<lparr>mrs_size := n\<rparr>) T 1"
    using al by (intro register_multipage_spec [OF inv tp free_sec_cut [OF fs n] _ _ room]) simp_all
  from register_part_spec [OF this fs n] obtain d' left where
    d': "register_part (register_multipage tp) d s n = Some (d', left)" "length (d_sections d') \<le> length (d_sections d) + 1"
    "part_left tp s T d' left" "\<And>s'. left = Some s' \<Longrightarrow> sec_off s' = sec_off s + n \<and> mrs_size s' = mrs_size s - n" by blast
  have "mrs_size s AND - int (TARGET_PAGE_SIZE tp) = n" unfolding page_size_int n_def by (rule whole_pages) simp
  then have "add_pages tp d s = Some (d', left)" using d'(1) True by (simp add: add_pages_def page_size_int)
  moreover have "sec_off s' mod psize tp = 0 \<and> mrs_size s' < psize tp \<and> sec_off s' < 2 ^ tp_mask_bits tp" if "left = Some s'" for s'
  proof -
    have z: "0 < mrs_size s'" using d'(3) that by (auto simp: part_left_def free_sec_def sec_ok_def)
    then have "?m \<noteq> 0" using d'(4) [OF that] by (simp add: n_def)
    then have "sec_off s + mrs_size s \<le> 2 ^ tp_mask_bits tp" using e by (simp add: end_ok_def)
    then have "sec_off s' < 2 ^ tp_mask_bits tp" using d'(4) [OF that] z by linarith
    moreover have "sec_off s' mod psize tp = 0" using d'(4) [OF that] al \<open>n mod psize tp = 0\<close> by (simp add: mod_add_eq [symmetric])
    moreover have "mrs_size s' < psize tp" using d'(4) [OF that] by (simp add: n_def)
    ultimately show ?thesis by simp
  qed
  ultimately show ?thesis using d'(2,3) by blast
qed

lemma flatview_add_spec:
  assumes inv: "reg_inv tp d T" and tp: "tp_ok tp" and fs: "free_sec s T" and e: "end_ok tp s"
    and room: "length (d_sections d) + 5 \<le> 2 ^ tp_bits tp"
  shows "registers tp (flatview_add_to_dispatch tp) d s T 5"
proof -
  obtain d1 l1 where d1: "add_first tp d s = Some (d1, l1)" "length (d_sections d1) \<le> length (d_sections d) + 2" "part_left tp s T d1 l1"
    "\<And>s'. l1 = Some s' \<Longrightarrow> sec_off s' mod psize tp = 0 \<and> end_ok tp s'"
    using add_first_spec [OF inv tp fs e] room by auto
  show ?thesis
  proof (cases l1)
    case None
    then show ?thesis using d1 by (simp add: registers_def flatview_add_to_dispatch_def part_left_def)
  next
    case (Some s1)
    then obtain T1 where T1: "reg_inv tp d1 T1" "free_sec s1 T1" "show_sec s1 T1 = show_sec s T" using d1(3) by (auto simp: part_left_def)
    obtain d2 l2 where d2: "add_pages tp d1 s1 = Some (d2, l2)" "length (d_sections d2) \<le> length (d_sections d1) + 1" "part_left tp s1 T1 d2 l2"
      "\<And>s'. l2 = Some s' \<Longrightarrow> sec_off s' mod psize tp = 0 \<and> mrs_size s' < psize tp \<and> sec_off s' < 2 ^ tp_mask_bits tp"
      using add_pages_spec [OF T1(1) tp T1(2)] d1(4) [OF Some] room d1(2) by auto
    show ?thesis
    proof (cases l2)
      case None
      then show ?thesis using d1 d2 Some T1(3) by (simp add: registers_def flatview_add_to_dispatch_def part_left_def)
    next
      case s2: (Some s2)
      then obtain T2 where T2: "reg_inv tp d2 T2" "free_sec s2 T2" "show_sec s2 T2 = show_sec s1 T1" using d2(3) by (auto simp: part_left_def)
      have "registers tp (register_subpage tp) d2 s2 T2 2"
        using d2(4) [OF s2] room d1(2) d2(2) one_page [of s2 tp] by (intro register_subpage_spec [OF T2(1) tp T2(2)]) auto
      then show ?thesis using d1(1,2) d2(1,2) Some s2 T1(3) T2(3) by (auto simp: registers_def flatview_add_to_dispatch_def)
    qed
  qed
qed

end
