(* ===== verification/Phys_Api.thy ===== *)
theory Phys_Api
  imports Phys_Add
begin

text \<open>
  The finished dispatch structure of a view: every lookup, whatever was looked up before, gives
  the section that shows at the address what the view and so the region tree show there.
\<close>

section \<open>Building\<close>

definition view_target :: "flat_range list \<Rightarrow> u64 \<Rightarrow> (nat \<times> u64 \<times> bool) option" where
  "view_target rs a = map_option (\<lambda>(r, off, ro). (r, word_of_int off, ro)) (view_at rs (uint a))"

text \<open>
  A range that does not consist of whole pages ends below the width of \<open>TARGET_PAGE_MASK\<close>.
\<close>

definition range_fits :: "target_page \<Rightarrow> flat_range \<Rightarrow> bool" where
  "range_fits tp r \<longleftrightarrow> fr_end r \<le> 2 ^ tp_mask_bits tp \<or> fr_start r mod 2 ^ tp_bits tp = 0 \<and> fr_size r mod 2 ^ tp_bits tp = 0"

lemma range_section:
  assumes "0 \<le> fr_start r" "0 < fr_size r" "fr_end r \<le> 2 ^ 64" "range_fits tp r"
  shows "\<exists>s. section_from_flat_range r = Some s \<and> end_ok tp (region_section s) \<and> sec_ok (region_section s)
    \<and> mrs_mr (region_section s) = Region (fr_mr r)
    \<and> (\<forall>a. in_sec (region_section s) a \<longleftrightarrow> fr_at r (uint a) \<noteq> None)
    \<and> (\<forall>a. in_sec (region_section s) a \<longrightarrow> sec_target (region_section s) a = view_target [r] a)"
proof -
  define s where "s = \<lparr>mrs_mr = fr_mr r, mrs_offset_within_region = fr_offset r, mrs_size = fr_size r,
    mrs_offset_within_address_space = word_of_int (fr_start r), mrs_readonly = fr_readonly r\<rparr>"
  have e: "fr_end r = fr_start r + fr_size r" by (simp add: addrrange_end_def)
  have b: "fr_start r < 2 ^ 64" using assms(2,3) e by linarith
  have o: "sec_off (region_section s) = fr_start r" using uint_of_int_small [OF assms(1) b] by (simp add: region_section_def s_def)
  have i: "in_sec (region_section s) a \<longleftrightarrow> fr_at r (uint a) \<noteq> None" for a
    unfolding in_sec_def o by (simp add: fr_at_def addrrange_contains_def e region_section_def s_def)
  have "sec_target (region_section s) a = view_target [r] a" if "in_sec (region_section s) a" for a
    using that i [of a] by (auto simp: sec_target_def view_target_def fr_at_def region_section_def s_def split: if_splits)
  moreover have "section_from_flat_range r = Some s" using assms(1) b by (simp add: section_from_flat_range_def int128_get64_Some s_def)
  moreover have "sec_ok (region_section s)" using assms(2,3) e unfolding sec_ok_def o by (simp add: region_section_def s_def)
  moreover have "end_ok tp (region_section s)" using assms(4) e unfolding end_ok_def range_fits_def o by (simp add: region_section_def s_def)
  ultimately show ?thesis using i by (auto simp: region_section_def s_def)
qed

definition over :: "(u64 \<Rightarrow> (nat \<times> u64 \<times> bool) option) \<Rightarrow> (u64 \<Rightarrow> (nat \<times> u64 \<times> bool) option) \<Rightarrow> u64 \<Rightarrow> (nat \<times> u64 \<times> bool) option" where
  "over T T' a = (case T a of None \<Rightarrow> T' a | Some t \<Rightarrow> Some t)"

lemma add_ranges_spec:
  assumes tp: "tp_ok tp"
  shows "reg_inv tp d T \<Longrightarrow> ranges_from lb rs \<Longrightarrow> 0 \<le> lb \<Longrightarrow> \<forall>a. T a \<noteq> None \<longrightarrow> uint a < lb \<Longrightarrow> \<forall>r\<in>set rs. range_fits tp r
    \<Longrightarrow> length (d_sections d) + 5 * length rs \<le> 2 ^ tp_bits tp
    \<Longrightarrow> \<exists>d'. add_ranges tp rs d = Some d' \<and> reg_inv tp d' (over T (view_target rs))"
proof (induction rs arbitrary: d T lb)
  case Nil
  have "over T (view_target []) = T" by (auto simp: fun_eq_iff over_def view_target_def split: option.splits)
  then show ?case using Nil by simp
next
  case (Cons r rs)
  have r: "lb \<le> fr_start r" "0 < fr_size r" "ranges_from (fr_end r) rs" "fr_end r \<le> 2 ^ 64" "range_fits tp r"
    using Cons.prems(2,5) ranges_from_bound by auto
  obtain s where s: "section_from_flat_range r = Some s" "end_ok tp (region_section s)" "sec_ok (region_section s)"
    "mrs_mr (region_section s) = Region (fr_mr r)" "\<And>a. in_sec (region_section s) a \<longleftrightarrow> fr_at r (uint a) \<noteq> None"
    "\<And>a. in_sec (region_section s) a \<Longrightarrow> sec_target (region_section s) a = view_target [r] a"
    using range_section [OF order_trans [OF Cons.prems(3) r(1)] r(2,4,5)] by blast
  have lt: "uint a < lb" if "T a \<noteq> None" for a using Cons.prems(4) that by blast
  have in_r: "fr_start r \<le> uint a \<and> uint a < fr_end r" if "in_sec (region_section s) a" for a
    using that s(5) by (auto simp: fr_at_def addrrange_contains_def split: if_splits)
  have none: "T a = None" if "in_sec (region_section s) a" for a
    using lt [of a] in_r [OF that] r(1) by (cases "T a") auto
  then have "free_sec (region_section s) T" using s(3,4) by (simp add: free_sec_def)
  then have "registers tp (flatview_add_to_dispatch tp) d (region_section s) T 5"
    using Cons.prems(6) by (intro flatview_add_spec [OF Cons.prems(1) tp _ s(2)]) simp_all
  then obtain d1 where d1: "flatview_add_to_dispatch tp d (region_section s) = Some d1" "reg_inv tp d1 (show_sec (region_section s) T)"
    "length (d_sections d1) \<le> length (d_sections d) + 5" unfolding registers_def by blast
  have "fr_start r < fr_end r" using r(2) by (simp add: addrrange_end_def)
  then have "uint a < fr_end r" if "show_sec (region_section s) T a \<noteq> None" for a
    using that in_r [of a] lt [of a] r(1) by (cases "in_sec (region_section s) a") (simp_all add: show_sec_def)
  then obtain d' where d': "add_ranges tp rs d1 = Some d'" "reg_inv tp d' (over (show_sec (region_section s) T) (view_target rs))"
    using Cons.IH [OF d1(2) r(3)] \<open>fr_start r < fr_end r\<close> r(1) Cons.prems(3,5,6) d1(3) by auto
  have "over (show_sec (region_section s) T) (view_target rs) a = over T (view_target (r # rs)) a" for a
  proof (cases "in_sec (region_section s) a")
    case True
    then show ?thesis using none s(5,6) by (auto simp: over_def show_sec_def view_target_def)
  next
    case False
    then have "fr_at r (uint a) = None" using s(5) by blast
    then have "view_target (r # rs) a = view_target rs a" by (simp add: view_target_def)
    then show ?thesis using False by (simp add: over_def show_sec_def split: option.split)
  qed
  then have "over (show_sec (region_section s) T) (view_target rs) = over T (view_target (r # rs))" by (rule ext)
  then show ?case using s(1) d1(1) d' by simp
qed

lemma new_spec:
  assumes "tp_ok tp"
  shows "\<exists>d. address_space_dispatch_new tp hint mem = Some d \<and> reg_inv tp d (\<lambda>_. None) \<and> length (d_sections d) = 1
    \<and> nodes_nb d = 0 \<and> (\<forall>x. page_section tp d x = 0)"
proof -
  have n: "0 < TARGET_PAGE_SIZE tp" "(1::nat) \<le> 2 ^ tp_bits tp" by (simp_all add: TARGET_PAGE_SIZE_def)
  obtain L where L: "P_L2_LEVELS tp = Suc L" using levels_pos by blast
  have e: "page_entry (Suc 0) PHYS_MAP_NODE_NIL = \<lparr>pe_skip = Suc 0, pe_ptr = PHYS_MAP_NODE_NIL\<rparr>" by (simp add: page_entry_def PHYS_MAP_NODE_NIL_def)
  obtain d where d: "address_space_dispatch_new tp hint mem = Some d" "d_sections d = [dummy_section]" "phys_map d = page_entry 1 PHYS_MAP_NODE_NIL"
    "nodes_nb d = 0" "d_subpages d = []" "mru_section d = None"
    using n by (simp add: address_space_dispatch_new_def phys_section_add_def Let_def)
  have ps: "page_section tp d x = 0" for x by (simp add: page_section_def L d(3) e)
  have "map_ok tp d" by (simp add: map_ok_def L d(3) e tree_Suc)
  moreover have "sections_ok tp d" using n d dummy_ok(1) by (simp add: sections_ok_def)
  ultimately have "dinv tp d (\<lambda>_. None)" using d(2) by (simp add: dinv_def ps)
  then show ?thesis using d dummy_ok(3) by (auto simp: reg_inv_def subs_used_def secs_true_def ps)
qed

section \<open>Lookups in the finished structure\<close>

text \<open>
  The structure is compacted; \<open>d0\<close> is its uncompacted form. The cached section is the section of
  some page.
\<close>

definition ready :: "target_page \<Rightarrow> dispatch \<Rightarrow> (u64 \<Rightarrow> (nat \<times> u64 \<times> bool) option) \<Rightarrow> bool" where
  "ready tp d T \<longleftrightarrow> secs_true d T \<and> (\<exists>d0. dinv tp d0 T \<and> d_sections d = d_sections d0 \<and> d_subpages d = d_subpages d0
     \<and> (\<forall>a. phys_page_find tp d a = Some (page_section tp d0 (page tp a)))
     \<and> (\<forall>m. mru_section d = Some m \<longrightarrow> m \<in> range (page_section tp d0)))"

lemma compact_same_find:
  assumes inv: "dinv tp d T" and tp: "tp_ok tp"
  shows "\<exists>d'. address_space_dispatch_compact tp d = Some d' \<and> d_keep d' = d_keep d
    \<and> (\<forall>a. phys_page_find tp d' a = Some (page_section tp d (page tp a)))"
proof -
  have "length (d_sections d) \<le> 2 ^ tp_bits tp" "nodes_nb d \<le> 16 * length (d_sections d)" using dinvD(2) [OF inv] by (simp_all add: sections_ok_def)
  moreover have "(2::nat) ^ tp_bits tp \<le> 2 ^ 16" using tp by (intro power_increasing) (simp_all add: tp_ok_def)
  ultimately have "nodes_nb d \<le> PHYS_MAP_NODE_NIL" by (simp add: PHYS_MAP_NODE_NIL_def)
  from dispatch_compact_spec [OF dinvD(1) [OF inv] this] obtain d' where d': "address_space_dispatch_compact tp d = Some d'" "d_keep d' = d_keep d"
    "\<And>x. page_section tp d x \<noteq> 0 \<Longrightarrow> find_loop (d_nodes d') (phys_map d') (P_L2_LEVELS tp) x = Some (page_section tp d x)"
    "\<And>x s. find_loop (d_nodes d') (phys_map d') (P_L2_LEVELS tp) x = Some s \<Longrightarrow> s = 0 \<or> s \<in> range (page_section tp d)" by blast
  have "d_sections d' = d_sections d" using d'(2) by (simp add: d_keep_def d_rest_def)
  then have "phys_page_find tp d' a = Some (page_section tp d (page tp a))" for a
    by (rule phys_page_find_section [OF inv]) (use d'(3,4) in blast)+
  then show ?thesis using d'(1,2) by blast
qed

lemma ready_compact:
  assumes "reg_inv tp d T" "tp_ok tp"
  shows "\<exists>d'. address_space_dispatch_compact tp d = Some d' \<and> ready tp d' T"
proof -
  have inv: "dinv tp d T" "mru_section d = None" "secs_true d T" using assms(1) by (simp_all add: reg_inv_def)
  obtain d' where d': "address_space_dispatch_compact tp d = Some d'" "d_keep d' = d_keep d"
    "\<forall>a. phys_page_find tp d' a = Some (page_section tp d (page tp a))" using compact_same_find [OF inv(1) assms(2)] by blast
  then have "ready tp d' T" unfolding ready_def using inv by (intro conjI exI [of _ d]) (simp_all add: d_keep_def d_rest_def secs_true_def)
  then show ?thesis using d'(1) by blast
qed

lemma mru_hit:
  assumes "dinv tp d T" "m \<in> range (page_section tp d)" "m \<noteq> 0" "section_covers_addr (d_sections d ! m) a"
  shows "m = page_section tp d (page tp a)"
proof -
  obtain x where x: "m = page_section tp d x" using assms(2) by blast
  have "sec_ok (d_sections d ! m)" using dinvD(2,3) [OF assms(1)] x by (simp add: sections_ok_def)
  then show ?thesis using dinvD(6) [OF assms(1), of x a] assms(3,4) x by (simp add: section_covers_iff)
qed

lemma page_target:
  assumes "dinv tp d T" "\<And>k. mrs_mr (d_sections d ! page_section tp d (page tp a)) \<noteq> Subpage k"
  shows "in_sec (d_sections d ! page_section tp d (page tp a)) a \<and> sec_target (d_sections d ! page_section tp d (page tp a)) a = T a"
proof (cases "page_section tp d (page tp a) = 0")
  case True
  have "d_sections d ! 0 = dummy_section" using dinvD(2) [OF assms(1)] by (auto simp: sections_ok_def)
  then show ?thesis using True dummy_ok dinvD(4) [OF assms(1) True] by simp
next
  case False
  from dinvD(5) [OF assms(1) False] show ?thesis
    using assms(2) by (cases "mrs_mr (d_sections d ! page_section tp d (page tp a))") (auto simp: serves_def)
qed

lemma subpage_target:
  assumes inv: "dinv tp d T" and tp: "tp_ok tp" and k: "mrs_mr (d_sections d ! page_section tp d (page tp a)) = Subpage k"
  defines "sub \<equiv> sub_section (d_subpages d ! k)"
  shows "SUBPAGE_IDX tp a < length sub" "sub ! SUBPAGE_IDX tp a < length (d_sections d)"
    "in_sec (d_sections d ! (sub ! SUBPAGE_IDX tp a)) a \<and> sec_target (d_sections d ! (sub ! SUBPAGE_IDX tp a)) a = T a
      \<and> (\<forall>k'. mrs_mr (d_sections d ! (sub ! SUBPAGE_IDX tp a)) \<noteq> Subpage k')"
proof -
  note h = dinvD [OF inv]
  have "page_section tp d (page tp a) \<noteq> 0"
  proof
    assume "page_section tp d (page tp a) = 0"
    then show False using k h(2) by (auto simp: sections_ok_def dummy_section_def)
  qed
  then have s: "serves tp d T (page tp a) (d_sections d ! page_section tp d (page tp a))" by (rule h(5))
  then have kl: "k < length (d_subpages d)" using k by (simp add: serves_def)
  have l: "length sub = 2 ^ tp_bits tp" "\<forall>n\<in>set sub. n < length (d_sections d)"
    using h(2) nth_mem [OF kl] unfolding sections_ok_def sub_def by blast+
  show i: "SUBPAGE_IDX tp a < length sub" using l(1) subpage_idx_less [OF tp] by simp
  then show "sub ! SUBPAGE_IDX tp a < length (d_sections d)" using l(2) by simp
  show "in_sec (d_sections d ! (sub ! SUBPAGE_IDX tp a)) a \<and> sec_target (d_sections d ! (sub ! SUBPAGE_IDX tp a)) a = T a
      \<and> (\<forall>k'. mrs_mr (d_sections d ! (sub ! SUBPAGE_IDX tp a)) \<noteq> Subpage k')"
    using s k by (simp add: serves_def sub_def)
qed

lemma find_mru: "phys_page_find tp (d\<lparr>mru_section := m\<rparr>) a = phys_page_find tp d a"
  by (simp add: phys_page_find_def cong: if_cong option.case_cong)

lemma lookup_spec:
  assumes r: "ready tp d T" and tp: "tp_ok tp"
  shows "\<exists>n d'. address_space_lookup_region tp d a True = Some (n, d') \<and> ready tp d' T \<and> d_sections d' = d_sections d
    \<and> n < length (d_sections d) \<and> in_sec (d_sections d ! n) a \<and> sec_target (d_sections d ! n) a = T a
    \<and> (\<forall>k. mrs_mr (d_sections d ! n) \<noteq> Subpage k)"
proof -
  have st: "secs_true d T" using r by (simp add: ready_def)
  obtain d0 where d0: "dinv tp d0 T" "d_sections d = d_sections d0" "d_subpages d = d_subpages d0"
    "\<And>a. phys_page_find tp d a = Some (page_section tp d0 (page tp a))" "\<And>m. mru_section d = Some m \<Longrightarrow> m \<in> range (page_section tp d0)"
    using r unfolding ready_def by blast
  let ?s = "page_section tp d0 (page tp a)"
  define d' where "d' = d\<lparr>mru_section := Some ?s\<rparr>"
  have r': "ready tp d' T" unfolding ready_def using d0 st by (intro conjI exI [of _ d0]) (simp_all add: d'_def find_mru secs_true_def)
  have same: "d_sections d' = d_sections d" "d_subpages d' = d_subpages d" by (simp_all add: d'_def)
  have mid: "(case mru_section d of None \<Rightarrow> map_option (\<lambda>s. (s, d\<lparr>mru_section := Some s\<rparr>)) (phys_page_find tp d a)
      | Some s \<Rightarrow> if s = 0 \<or> \<not> section_covers_addr (d_sections d ! s) a
          then map_option (\<lambda>s. (s, d\<lparr>mru_section := Some s\<rparr>)) (phys_page_find tp d a) else Some (s, d)) = Some (?s, d')"
  proof (cases "mru_section d")
    case (Some m)
    show ?thesis
    proof (cases "m = 0 \<or> \<not> section_covers_addr (d_sections d ! m) a")
      case False
      then have "m = ?s" using mru_hit [OF d0(1) d0(5) [OF Some], of a] d0(2) by simp
      then show ?thesis using False Some by (simp add: d'_def)
    qed (use Some d0(4) in \<open>auto simp: d'_def\<close>)
  qed (use d0(4) in \<open>simp add: d'_def\<close>)
  show ?thesis
  proof (cases "\<exists>k. mrs_mr (d_sections d ! ?s) = Subpage k")
    case True
    then obtain k where k: "mrs_mr (d_sections d ! ?s) = Subpage k" by blast
    note t = subpage_target [OF d0(1) tp, of a k, folded d0(2,3), OF k]
    have "address_space_lookup_region tp d a True = Some (sub_section (d_subpages d ! k) ! SUBPAGE_IDX tp a, d')"
      unfolding address_space_lookup_region_def mid using k t(1) by (simp add: same Let_def)
    then show ?thesis using t r' same by simp
  next
    case False
    then have "address_space_lookup_region tp d a True = Some (?s, d')"
      unfolding address_space_lookup_region_def mid by (cases "mrs_mr (d_sections d ! ?s)") (auto simp: same)
    then show ?thesis using page_target [OF d0(1), of a, folded d0(2)] False dinvD(3) [OF d0(1)] d0(2) r' same by auto
  qed
qed

lemma build_spec:
  assumes "tp_ok tp" "ranges_from 0 (fv_ranges view)" "\<forall>r\<in>set (fv_ranges view). range_fits tp r" "5 * fv_nr view < 2 ^ tp_bits tp"
  shows "\<exists>d. build_dispatch tp hint mem view = Some d \<and> ready tp d (view_target (fv_ranges view))"
proof -
  obtain d0 where d0: "address_space_dispatch_new tp hint mem = Some d0" "reg_inv tp d0 (\<lambda>_. None)" "length (d_sections d0) = 1"
    using new_spec [OF assms(1)] by blast
  have "over (\<lambda>_. None) T = T" for T by (simp add: over_def fun_eq_iff)
  then obtain d1 where d1: "add_ranges tp (fv_ranges view) d0 = Some d1" "reg_inv tp d1 (view_target (fv_ranges view))"
    using add_ranges_spec [OF assms(1) d0(2) assms(2)] assms(3,4) d0(3) by auto
  then show ?thesis using ready_compact [OF d1(2) assms(1)] d0(1) by (simp add: build_dispatch_def)
qed

section \<open>Properties\<close>

text \<open>A section is the one for address \<open>a\<close> where the topology shows \<open>t\<close>.\<close>

definition section_resolves :: "phys_section \<Rightarrow> u64 \<Rightarrow> target option \<Rightarrow> bool" where
  "section_resolves s a t \<longleftrightarrow> (case t of
     None \<Rightarrow> mrs_mr s = Io_Mem_Unassigned
   | Some (r, off, ro) \<Rightarrow> mrs_mr s = Region r \<and> mrs_readonly s = ro \<and> section_covers_addr s a
       \<and> a - mrs_offset_within_address_space s + mrs_offset_within_region s = word_of_int off)"

text \<open>A sequence of lookups, each of which may move the cache.\<close>

primrec lookups :: "target_page \<Rightarrow> dispatch \<Rightarrow> u64 list \<Rightarrow> phys_section list option" where
  "lookups tp d [] = Some []"
| "lookups tp d (a # as) = (case address_space_lookup_region tp d a True of
     None \<Rightarrow> None
   | Some (n, d') \<Rightarrow> map_option (\<lambda>ss. d_sections d' ! n # ss) (lookups tp d' as))"

lemma ready_sec_ok: "ready tp d T \<Longrightarrow> n < length (d_sections d) \<Longrightarrow> sec_ok (d_sections d ! n)"
  using dinvD(2) by (auto simp: ready_def sections_ok_def)

lemma section_resolvesI:
  assumes "sec_ok s" "in_sec s a" "sec_target s a = map_option (\<lambda>(r, off, ro). (r, word_of_int off, ro)) t" "\<And>k. mrs_mr s \<noteq> Subpage k"
  shows "section_resolves s a t"
  using assms by (cases "mrs_mr s"; cases t) (auto simp: section_resolves_def sec_target_def section_covers_iff)

lemma lookups_spec:
  assumes tp: "tp_ok tp" and T: "\<And>a. T a = map_option (\<lambda>(r, off, ro). (r, word_of_int off, ro)) (f a)"
  shows "ready tp d T \<Longrightarrow> \<exists>ss. lookups tp d as = Some ss \<and> list_all2 (\<lambda>a s. section_resolves s a (f a)) as ss"
proof (induction as arbitrary: d)
  case (Cons a as)
  obtain n d' where l: "address_space_lookup_region tp d a True = Some (n, d')" "ready tp d' T" "d_sections d' = d_sections d"
    "n < length (d_sections d)" "in_sec (d_sections d ! n) a" "sec_target (d_sections d ! n) a = T a" "\<And>k. mrs_mr (d_sections d ! n) \<noteq> Subpage k"
    using lookup_spec [OF Cons.prems tp] by blast
  have "section_resolves (d_sections d ! n) a (f a)"
    using section_resolvesI [OF ready_sec_ok [OF Cons.prems l(4)] l(5) _ l(7)] l(6) T by simp
  then show ?case using Cons.IH [OF l(2)] l(1,3) by auto
qed simp

text \<open>
  C6. The dispatch structure of a generated topology is right end to end: for a region tree whose
  view has fewer than a fifth of a page size of ranges, each of them whole pages or below the
  width of the page mask, building the structure trips no assertion, and every lookup of
  every sequence of lookups, with the cache the earlier ones left, returns the section of the
  region that the tree resolves the address to, with its offset and write protection, or the
  unassigned section where the tree has nothing.
\<close>

theorem topology_dispatch_resolves:
  assumes "region_ok mr" "tp_ok tp" "generate_memory_topology (Some mr) = Some view"
    "\<forall>r\<in>set (fv_ranges view). range_fits tp r" "5 * fv_nr view < 2 ^ tp_bits tp"
  shows "\<exists>d ss. build_dispatch tp hint mem view = Some d \<and> lookups tp d as = Some ss
    \<and> list_all2 (\<lambda>a s. section_resolves s a (resolve mr 0 False (uint a))) as ss"
proof -
  have v: "ranges_from 0 (fv_ranges view)" "view_at (fv_ranges view) (uint a) = resolve mr 0 False (uint a)" for a :: u64
    using topology_correct [of "Some mr"] assms(1,3) unsigned_less [of a, where ?'a = int] by (auto simp: resolve_root_def)
  obtain d where d: "build_dispatch tp hint mem view = Some d" "ready tp d (view_target (fv_ranges view))"
    using build_spec [OF assms(2) v(1) assms(4,5)] by blast
  have "view_target (fv_ranges view) a = map_option (\<lambda>(r, off, ro). (r, word_of_int off, ro)) (resolve mr 0 False (uint a))" for a
    by (simp add: view_target_def v(2))
  from lookups_spec [OF assms(2) this d(2)] show ?thesis using d(1) by blast
qed

definition sample_page :: target_page where
  "sample_page = \<lparr>tp_bits = 12, tp_mask_bits = 64\<rparr>"

definition sample_io_tree :: mem_region where
  "sample_io_tree = MemoryRegion (sample_info\<lparr>mr_id := 0, mr_addr := 0, mr_size := 2 ^ 64, mr_terminates := False\<rparr>)
     [MemoryRegion (sample_info\<lparr>mr_id := 2, mr_addr := 0x1400, mr_size := 0x400\<rparr>) [],
      MemoryRegion (sample_info\<lparr>mr_addr := 0x1800, mr_size := 0x2800\<rparr>) []]"

lemma sample_view: "map_option (\<lambda>v. fv_nr v = 2 \<and> list_all (range_fits sample_page) (fv_ranges v))
    (generate_memory_topology (Some sample_io_tree)) = Some True"
  by code_simp

theorem topology_dispatch_resolves_witness:
  "\<exists>view d ss. generate_memory_topology (Some sample_io_tree) = Some view
    \<and> build_dispatch sample_page 0 (\<lambda>_ _. page_entry 0 0) view = Some d
    \<and> lookups sample_page d [0x1500, 0x2004, 0x1900, 0x1000] = Some ss \<and> length ss = 4
    \<and> section_resolves (ss ! 0) 0x1500 (Some (2, 0x100, False)) \<and> section_resolves (ss ! 1) 0x2004 (Some (1, 0x804, False))
    \<and> section_resolves (ss ! 2) 0x1900 (Some (1, 0x100, False)) \<and> section_resolves (ss ! 3) 0x1000 None"
proof -
  obtain view where v: "generate_memory_topology (Some sample_io_tree) = Some view" "fv_nr view = 2" "\<forall>r\<in>set (fv_ranges view). range_fits sample_page r"
    using sample_view by (auto simp: list_all_iff)
  have ok: "region_ok sample_io_tree" "tp_ok sample_page" "5 * fv_nr view < 2 ^ tp_bits sample_page"
    using v(2) by (simp_all add: sample_io_tree_def sample_info_def tp_ok_def sample_page_def)
  obtain d ss where d: "build_dispatch sample_page 0 (\<lambda>_ _. page_entry 0 0) view = Some d"
    "lookups sample_page d [0x1500, 0x2004, 0x1900, 0x1000] = Some ss"
    "list_all2 (\<lambda>a s. section_resolves s a (resolve sample_io_tree 0 False (uint a))) [0x1500, 0x2004, 0x1900, 0x1000] ss"
    using topology_dispatch_resolves [OF ok(1,2) v(1,3) ok(3)] by blast
  have "length ss = 4" using list_all2_lengthD [OF d(3)] by simp
  moreover have "section_resolves (ss ! i) ([0x1500, 0x2004, 0x1900, 0x1000] ! i) (resolve sample_io_tree 0 False (uint ([0x1500, 0x2004, 0x1900, 0x1000] ! i :: u64)))"
    if "i < 4" for i using list_all2_nthD [OF d(3), of i] that by simp
  from this [of 0] this [of 1] this [of 2] this [of 3]
  have "section_resolves (ss ! 0) 0x1500 (Some (2, 0x100, False)) \<and> section_resolves (ss ! 1) 0x2004 (Some (1, 0x804, False))
    \<and> section_resolves (ss ! 2) 0x1900 (Some (1, 0x100, False)) \<and> section_resolves (ss ! 3) 0x1000 None"
    by (simp add: sample_io_tree_def sample_info_def Let_def)
  ultimately show ?thesis using v(1) d(1,2) by blast
qed

text \<open>The section number the loop of \<open>phys_page_find\<close> ends with for page \<open>x\<close>.\<close>

definition found_section :: "target_page \<Rightarrow> dispatch \<Rightarrow> nat \<Rightarrow> nat" where
  "found_section tp d x = (case find_loop (d_nodes d) (phys_map d) (P_L2_LEVELS tp) x of None \<Rightarrow> PHYS_SECTION_UNASSIGNED | Some s \<Rightarrow> s)"

lemma found_page_section: "map_ok tp d \<Longrightarrow> found_section tp d x = page_section tp d x"
  using find_tree [of "P_L2_LEVELS tp" "d_nodes d" "nodes_nb d" "phys_map d" x] by (auto simp: map_ok_def found_section_def page_section_def)

text \<open>
  C25. \<open>phys_page_set\<close> on unassigned pages keeps the radix tree a tree and changes the lookup of exactly
  the pages of its range: they lead to the section, all others lead where they led. The nodes
  that \<open>phys_map_node_reserve\<close> sets aside are enough: the call takes at most two per level, and
  no assertion of \<open>phys_map_node_alloc\<close> fails while the node numbers fit in 26 bits.
\<close>

theorem phys_page_set_correct:
  assumes "map_ok tp d" "0 < leaf" "leaf < 2 ^ 16" "0 < nb" "index + nb \<le> pages tp"
    and "\<forall>x. index \<le> x \<and> x < index + nb \<longrightarrow> found_section tp d x = PHYS_SECTION_UNASSIGNED"
    and "nodes_nb d + 2 * P_L2_LEVELS tp \<le> PHYS_MAP_NODE_NIL"
  shows "\<exists>d'. phys_page_set tp d index nb leaf = Some d' \<and> map_ok tp d' \<and> nodes_nb d' \<le> nodes_nb d + 2 * P_L2_LEVELS tp
    \<and> d_sections d' = d_sections d \<and> d_subpages d' = d_subpages d
    \<and> (\<forall>x<pages tp. found_section tp d' x = (if index \<le> x \<and> x < index + nb then leaf else found_section tp d x))"
proof -
  have "page_section tp d x = 0" if "index \<le> x" "x < index + nb" for x
    using assms(6) that found_page_section [OF assms(1)] by simp
  then obtain d' where d': "phys_page_set tp d index nb leaf = Some d'" "map_ok tp d'" "nodes_nb d' \<le> nodes_nb d + 2 * P_L2_LEVELS tp"
    "d_sections d' = d_sections d" "d_subpages d' = d_subpages d"
    "\<And>x. x < pages tp \<Longrightarrow> page_section tp d' x = (if index \<le> x \<and> x < index + nb then leaf else page_section tp d x)"
    using phys_page_set_spec [OF assms(1-5) _ assms(7)] by blast
  then show ?thesis by (simp add: found_page_section [OF assms(1)] found_page_section [OF d'(2)])
qed

lemma sample_page_ok: "tp_ok sample_page" "P_L2_LEVELS sample_page = 6" "pages sample_page = 2 ^ 54"
  by (simp_all add: tp_ok_def sample_page_def P_L2_LEVELS_def pages_def)

theorem phys_page_set_correct_witness:
  "\<exists>d d'. address_space_dispatch_new sample_page 0 (\<lambda>_ _. page_entry 0 0) = Some d \<and> phys_page_set sample_page d 511 514 7 = Some d'
    \<and> found_section sample_page d' 510 = 0 \<and> found_section sample_page d' 511 = 7 \<and> found_section sample_page d' 1024 = 7
    \<and> found_section sample_page d' 1025 = 0"
proof -
  obtain d where d: "address_space_dispatch_new sample_page 0 (\<lambda>_ _. page_entry 0 0) = Some d" "reg_inv sample_page d (\<lambda>_. None)"
    "nodes_nb d = 0" "\<forall>x. page_section sample_page d x = 0"
    using new_spec [OF sample_page_ok(1)] by blast
  have m: "map_ok sample_page d" using d(2) dinvD(1) unfolding reg_inv_def by blast
  have z: "found_section sample_page d x = 0" for x using d(4) by (simp add: found_page_section [OF m])
  have h: "(0::nat) < 7" "(7::nat) < 2 ^ 16" "(0::nat) < 514" "511 + 514 \<le> pages sample_page"
    "\<forall>x. 511 \<le> x \<and> x < 511 + 514 \<longrightarrow> found_section sample_page d x = 0" "nodes_nb d + 2 * P_L2_LEVELS sample_page \<le> PHYS_MAP_NODE_NIL"
    using z d(3) by (simp_all add: sample_page_ok PHYS_MAP_NODE_NIL_def)
  obtain d' where "phys_page_set sample_page d 511 514 7 = Some d'"
    "\<forall>x<pages sample_page. found_section sample_page d' x = (if 511 \<le> x \<and> x < 511 + 514 then 7 else found_section sample_page d x)"
    using phys_page_set_correct [OF m h] by blast
  then show ?thesis using d(1) z sample_page_ok(3) by auto
qed

text \<open>
  C26. Compaction does not change what \<open>phys_page_find\<close> returns, at any address: the entries it merges
  no longer compare the digits of the page number, but the section an unassigned page then leads
  to does not contain the address. The recursion ends within the levels of the tree and trips no
  assertion.
\<close>

theorem dispatch_compact_same:
  assumes "dinv tp d T" "tp_ok tp"
  shows "\<exists>d'. address_space_dispatch_compact tp d = Some d' \<and> d_sections d' = d_sections d \<and> d_subpages d' = d_subpages d
    \<and> (\<forall>a. phys_page_find tp d' a = phys_page_find tp d a)"
  using compact_same_find [OF assms] find_uncompacted [OF assms(1)] by (auto simp: d_keep_def d_rest_def)

definition sample_section :: phys_section where
  "sample_section = \<lparr>mrs_mr = Region 1, mrs_offset_within_region = 0, mrs_size = 0x2000,
     mrs_offset_within_address_space = 0x5000, mrs_readonly = False\<rparr>"

theorem dispatch_compact_same_witness:
  "\<exists>d0 d d'. address_space_dispatch_new sample_page 0 (\<lambda>_ _. page_entry 0 0) = Some d0
    \<and> flatview_add_to_dispatch sample_page d0 sample_section = Some d \<and> address_space_dispatch_compact sample_page d = Some d'
    \<and> phys_page_find sample_page d' 0x6004 = phys_page_find sample_page d 0x6004"
proof -
  obtain d0 where d0: "address_space_dispatch_new sample_page 0 (\<lambda>_ _. page_entry 0 0) = Some d0" "reg_inv sample_page d0 (\<lambda>_. None)" "length (d_sections d0) = 1"
    using new_spec [OF sample_page_ok(1)] by blast
  have "free_sec sample_section (\<lambda>_. None)" "end_ok sample_page sample_section"
    by (simp_all add: free_sec_def sec_ok_def sample_section_def end_ok_def sample_page_def)
  then have "registers sample_page (flatview_add_to_dispatch sample_page) d0 sample_section (\<lambda>_. None) 5"
    by (rule flatview_add_spec [OF d0(2) sample_page_ok(1)]) (simp add: d0(3) sample_page_def)
  then obtain d where d: "flatview_add_to_dispatch sample_page d0 sample_section = Some d" "dinv sample_page d (show_sec sample_section (\<lambda>_. None))"
    by (auto simp: registers_def reg_inv_def)
  then show ?thesis using dispatch_compact_same [OF d(2) sample_page_ok(1)] d0(1) by blast
qed

section \<open>Translation\<close>

lemma clamp_spec:
  assumes "sec_ok s" "in_sec s a"
  shows "uint (a - mrs_offset_within_address_space s) = uint a - sec_off s"
    "int128_get64 (min (mrs_size s - (uint a - sec_off s)) (uint (plen::u64))) = Some (word_of_int (min (mrs_size s - (uint a - sec_off s)) (uint plen)))"
    "uint (word_of_int (min (mrs_size s - (uint a - sec_off s)) (uint plen)) :: u64) = min (mrs_size s - (uint a - sec_off s)) (uint plen)"
proof -
  have i: "sec_off s \<le> uint a" "uint a < sec_off s + mrs_size s" using assms(2) by (simp_all add: in_sec_def)
  show "uint (a - mrs_offset_within_address_space s) = uint a - sec_off s" using i(1) by (simp add: uint_sub_if')
  have b: "0 \<le> min (mrs_size s - (uint a - sec_off s)) (uint plen)" "min (mrs_size s - (uint a - sec_off s)) (uint plen) < 2 ^ 64"
    using i unsigned_less [of plen, where ?'a = int] by auto
  show "int128_get64 (min (mrs_size s - (uint a - sec_off s)) (uint plen)) = Some (word_of_int (min (mrs_size s - (uint a - sec_off s)) (uint plen)))"
    by (rule int128_get64_Some [OF b])
  show "uint (word_of_int (min (mrs_size s - (uint a - sec_off s)) (uint plen)) :: u64) = min (mrs_size s - (uint a - sec_off s)) (uint plen)"
    by (rule uint_of_int_small [OF b])
qed

lemma in_sec_plus:
  assumes "sec_ok s" "in_sec s a" "uint i < mrs_size s - (uint a - sec_off s)"
  shows "in_sec s (a + i)"
proof -
  have "uint a + uint i < 2 ^ 64" using assms unfolding sec_ok_def by linarith
  then have "uint (a + i) = uint a + uint i" using uint_add_lem [of a i] by simp
  then show ?thesis using assms(2,3) uint_nonnegative [of i] unfolding in_sec_def by linarith
qed

text \<open>
  C27. Translating an address of RAM gives the region and the offset that the view has there, and cuts the
  length to what the section still holds: the length is never raised, is not 0 unless it was, and
  every byte of it lies in the same region at the consecutive offset. No conversion of the size
  fails.
\<close>

theorem address_space_translate_correct:
  assumes "tp_ok tp" "ranges_from 0 (fv_ranges view)" "\<forall>r\<in>set (fv_ranges view). range_fits tp r" "5 * fv_nr view < 2 ^ tp_bits tp"
    and "build_dispatch tp hint mem view = Some d" "view_at (fv_ranges view) (uint a) = Some (r, off, ro)" "is_ram (Region r)"
  shows "\<exists>n plen' d'. address_space_translate_internal is_ram tp d a plen True = Some (n, word_of_int off, plen', d')
    \<and> mrs_mr (d_sections d' ! n) = Region r \<and> plen' \<le> plen \<and> (plen \<noteq> 0 \<longrightarrow> plen' \<noteq> 0)
    \<and> (\<forall>i<plen'. view_target (fv_ranges view) (a + i) = Some (r, word_of_int off + i, ro))"
proof -
  let ?T = "view_target (fv_ranges view)"
  have rd: "ready tp d ?T" using build_spec [OF assms(1-4), of hint mem] assms(5) by simp
  obtain n d' where l: "address_space_lookup_region tp d a True = Some (n, d')" "d_sections d' = d_sections d"
    "n < length (d_sections d)" "in_sec (d_sections d ! n) a" "sec_target (d_sections d ! n) a = ?T a"
    using lookup_spec [OF rd assms(1)] by blast
  define s where "s = d_sections d ! n"
  have so: "sec_ok s" unfolding s_def by (rule ready_sec_ok [OF rd l(3)])
  have "sec_target s a = Some (r, word_of_int off, ro)" using l(5) assms(6) by (simp add: view_target_def s_def)
  then have mr: "mrs_mr s = Region r" "a - mrs_offset_within_address_space s + mrs_offset_within_region s = word_of_int off" "mrs_readonly s = ro"
    by (auto simp: sec_target_def split: phys_mr.splits)
  note c = clamp_spec [OF so l(4) [folded s_def]]
  define plen' :: u64 where "plen' = word_of_int (min (mrs_size s - (uint a - sec_off s)) (uint plen))"
  have p: "uint plen' = min (mrs_size s - (uint a - sec_off s)) (uint plen)" unfolding plen'_def by (rule c(3))
  have "address_space_translate_internal is_ram tp d a plen True = Some (n, word_of_int off, plen', d')"
    using l(1,2) mr assms(7) c(2) by (simp add: address_space_translate_internal_def Let_def c(1) plen'_def flip: s_def)
  moreover have "?T (a + i) = Some (r, word_of_int off + i, ro)" if "i < plen'" for i
  proof -
    have "uint i < mrs_size s - (uint a - sec_off s)" using that p by (simp add: word_less_def)
    then have "in_sec s (a + i)" by (rule in_sec_plus [OF so l(4) [folded s_def]])
    moreover have t: "sec_target s (a + i) = Some (r, word_of_int off + i, ro)" using mr by (simp add: sec_target_def flip: mr(2))
    ultimately show ?thesis using rd l(3) unfolding ready_def secs_true_def by (metis nth_mem option.distinct(1) s_def)
  qed
  moreover have "plen' \<le> plen" using p by (simp add: word_le_def)
  moreover have "plen' \<noteq> 0" if "plen \<noteq> 0"
    using p l(4) that unfolding in_sec_def s_def [symmetric] by (auto simp: uint_0_iff min_def split: if_splits)
  ultimately show ?thesis using mr(1) l(2) by (auto simp: s_def)
qed

definition sample_ranges :: flat_view where
  "sample_ranges = \<lparr>fv_ranges = [\<lparr>fr_mr = 1, fr_offset = 0, fr_addr = addrrange_make 0x1800 0x2800, fr_readonly = False\<rparr>], fv_nr_allocated = 10\<rparr>"

theorem address_space_translate_correct_witness:
  "\<exists>d n plen' d'. build_dispatch sample_page 0 (\<lambda>_ _. page_entry 0 0) sample_ranges = Some d
    \<and> address_space_translate_internal (\<lambda>_. True) sample_page d 0x2004 0x10000 True = Some (n, 0x804, plen', d')
    \<and> plen' \<noteq> 0 \<and> plen' \<le> 0x10000 \<and> (\<forall>i<plen'. view_target (fv_ranges sample_ranges) (0x2004 + i) = Some (1, 0x804 + i, False))"
proof -
  have h: "ranges_from 0 (fv_ranges sample_ranges)" "\<forall>r\<in>set (fv_ranges sample_ranges). range_fits sample_page r" "5 * fv_nr sample_ranges < 2 ^ tp_bits sample_page"
    "view_at (fv_ranges sample_ranges) (uint (0x2004 :: u64)) = Some (1, 0x804, False)"
    by (simp_all add: sample_ranges_def range_fits_def sample_page_def fr_at_def ar_defs)
  obtain d where d: "build_dispatch sample_page 0 (\<lambda>_ _. page_entry 0 0) sample_ranges = Some d" using build_spec [OF sample_page_ok(1) h(1-3)] by blast
  show ?thesis
    using address_space_translate_correct [OF sample_page_ok(1) h(1-3) d h(4), where is_ram = "\<lambda>_. True" and plen = "0x10000"] d by fastforce
qed

text \<open>
  The number of a section, with the address of a page in the upper bits, leads back to the section:
  the assertion of \<open>phys_section_add\<close> keeps the numbers below the page size.
\<close>

theorem iotlb_roundtrip:
  assumes "tp_ok tp" "dinv tp d T" "n < length (d_sections d)" "w AND mask (tp_bits tp) = 0"
  shows "iotlb_to_section tp d (w OR of_nat n) = Some (d_sections d ! n)"
proof -
  have n: "n < 2 ^ tp_bits tp" using dinvD(2) [OF assms(2)] assms(3) by (simp add: sections_ok_def)
  have "(2::nat) ^ tp_bits tp \<le> 2 ^ 16" using assms(1) by (intro power_increasing) (simp_all add: tp_ok_def)
  then have n': "unat (of_nat n :: u64) = n" using n by (simp add: unsigned_of_nat take_bit_nat_eq_self)
  have "(w OR of_nat n) AND mask (tp_bits tp) = (of_nat n :: u64) AND mask (tp_bits tp)"
    using assms(4) by (simp add: bit.conj_disj_distrib2)
  also have "\<dots> = of_nat n" using n n' by (simp add: word_unat_eq_iff unsigned_take_bit_eq take_bit_nat_eq_self flip: take_bit_eq_mask)
  finally show ?thesis using assms(3) n' by (simp add: iotlb_to_section_def not_mask [OF assms(1)] Let_def)
qed

end
