(* ===== verification/Mem_Map.thy ===== *)
theory Mem_Map
  imports Uc_Prelude
begin

text \<open>
  The memory interface of \<open>uc.c\<close>: mapping, unmapping, protecting, reading and writing
  guest memory, for an engine at snapshot level 0, where no region is shared
  copy-on-write and every mapped region is a direct child of the system memory.

  A region of \<open>mapped_blocks\<close> is a record with the fields of \<open>MemoryRegion\<close> that these
  functions use. The host memory behind RAM regions is an explicit store of objects
  indexed by offsets, so that a region mapped from a pointer of the caller is the pair of
  an object and an offset into it. Whether the allocation of RAM succeeds is a function of
  the state, \<open>no_memory\<close>; the helper \<open>g_malloc0\<close> for the backup of a split ends the process
  when it fails, so it has no failing branch.
\<close>

section \<open>State\<close>

type_synonym host_ptr = "nat \<times> nat"

text \<open>The callbacks of an MMIO region with their user data, \<open>mmio_cbs\<close>.\<close>

record mmio_cbs =
  cb_read :: "nat option"
  cb_user_data_read :: nat
  cb_write :: "nat option"
  cb_user_data_write :: nat

datatype backing = Ram_Block host_ptr bool | Mmio mmio_cbs

text \<open>
  \<open>Ram_Block p prealloc\<close> is a region with \<open>ram\<close> set: its \<open>ram_block\<close> has \<open>host = p\<close>, and
  \<open>prealloc\<close> is bit 0 of its flags.
\<close>

record mem_block =
  mb_id :: nat
  mb_addr :: u64
  mb_end :: u64
  mb_size :: u64
  mb_perms :: u32
  mb_readonly :: bool
  mb_back :: backing

record mem_state =
  mapped_blocks :: "mem_block list"
  host_mem :: "nat \<Rightarrow> nat \<Rightarrow> u8"
  next_obj :: nat
  no_memory :: "nat \<Rightarrow> bool"
  next_id :: nat
  target_page_align :: u64
  mmio_bytes :: "mmio_cbs \<Rightarrow> u64 \<Rightarrow> u64 \<Rightarrow> u8 list"
  mmio_log :: "(mmio_cbs \<times> u64 \<times> u8 list) list"
  tb_invalidated :: "(u64 \<times> u64) list"
  quit_request :: bool
  stop_request :: bool

definition UC_PROT_READ :: u32 where "UC_PROT_READ = 1"
definition UC_PROT_WRITE :: u32 where "UC_PROT_WRITE = 2"
definition UC_PROT_EXEC :: u32 where "UC_PROT_EXEC = 4"
definition UC_PROT_ALL :: u32 where "UC_PROT_ALL = 7"

lemmas prot_defs = UC_PROT_READ_def UC_PROT_WRITE_def UC_PROT_EXEC_def UC_PROT_ALL_def

definition mb_ram :: "mem_block \<Rightarrow> bool" where
  "mb_ram b = (case mb_back b of Ram_Block p pre \<Rightarrow> True | Mmio c \<Rightarrow> False)"

text \<open>
  \<open>memory_mapping\<close> is \<open>find_memory_mapping\<close>: the region that the address resolves to. The
  topology theories show that resolution; with disjoint regions directly below the system
  memory it is the one region that contains the address.
\<close>

definition contains :: "mem_block \<Rightarrow> u64 \<Rightarrow> bool" where
  "contains b x \<longleftrightarrow> mb_addr b \<le> x \<and> x \<le> mb_end b - 1"

definition memory_mapping :: "mem_state \<Rightarrow> u64 \<Rightarrow> mem_block option" where
  "memory_mapping st x = find (\<lambda>b. contains b x) (mapped_blocks st)"

text \<open>An assignment through a region pointer.\<close>

definition set_block :: "mem_block \<Rightarrow> mem_state \<Rightarrow> mem_state" where
  "set_block b st = st\<lparr>mapped_blocks :=
     map (\<lambda>c. if mb_id c = mb_id b then b else c) (mapped_blocks st)\<rparr>"

definition readonly_mem :: "mem_block \<Rightarrow> bool \<Rightarrow> mem_state \<Rightarrow> mem_state" where
  "readonly_mem b ro st = set_block (b\<lparr>mb_readonly := ro\<rparr>) st"

section \<open>Access to mapped memory\<close>

definition memory_region_len :: "mem_block \<Rightarrow> u64 \<Rightarrow> u64 \<Rightarrow> u64" where
  "memory_region_len mr address count = min count (mb_end mr - address)"

partial_function (option) check_mem_loop :: "mem_state \<Rightarrow> u64 \<Rightarrow> u64 \<Rightarrow> u64 \<Rightarrow> u64 option" where
  "check_mem_loop st address sz count =
     (if count < sz then
        case memory_mapping st address of
          Some mr \<Rightarrow>
            let len = memory_region_len mr address (sz - count)
            in check_mem_loop st (address + len) sz (count + len)
        | None \<Rightarrow> Some count
      else Some count)"

definition check_mem_area :: "mem_state \<Rightarrow> u64 \<Rightarrow> u64 \<Rightarrow> bool option" where
  "check_mem_area st address sz = map_option (\<lambda>count. count = sz) (check_mem_loop st address sz 0)"

text \<open>
  \<open>read_mem\<close> and \<open>write_mem\<close> on the part of one region. A write that reaches a region
  marked read-only has no RAM to go to and fails.
\<close>

definition read_mem :: "mem_state \<Rightarrow> mem_block \<Rightarrow> u64 \<Rightarrow> u64 \<Rightarrow> u8 list" where
  "read_mem st mr address len =
     (case mb_back mr of
        Ram_Block (obj, off) pre \<Rightarrow>
          map (\<lambda>i. host_mem st obj (off + unat (address - mb_addr mr) + i)) [0..<unat len]
      | Mmio c \<Rightarrow> mmio_bytes st c (address - mb_addr mr) len)"

definition store_bytes :: "(nat \<Rightarrow> nat \<Rightarrow> u8) \<Rightarrow> nat \<Rightarrow> nat \<Rightarrow> u8 list \<Rightarrow> nat \<Rightarrow> nat \<Rightarrow> u8" where
  "store_bytes h obj off bytes o' j =
     (if o' = obj \<and> off \<le> j \<and> j < off + length bytes then bytes ! (j - off) else h o' j)"

definition write_mem :: "mem_state \<Rightarrow> mem_block \<Rightarrow> u64 \<Rightarrow> u8 list \<Rightarrow> mem_state option" where
  "write_mem st mr address bytes =
     (case mb_back mr of
        Ram_Block (obj, off) pre \<Rightarrow>
          if mb_readonly mr then None
          else Some (st\<lparr>host_mem := store_bytes (host_mem st) obj
                                      (off + unat (address - mb_addr mr)) bytes\<rparr>)
      | Mmio c \<Rightarrow> Some (st\<lparr>mmio_log := mmio_log st @ [(c, address - mb_addr mr, bytes)]\<rparr>))"

partial_function (option) mem_read_loop ::
  "mem_state \<Rightarrow> u64 \<Rightarrow> u64 \<Rightarrow> u64 \<Rightarrow> u8 list \<Rightarrow> (u64 \<times> u8 list) option" where
  "mem_read_loop st address sz count bytes =
     (if count < sz then
        case memory_mapping st address of
          Some mr \<Rightarrow>
            let len = memory_region_len mr address (sz - count)
            in mem_read_loop st (address + len) sz (count + len) (bytes @ read_mem st mr address len)
        | None \<Rightarrow> Some (count, bytes)
      else Some (count, bytes))"

text \<open>\<open>uc_mem_read\<close> returns the error code and what it stored at \<open>bytes\<close>.\<close>

definition uc_mem_read :: "mem_state \<Rightarrow> u64 \<Rightarrow> u64 \<Rightarrow> (uc_err \<times> u8 list) option" where
  "uc_mem_read st address sz =
     (case check_mem_area st address sz of
        None \<Rightarrow> None
      | Some False \<Rightarrow> Some (UC_ERR_READ_UNMAPPED, [])
      | Some True \<Rightarrow>
          map_option (\<lambda>(count, bytes).
              (if count = sz then UC_ERR_OK else UC_ERR_READ_UNMAPPED, bytes))
            (mem_read_loop st address sz 0 []))"

text \<open>
  One region's part of a write: a write-protected region is made writable for the write
  and protected again after it.
\<close>

definition write_chunk :: "mem_state \<Rightarrow> mem_block \<Rightarrow> u64 \<Rightarrow> u8 list \<Rightarrow> bool \<times> mem_state" where
  "write_chunk st mr address bytes =
     (let prot = (mb_perms mr AND UC_PROT_WRITE = 0);
          mr1 = (if prot then mr\<lparr>mb_readonly := False\<rparr> else mr);
          st1 = (if prot then readonly_mem mr False st else st)
      in case write_mem st1 mr1 address bytes of
           None \<Rightarrow> (False, st1)
         | Some st2 \<Rightarrow> (True, if prot then readonly_mem mr1 True st2 else st2))"

partial_function (option) mem_write_loop ::
  "mem_state \<Rightarrow> u64 \<Rightarrow> u64 \<Rightarrow> u64 \<Rightarrow> u8 list \<Rightarrow> (u64 \<times> mem_state) option" where
  "mem_write_loop st address sz count bytes =
     (if count < sz then
        case memory_mapping st address of
          Some mr \<Rightarrow>
            let len = memory_region_len mr address (sz - count)
            in case write_chunk st mr address (take (unat len) bytes) of
                 (ok, st1) \<Rightarrow>
                   if \<not> ok then Some (count, st1)
                   else mem_write_loop st1 (address + len) sz (count + len) (drop (unat len) bytes)
        | None \<Rightarrow> Some (count, st)
      else Some (count, st))"

definition uc_mem_write :: "mem_state \<Rightarrow> u64 \<Rightarrow> u8 list \<Rightarrow> u64 \<Rightarrow> (uc_err \<times> mem_state) option" where
  "uc_mem_write st address bytes sz =
     (case check_mem_area st address sz of
        None \<Rightarrow> None
      | Some False \<Rightarrow> Some (UC_ERR_WRITE_UNMAPPED, st)
      | Some True \<Rightarrow>
          map_option (\<lambda>(count, st').
              (if count = sz then UC_ERR_OK else UC_ERR_WRITE_UNMAPPED, st'))
            (mem_write_loop st address sz 0 bytes))"

section \<open>Mapping\<close>

function bsearch_mapped_blocks_loop :: "mem_block list \<Rightarrow> u64 \<Rightarrow> nat \<Rightarrow> nat \<Rightarrow> nat" where
  "bsearch_mapped_blocks_loop bs address left right =
     (if left < right then
        let mid = left + (right - left) div 2;
            mapping = bs ! mid
        in if mb_end mapping - 1 < address then bsearch_mapped_blocks_loop bs address (mid + 1) right
           else if mb_addr mapping > address then bsearch_mapped_blocks_loop bs address left mid
           else mid
      else left)"
  by pat_completeness auto
termination
  by (relation "measure (\<lambda>(bs, address, left, right). right - left)") auto

declare bsearch_mapped_blocks_loop.simps [simp del]

definition bsearch_mapped_blocks :: "mem_state \<Rightarrow> u64 \<Rightarrow> nat" where
  "bsearch_mapped_blocks st address =
     bsearch_mapped_blocks_loop (mapped_blocks st) address 0 (length (mapped_blocks st))"

definition memory_overlap :: "mem_state \<Rightarrow> u64 \<Rightarrow> u64 \<Rightarrow> bool" where
  "memory_overlap st b sz =
     (let e = b + sz - 1;
          i = bsearch_mapped_blocks st b
      in if i \<ge> length (mapped_blocks st) then False
         else e \<ge> mb_addr (mapped_blocks st ! i))"

definition mem_map :: "mem_state \<Rightarrow> mem_block option \<Rightarrow> uc_err \<times> mem_state" where
  "mem_map st block =
     (case block of
        None \<Rightarrow> (UC_ERR_NOMEM, st)
      | Some b \<Rightarrow>
          let pos = bsearch_mapped_blocks st (mb_addr b)
          in (UC_ERR_OK, st\<lparr>mapped_blocks := take pos (mapped_blocks st) @ b # drop pos (mapped_blocks st)\<rparr>))"

definition mem_map_check :: "mem_state \<Rightarrow> u64 \<Rightarrow> u64 \<Rightarrow> u32 \<Rightarrow> uc_err" where
  "mem_map_check st address sz perms =
     (if sz = 0 then UC_ERR_ARG
      else if address + sz - 1 < address then UC_ERR_ARG
      else if address AND target_page_align st \<noteq> 0 then UC_ERR_ARG
      else if sz AND target_page_align st \<noteq> 0 then UC_ERR_ARG
      else if perms AND NOT UC_PROT_ALL \<noteq> 0 then UC_ERR_ARG
      else if memory_overlap st address sz then UC_ERR_MAP
      else UC_ERR_OK)"

definition memory_map :: "mem_state \<Rightarrow> u64 \<Rightarrow> u64 \<Rightarrow> u32 \<Rightarrow> mem_block option \<times> mem_state" where
  "memory_map st b sz perms =
     (if no_memory st (next_obj st) then (None, st\<lparr>next_obj := Suc (next_obj st)\<rparr>)
      else (Some \<lparr>mb_id = next_id st, mb_addr = b, mb_end = b + sz, mb_size = sz, mb_perms = perms,
                  mb_readonly = (perms AND UC_PROT_WRITE = 0),
                  mb_back = Ram_Block (next_obj st, 0) False\<rparr>,
            st\<lparr>next_obj := Suc (next_obj st), next_id := Suc (next_id st),
               host_mem := (host_mem st)(next_obj st := (\<lambda>_. 0))\<rparr>))"

definition memory_map_ptr ::
  "mem_state \<Rightarrow> u64 \<Rightarrow> u64 \<Rightarrow> u32 \<Rightarrow> host_ptr \<Rightarrow> mem_block option \<times> mem_state" where
  "memory_map_ptr st b sz perms p =
     (Some \<lparr>mb_id = next_id st, mb_addr = b, mb_end = b + sz, mb_size = sz, mb_perms = perms,
            mb_readonly = False, mb_back = Ram_Block p True\<rparr>,
      st\<lparr>next_id := Suc (next_id st)\<rparr>)"

definition mmio_perms :: "mmio_cbs \<Rightarrow> u32" where
  "mmio_perms c = (if cb_read c \<noteq> None then UC_PROT_READ else 0)
     OR (if cb_write c \<noteq> None then UC_PROT_WRITE else 0)"

definition memory_map_io :: "mem_state \<Rightarrow> u64 \<Rightarrow> u64 \<Rightarrow> mmio_cbs \<Rightarrow> mem_block option \<times> mem_state" where
  "memory_map_io st b sz c =
     (Some \<lparr>mb_id = next_id st, mb_addr = b, mb_end = b + sz, mb_size = sz, mb_perms = mmio_perms c,
            mb_readonly = False, mb_back = Mmio c\<rparr>,
      st\<lparr>next_id := Suc (next_id st)\<rparr>)"

definition uc_mem_map :: "mem_state \<Rightarrow> u64 \<Rightarrow> u64 \<Rightarrow> u32 \<Rightarrow> uc_err \<times> mem_state" where
  "uc_mem_map st address sz perms =
     (let res = mem_map_check st address sz perms
      in if res \<noteq> UC_ERR_OK then (res, st)
         else let (block, st1) = memory_map st address sz perms in mem_map st1 block)"

definition uc_mem_map_ptr ::
  "mem_state \<Rightarrow> u64 \<Rightarrow> u64 \<Rightarrow> u32 \<Rightarrow> host_ptr option \<Rightarrow> uc_err \<times> mem_state" where
  "uc_mem_map_ptr st address sz perms p =
     (case p of
        None \<Rightarrow> (UC_ERR_ARG, st)
      | Some q \<Rightarrow>
          let res = mem_map_check st address sz perms
          in if res \<noteq> UC_ERR_OK then (res, st)
             else let (block, st1) = memory_map_ptr st address sz perms q in mem_map st1 block)"

definition uc_mmio_map :: "mem_state \<Rightarrow> u64 \<Rightarrow> u64 \<Rightarrow> mmio_cbs \<Rightarrow> uc_err \<times> mem_state" where
  "uc_mmio_map st address sz c =
     (let res = mem_map_check st address sz UC_PROT_ALL
      in if res \<noteq> UC_ERR_OK then (res, st)
         else let (block, st1) = memory_map_io st address sz c in mem_map st1 block)"

section \<open>Unmapping and protecting\<close>

definition memory_unmap :: "mem_state \<Rightarrow> mem_block \<Rightarrow> mem_state" where
  "memory_unmap st mr =
     st\<lparr>tb_invalidated := tb_invalidated st @ [(mb_addr mr, mb_size mr)],
        mapped_blocks := filter (\<lambda>c. mb_id c \<noteq> mb_id mr) (mapped_blocks st)\<rparr>"

definition copy_region :: "mem_state \<Rightarrow> mem_block \<Rightarrow> u8 list option option" where
  "copy_region st mr =
     map_option (\<lambda>(err, block). if err \<noteq> UC_ERR_OK then None else Some block)
       (uc_mem_read st (mb_addr mr) (mb_size mr))"

text \<open>
  \<open>uc_mem_unmap\<close> and the two split functions call each other. The split functions take
  the unmapping as an argument; \<open>uc_mem_unmap_rec\<close> closes the recursion with fuel, and
  two levels are enough because the inner call always unmaps exactly one region.
  Each step is a pair of a success flag and the state.
\<close>

type_synonym unmap_fn = "mem_state \<Rightarrow> u64 \<Rightarrow> u64 \<Rightarrow> (uc_err \<times> mem_state) option"
type_synonym split_fn = "mem_state \<Rightarrow> mem_block \<Rightarrow> u64 \<Rightarrow> u64 \<Rightarrow> (bool \<times> mem_state) option"

definition mmio_piece :: "mmio_cbs \<Rightarrow> u64 \<Rightarrow> u64 \<Rightarrow> bool \<times> mem_state \<Rightarrow> bool \<times> mem_state" where
  "mmio_piece c address sz r =
     (case r of (ok, st) \<Rightarrow>
        if ok \<and> sz > 0
        then case uc_mmio_map st address sz c of (err, st') \<Rightarrow> (err = UC_ERR_OK, st')
        else (ok, st))"

definition split_mmio_region :: "unmap_fn \<Rightarrow> bool \<Rightarrow> split_fn" where
  "split_mmio_region unmap do_delete st mr address sz =
     (let chunk_end = address + sz
      in if address \<le> mb_addr mr \<and> chunk_end \<ge> mb_end mr then Some (True, st)
         else if sz = 0 then Some (False, st)
         else case mb_back mr of
           Ram_Block p pre \<Rightarrow> None
         | Mmio backup \<Rightarrow>
             (case unmap st (mb_addr mr) (mb_size mr) of
                None \<Rightarrow> None
              | Some (err, st1) \<Rightarrow>
                  if err \<noteq> UC_ERR_OK then Some (False, st1)
                  else
                    let a = (if address < mb_addr mr then mb_addr mr else address);
                        ce = (if chunk_end > mb_end mr then mb_end mr else chunk_end);
                        l_size = a - mb_addr mr;
                        r_size = mb_end mr - ce;
                        m_size = ce - a
                    in Some (mmio_piece backup ce r_size
                        (mmio_piece backup a (if do_delete then 0 else m_size)
                          (mmio_piece backup (mb_addr mr) l_size (True, st1))))))"

text \<open>
  One piece of a split RAM region: it is mapped again, from the caller's pointer, or as
  fresh RAM into which the backup is written.
\<close>

datatype backup = Backup_Ptr host_ptr | Backup_Bytes "u8 list"

fun backup_at :: "backup \<Rightarrow> u64 \<Rightarrow> backup" where
  "backup_at (Backup_Ptr (obj, off)) d = Backup_Ptr (obj, off + unat d)"
| "backup_at (Backup_Bytes bs) d = Backup_Bytes (drop (unat d) bs)"

fun ram_piece :: "backup \<Rightarrow> u32 \<Rightarrow> u64 \<Rightarrow> u64 \<Rightarrow> bool \<times> mem_state \<Rightarrow> (bool \<times> mem_state) option" where
  "ram_piece backup perms address sz (ok, st) =
     (if ok \<and> sz > 0 then
        case backup of
          Backup_Bytes bs \<Rightarrow>
            (case uc_mem_map st address sz perms of
               (err, st1) \<Rightarrow>
                 if err \<noteq> UC_ERR_OK then Some (False, st1)
                 else map_option (\<lambda>(err', st2). (err' = UC_ERR_OK, st2))
                        (uc_mem_write st1 address bs sz))
        | Backup_Ptr p \<Rightarrow>
            (case uc_mem_map_ptr st address sz perms (Some p) of
               (err, st1) \<Rightarrow> Some (err = UC_ERR_OK, st1))
      else Some (ok, st))"

definition ram_pieces ::
  "backup \<Rightarrow> u32 \<Rightarrow> u64 \<Rightarrow> u64 \<Rightarrow> u64 \<Rightarrow> u64 \<Rightarrow> bool \<Rightarrow> mem_state \<Rightarrow> (bool \<times> mem_state) option" where
  "ram_pieces backup perms b a ce e do_delete st =
     (let l_size = a - b; r_size = e - ce; m_size = ce - a
      in Option.bind (ram_piece backup perms b l_size (True, st)) (\<lambda>r1.
         Option.bind (ram_piece (backup_at backup l_size) perms a (if do_delete then 0 else m_size) r1) (\<lambda>r2.
           ram_piece (backup_at backup (l_size + m_size)) perms ce r_size r2)))"

definition split_region :: "unmap_fn \<Rightarrow> bool \<Rightarrow> split_fn" where
  "split_region unmap do_delete st mr address sz =
     (let chunk_end = address + sz
      in if address \<le> mb_addr mr \<and> chunk_end \<ge> mb_end mr then Some (True, st)
         else if sz = 0 then Some (True, st)
         else if address \<ge> mb_end mr \<or> chunk_end \<le> mb_addr mr then Some (False, st)
         else case mb_back mr of
           Mmio c \<Rightarrow> Some (False, st)
         | Ram_Block p prealloc \<Rightarrow>
             (case (if prealloc then Some (Some (Backup_Ptr p))
                    else map_option (map_option Backup_Bytes) (copy_region st mr)) of
                None \<Rightarrow> None
              | Some None \<Rightarrow> Some (False, st)
              | Some (Some backup) \<Rightarrow>
                  (case unmap st (mb_addr mr) (mb_size mr) of
                     None \<Rightarrow> None
                   | Some (err, st1) \<Rightarrow>
                       if err \<noteq> UC_ERR_OK then Some (False, st1)
                       else ram_pieces backup (mb_perms mr) (mb_addr mr)
                              (if address < mb_addr mr then mb_addr mr else address)
                              (if chunk_end > mb_end mr then mb_end mr else chunk_end)
                              (mb_end mr) do_delete st1)))"

definition split_any :: "unmap_fn \<Rightarrow> bool \<Rightarrow> split_fn" where
  "split_any unmap do_delete st mr address sz =
     (if mb_ram mr then split_region unmap do_delete st mr address sz
      else split_mmio_region unmap do_delete st mr address sz)"

partial_function (option) mem_unmap_loop ::
  "split_fn \<Rightarrow> mem_state \<Rightarrow> u64 \<Rightarrow> u64 \<Rightarrow> u64 \<Rightarrow> (uc_err \<times> mem_state) option" where
  "mem_unmap_loop split st addr sz count =
     (if count < sz then
        case memory_mapping st addr of
          None \<Rightarrow> None
        | Some mr \<Rightarrow>
            let len = memory_region_len mr addr (sz - count)
            in case split st mr addr len of
                 None \<Rightarrow> None
               | Some (ok, st1) \<Rightarrow>
                   if \<not> ok then Some (UC_ERR_NOMEM, st1)
                   else mem_unmap_loop split
                          (case memory_mapping st1 addr of Some m \<Rightarrow> memory_unmap st1 m | None \<Rightarrow> st1)
                          (addr + len) sz (count + len)
      else Some (UC_ERR_OK, st))"

definition mem_unmap_with :: "split_fn \<Rightarrow> unmap_fn" where
  "mem_unmap_with split st address sz =
     (if sz = 0 then Some (UC_ERR_OK, st)
      else if address AND target_page_align st \<noteq> 0 then Some (UC_ERR_ARG, st)
      else if sz AND target_page_align st \<noteq> 0 then Some (UC_ERR_ARG, st)
      else case check_mem_area st address sz of
        None \<Rightarrow> None
      | Some False \<Rightarrow> Some (UC_ERR_NOMEM, st)
      | Some True \<Rightarrow> mem_unmap_loop split st address sz 0)"

primrec uc_mem_unmap_rec :: "nat \<Rightarrow> unmap_fn" where
  "uc_mem_unmap_rec 0 = (\<lambda>st address sz. None)"
| "uc_mem_unmap_rec (Suc n) = mem_unmap_with (split_any (uc_mem_unmap_rec n) True)"

definition uc_mem_unmap :: unmap_fn where
  "uc_mem_unmap = uc_mem_unmap_rec 2"

definition set_perms_at :: "mem_state \<Rightarrow> u64 \<Rightarrow> u32 \<Rightarrow> (bool \<times> mem_state) option" where
  "set_perms_at st addr perms =
     (case memory_mapping st addr of
        None \<Rightarrow> None
      | Some mr \<Rightarrow>
          if mb_ram mr
          then Some (mb_perms mr AND UC_PROT_EXEC \<noteq> 0 \<and> perms AND UC_PROT_EXEC = 0,
                     readonly_mem (mr\<lparr>mb_perms := perms\<rparr>) (perms AND UC_PROT_WRITE = 0) st)
          else Some (False, set_block (mr\<lparr>mb_perms := perms\<rparr>) st))"

partial_function (option) mem_protect_loop ::
  "u32 \<Rightarrow> mem_state \<Rightarrow> u64 \<Rightarrow> u64 \<Rightarrow> u64 \<Rightarrow> bool \<Rightarrow> (uc_err \<times> bool \<times> mem_state) option" where
  "mem_protect_loop perms st addr sz count remove_exec =
     (if count < sz then
        case memory_mapping st addr of
          None \<Rightarrow> None
        | Some mr \<Rightarrow>
            let len = memory_region_len mr addr (sz - count)
            in case split_any uc_mem_unmap False st mr addr len of
                 None \<Rightarrow> None
               | Some (ok, st1) \<Rightarrow>
                   if \<not> ok then Some (UC_ERR_NOMEM, remove_exec, st1)
                   else case set_perms_at st1 addr perms of
                     None \<Rightarrow> None
                   | Some (rx, st2) \<Rightarrow>
                       mem_protect_loop perms st2 (addr + len) sz (count + len) (remove_exec \<or> rx)
      else Some (UC_ERR_OK, remove_exec, st))"

text \<open>The program counter \<open>pc\<close> is what \<open>get_pc\<close> returns.\<close>

definition uc_mem_protect :: "mem_state \<Rightarrow> u64 \<Rightarrow> u64 \<Rightarrow> u64 \<Rightarrow> u32 \<Rightarrow> (uc_err \<times> mem_state) option" where
  "uc_mem_protect st pc address sz perms =
     (if sz = 0 then Some (UC_ERR_OK, st)
      else if address AND target_page_align st \<noteq> 0 then Some (UC_ERR_ARG, st)
      else if sz AND target_page_align st \<noteq> 0 then Some (UC_ERR_ARG, st)
      else if perms AND NOT UC_PROT_ALL \<noteq> 0 then Some (UC_ERR_ARG, st)
      else case check_mem_area st address sz of
        None \<Rightarrow> None
      | Some False \<Rightarrow> Some (UC_ERR_NOMEM, st)
      | Some True \<Rightarrow>
          (case mem_protect_loop perms st address sz 0 False of
             None \<Rightarrow> None
           | Some (err, remove_exec, st1) \<Rightarrow>
               if err = UC_ERR_OK \<and> remove_exec \<and> pc < address + sz \<and> pc \<ge> address
               then Some (err, st1\<lparr>quit_request := True, stop_request := True\<rparr>)
               else Some (err, st1)))"

text \<open>\<open>uc_mem_regions\<close> lists start, inclusive end and permissions of the blocks.\<close>

definition uc_mem_regions :: "mem_state \<Rightarrow> (u64 \<times> u64 \<times> u32) list" where
  "uc_mem_regions st = map (\<lambda>b. (mb_addr b, mb_end b - 1, mb_perms b)) (mapped_blocks st)"

end
