(* ===== verification/Mem_Inv.thy ===== *)
theory Mem_Inv
  imports Mem_Map
begin

text \<open>
  The invariant of the memory interface and the abstract memory it implements: a partial
  function from addresses to cells. A cell is a RAM byte with its permissions, or a place
  of an MMIO region with its callbacks. The lemmas here are about lookup, the search in
  the block array, and the loops that walk over adjacent regions.
\<close>

section \<open>Intervals of machine words\<close>

text \<open>\<open>x - a < n\<close> says that \<open>x\<close> is one of the \<open>n\<close> addresses from \<open>a\<close> on, wrapping around.\<close>

lemma uint_sub_wrap: "uint (x - a :: u64) = (if uint a \<le> uint x then uint x - uint a else uint x - uint a + 2 ^ 64)"
  by (simp add: uint_sub_if_size word_size)

lemma uint_plus_wrap:
  "uint (x + a :: u64) = (if uint x + uint a < 2 ^ 64 then uint x + uint a else uint x + uint a - 2 ^ 64)"
  by (simp add: uint_plus_if_size word_size)

lemma u64_range: "0 \<le> uint (x :: u64) \<and> uint x < 2 ^ 64"
  using uint_bounded [of x] by simp

lemma wrap_int:
  fixes y n l M :: int
  assumes "0 \<le> y" "y < M" "0 \<le> l" "l \<le> n" "n < M"
  shows "y < n \<longleftrightarrow> y < l \<or> (if l \<le> y then y - l else y - l + M) < n - l"
    "(if l \<le> y then y - l else y - l + M) < n - l \<Longrightarrow> \<not> y < l"
  using assms by auto

lemma area_split:
  fixes x a n len :: u64
  assumes "len \<le> n"
  shows "x - a < n \<longleftrightarrow> x - a < len \<or> x - (a + len) < n - len"
    and area_later: "x - (a + len) < n - len \<Longrightarrow> \<not> x - a < len"
proof -
  have e: "x - (a + len) = (x - a) - len" by simp
  have n: "uint (n - len) = uint n - uint len"
    using assms by (simp only: uint_sub_wrap word_le_def if_True)
  have l: "uint len \<le> uint n" using assms by (simp add: word_le_def)
  note w = wrap_int [where y = "uint (x - a)" and M = "2 ^ 64", OF _ _ _ l]
  show "x - a < n \<longleftrightarrow> x - a < len \<or> x - (a + len) < n - len"
    unfolding e word_less_def n uint_sub_wrap [of "x - a" len] using w(1) u64_range by blast
  assume "x - (a + len) < n - len"
  then show "\<not> x - a < len"
    unfolding e word_less_def n uint_sub_wrap [of "x - a" len] using w(2) u64_range by blast
qed

lemma plain_int:
  fixes x a n M :: int
  assumes "0 \<le> x" "x < M" "0 \<le> a" "0 \<le> n" "a + n \<le> M"
  shows "(if a \<le> x then x - a else x - a + M) < n \<longleftrightarrow> a \<le> x \<and> x < a + n"
  using assms by auto

lemma area_plain:
  fixes x a n :: u64
  assumes "uint a + uint n \<le> 2 ^ 64"
  shows "x - a < n \<longleftrightarrow> uint a \<le> uint x \<and> uint x < uint a + uint n"
  unfolding word_less_def uint_sub_wrap using plain_int assms u64_range by blast

lemma uint_pos: "x \<noteq> (0 :: u64) \<longleftrightarrow> 0 < uint x"
  using u64_range [of x] by (metis order.strict_iff_order uint_0_iff)

lemma word_pos: "0 < x \<longleftrightarrow> x \<noteq> (0 :: u64)"
  by (simp add: word_less_def uint_pos)

lemma unat_uint_eq: "int (unat (x :: u64)) = uint x"
  by simp

section \<open>Invariant and abstraction\<close>

definition b_lo :: "mem_block \<Rightarrow> int" where "b_lo b = uint (mb_addr b)"
definition b_hi :: "mem_block \<Rightarrow> int" where "b_hi b = uint (mb_addr b) + uint (mb_size b)"

definition before :: "mem_block \<Rightarrow> mem_block \<Rightarrow> bool" where
  "before b c \<longleftrightarrow> b_hi b \<le> b_lo c"

definition aligned :: "mem_state \<Rightarrow> u64 \<Rightarrow> bool" where
  "aligned st x \<longleftrightarrow> x AND target_page_align st = 0"

fun back_in :: "nat \<Rightarrow> backing \<Rightarrow> bool" where
  "back_in n (Ram_Block (obj, off) pre) = (obj < n)"
| "back_in n (Mmio c) = True"

definition block_ok :: "mem_state \<Rightarrow> mem_block \<Rightarrow> bool" where
  "block_ok st b \<longleftrightarrow> mb_size b \<noteq> 0 \<and> b_hi b \<le> 2 ^ 64 \<and> mb_end b = mb_addr b + mb_size b
     \<and> aligned st (mb_addr b) \<and> aligned st (mb_size b)
     \<and> mb_perms b AND NOT UC_PROT_ALL = 0
     \<and> (mb_readonly b \<and> mb_ram b \<longrightarrow> mb_perms b AND UC_PROT_WRITE = 0)
     \<and> mb_id b < next_id st
     \<and> back_in (next_obj st) (mb_back b)"

fun area_of :: "backing \<Rightarrow> u64 \<Rightarrow> (nat \<times> nat) set" where
  "area_of (Ram_Block (obj, off) pre) sz = {obj} \<times> {off ..< off + unat sz}"
| "area_of (Mmio c) sz = {}"

definition ram_area :: "mem_block \<Rightarrow> (nat \<times> nat) set" where
  "ram_area b = area_of (mb_back b) (mb_size b)"

definition page_align_ok :: "mem_state \<Rightarrow> bool" where
  "page_align_ok st \<longleftrightarrow> (\<exists>k\<le>64. target_page_align st = mask k)"

definition mem_inv :: "mem_state \<Rightarrow> bool" where
  "mem_inv st \<longleftrightarrow> sorted_wrt before (mapped_blocks st)
     \<and> (\<forall>b\<in>set (mapped_blocks st). block_ok st b)
     \<and> (\<forall>b\<in>set (mapped_blocks st). \<forall>c\<in>set (mapped_blocks st). b \<noteq> c \<longrightarrow> ram_area b \<inter> ram_area c = {})
     \<and> distinct (map mb_id (mapped_blocks st))
     \<and> page_align_ok st"

datatype cell = Ram_Cell u8 u32 | Mmio_Cell mmio_cbs

fun cell_back :: "(nat \<Rightarrow> nat \<Rightarrow> u8) \<Rightarrow> backing \<Rightarrow> u32 \<Rightarrow> u64 \<Rightarrow> cell" where
  "cell_back h (Ram_Block (obj, off) pre) perms d = Ram_Cell (h obj (off + unat d)) perms"
| "cell_back h (Mmio c) perms d = Mmio_Cell c"

definition cell_of :: "mem_state \<Rightarrow> mem_block \<Rightarrow> u64 \<Rightarrow> cell" where
  "cell_of st b x = cell_back (host_mem st) (mb_back b) (mb_perms b) (x - mb_addr b)"

definition cell_at :: "mem_state \<Rightarrow> u64 \<Rightarrow> cell option" where
  "cell_at st x = map_option (\<lambda>b. cell_of st b x) (memory_mapping st x)"

definition mapped :: "mem_state \<Rightarrow> u64 \<Rightarrow> bool" where
  "mapped st x \<longleftrightarrow> memory_mapping st x \<noteq> None"

lemma mapped_cell: "mapped st x \<longleftrightarrow> cell_at st x \<noteq> None"
  by (simp add: mapped_def cell_at_def)

lemma block_size_pos: "block_ok st b \<Longrightarrow> 0 < uint (mb_size b)"
  by (simp add: block_ok_def uint_pos)

lemma uint_plus_plain: "uint x + uint a < 2 ^ 64 \<Longrightarrow> uint (x + a :: u64) = uint x + uint a"
  by (simp add: uint_plus_wrap)

lemma uint_sub_plain: "uint a \<le> uint x \<Longrightarrow> uint (x - a :: u64) = uint x - uint a"
  by (simp add: uint_sub_wrap)

lemma block_end: "block_ok st b \<Longrightarrow> uint (mb_end b - 1) = b_hi b - 1"
proof -
  assume ok: "block_ok st b"
  have e: "mb_end b - 1 = mb_addr b + (mb_size b - 1)" using ok by (simp add: block_ok_def)
  have s: "uint (mb_size b - 1) = uint (mb_size b) - 1"
    using block_size_pos [OF ok] by (simp add: uint_sub_plain)
  have "uint (mb_addr b) + uint (mb_size b) \<le> 2 ^ 64" using ok by (simp add: block_ok_def b_hi_def)
  then show ?thesis unfolding e b_hi_def by (subst uint_plus_plain) (use s in linarith)+
qed

lemma contains_iff: "block_ok st b \<Longrightarrow> contains b x \<longleftrightarrow> b_lo b \<le> uint x \<and> uint x < b_hi b"
  by (auto simp: contains_def word_le_def block_end b_lo_def)

lemma block_range: "block_ok st b \<Longrightarrow> 0 \<le> b_lo b \<and> b_lo b < b_hi b \<and> b_hi b \<le> 2 ^ 64"
  using block_size_pos [of st b] by (simp add: b_lo_def b_hi_def block_ok_def)

lemma mem_invD:
  assumes "mem_inv st"
  shows "sorted_wrt before (mapped_blocks st)" "b \<in> set (mapped_blocks st) \<Longrightarrow> block_ok st b"
    "b \<in> set (mapped_blocks st) \<Longrightarrow> c \<in> set (mapped_blocks st) \<Longrightarrow> b \<noteq> c \<Longrightarrow> ram_area b \<inter> ram_area c = {}"
    "distinct (map mb_id (mapped_blocks st))" "page_align_ok st"
  using assms by (auto simp: mem_inv_def)

lemma sorted_wrt_two:
  "sorted_wrt P xs \<Longrightarrow> a \<in> set xs \<Longrightarrow> b \<in> set xs \<Longrightarrow> a = b \<or> P a b \<or> P b a"
  by (induction xs) auto

lemma block_unique:
  assumes inv: "mem_inv st" and "b \<in> set (mapped_blocks st)" "c \<in> set (mapped_blocks st)"
    and "b_lo b \<le> i" "i < b_hi b" "b_lo c \<le> i" "i < b_hi c"
  shows "b = c"
  using sorted_wrt_two [OF mem_invD(1) [OF inv] assms(2,3)] assms(4-) by (auto simp: before_def)

lemma id_unique:
  "mem_inv st \<Longrightarrow> b \<in> set (mapped_blocks st) \<Longrightarrow> c \<in> set (mapped_blocks st) \<Longrightarrow> mb_id b = mb_id c \<Longrightarrow> b = c"
  using mem_invD(4) [of st] by (auto simp: distinct_map inj_on_def)

lemma mapping_Some:
  assumes inv: "mem_inv st"
  shows "memory_mapping st x = Some b \<longleftrightarrow>
    b \<in> set (mapped_blocks st) \<and> b_lo b \<le> uint x \<and> uint x < b_hi b"
proof
  assume "memory_mapping st x = Some b"
  then have b: "b \<in> set (mapped_blocks st)" "contains b x"
    unfolding memory_mapping_def find_Some_iff by auto
  with contains_iff [OF mem_invD(2) [OF inv b(1)]] show "b \<in> set (mapped_blocks st) \<and> b_lo b \<le> uint x \<and> uint x < b_hi b"
    by simp
next
  assume a: "b \<in> set (mapped_blocks st) \<and> b_lo b \<le> uint x \<and> uint x < b_hi b"
  then have "contains b x" using contains_iff mem_invD(2) [OF inv] by blast
  with a obtain c where c: "memory_mapping st x = Some c"
    unfolding memory_mapping_def by (cases "find (\<lambda>b. contains b x) (mapped_blocks st)") (auto simp: find_None_iff)
  then have c': "c \<in> set (mapped_blocks st)" "contains c x"
    unfolding memory_mapping_def find_Some_iff by auto
  with a block_unique [OF inv, of b c "uint x"] contains_iff [OF mem_invD(2) [OF inv c'(1)]] c
  show "memory_mapping st x = Some b" by simp
qed

lemma mapping_None:
  assumes inv: "mem_inv st"
  shows "memory_mapping st x = None \<longleftrightarrow>
    (\<forall>b\<in>set (mapped_blocks st). \<not> (b_lo b \<le> uint x \<and> uint x < b_hi b))"
  using mapping_Some [OF inv] by (metis not_None_eq)

section \<open>Walking over adjacent regions\<close>

lemma region_len:
  fixes n :: u64
  assumes inv: "mem_inv st" and m: "memory_mapping st a = Some b" and n: "n \<noteq> 0"
  defines "len \<equiv> memory_region_len b a n"
  shows "len \<noteq> 0" "len \<le> n" "uint a + uint len \<le> b_hi b" "uint len = min (uint n) (b_hi b - uint a)"
proof -
  have b: "b \<in> set (mapped_blocks st)" "b_lo b \<le> uint a" "uint a < b_hi b"
    using m by (simp_all add: mapping_Some [OF inv])
  have ok: "block_ok st b" using b mem_invD(2) [OF inv] by simp
  have e: "uint (mb_end b - a) = b_hi b - uint a"
  proof -
    have e1: "mb_end b - a = mb_size b - (a - mb_addr b)" using ok by (simp add: block_ok_def)
    have e2: "uint (a - mb_addr b) = uint a - b_lo b"
      using b by (simp add: uint_sub_plain b_lo_def)
    show ?thesis unfolding e1
      by (subst uint_sub_plain) (use e2 b in \<open>simp_all add: b_lo_def b_hi_def\<close>)
  qed
  show l: "uint len = min (uint n) (b_hi b - uint a)"
    by (simp add: len_def memory_region_len_def min_def word_le_def e)
  have "0 < uint n" using n by (simp add: uint_pos)
  with l b show "len \<noteq> 0" "len \<le> n" "uint a + uint len \<le> b_hi b" by (auto simp: word_le_def)
qed

lemma region_chunk:
  assumes inv: "mem_inv st" and m: "memory_mapping st a = Some b" and n: "n \<noteq> 0"
    and x: "x - a < memory_region_len b a n"
  shows "memory_mapping st x = Some b" "uint x = uint a + uint (x - a)"
proof -
  have b: "b \<in> set (mapped_blocks st)" "b_lo b \<le> uint a" using m by (simp_all add: mapping_Some [OF inv])
  have "uint a + uint (memory_region_len b a n) \<le> b_hi b" by (rule region_len(3) [OF inv m n])
  moreover from this have "uint a + uint (memory_region_len b a n) \<le> 2 ^ 64"
    using block_range [OF mem_invD(2) [OF inv b(1)]] by linarith
  ultimately have "uint a \<le> uint x" "uint x < b_hi b" using x by (simp_all add: area_plain)
  with b show "memory_mapping st x = Some b" "uint x = uint a + uint (x - a)"
    by (simp_all add: mapping_Some [OF inv] uint_sub_plain)
qed

lemma step_arith:
  fixes c sz len :: u64
  assumes "c \<le> sz" "len \<le> sz - c" "len \<noteq> 0"
  shows "c + len \<le> sz" "sz - (c + len) = sz - c - len" "unat (sz - (c + len)) < unat (sz - c)"
proof -
  have s: "uint (sz - c) = uint sz - uint c" using assms(1) by (simp add: uint_sub_plain word_le_def)
  have l: "uint c + uint len \<le> uint sz" using assms(2) s by (simp add: word_le_def)
  then have "uint (c + len) = uint c + uint len" using u64_range [of sz] by (simp add: uint_plus_plain)
  with l show "c + len \<le> sz" by (simp add: word_le_def)
  show e: "sz - (c + len) = sz - c - len" by simp
  have "uint (sz - c - len) = uint (sz - c) - uint len" using assms(2) by (simp only: uint_sub_plain word_le_def)
  moreover have "0 < uint len" using assms(3) by (simp add: uint_pos)
  ultimately show "unat (sz - (c + len)) < unat (sz - c)" unfolding e word_less_nat_alt [symmetric] word_less_def by linarith
qed

lemma check_mem_loop_spec:
  assumes inv: "mem_inv st" and "c \<le> sz"
  shows "\<exists>c'. check_mem_loop st a sz c = Some c' \<and> (c' = sz \<longleftrightarrow> (\<forall>x. x - a < sz - c \<longrightarrow> mapped st x))"
  using assms(2)
proof (induction "unat (sz - c)" arbitrary: a c rule: less_induct)
  case less
  show ?case
  proof (cases "c < sz")
    case False
    with less.prems have "c = sz" by simp
    then show ?thesis by (subst check_mem_loop.simps) simp
  next
    case True
    then have n: "sz - c \<noteq> 0" by simp
    show ?thesis
    proof (cases "memory_mapping st a")
      case None
      then have "\<not> mapped st a" "a - a < sz - c" using n unfolding word_pos by (simp_all add: mapped_def word_pos)
      then show ?thesis using None True by (subst check_mem_loop.simps) auto
    next
      case (Some b)
      define len where "len = memory_region_len b a (sz - c)"
      note l = region_len [OF inv Some n, folded len_def]
      note ar = step_arith [OF less.prems l(2,1)]
      obtain c' where c': "check_mem_loop st (a + len) sz (c + len) = Some c'"
        "c' = sz \<longleftrightarrow> (\<forall>x. x - (a + len) < sz - (c + len) \<longrightarrow> mapped st x)"
        using less.hyps [OF ar(3,1)] by blast
      have "mapped st x" if "x - a < len" for x
        using region_chunk(1) [OF inv Some n] that by (simp add: len_def mapped_def)
      then have "c' = sz \<longleftrightarrow> (\<forall>x. x - a < sz - c \<longrightarrow> mapped st x)"
        unfolding c'(2) ar(2) using area_split(1) [OF l(2)] by blast
      with c' Some True show ?thesis
        by (subst check_mem_loop.simps) (simp add: len_def Let_def)
    qed
  qed
qed

lemma check_mem_area_spec:
  assumes "mem_inv st"
  shows "check_mem_area st a sz = Some (\<forall>x. x - a < sz \<longrightarrow> mapped st x)"
  using check_mem_loop_spec [OF assms, of 0 sz a] by (auto simp: check_mem_area_def)

end
