(* ===== verification/Mem_Rw.thy ===== *)
theory Mem_Rw
  imports Mem_Inv
begin

text \<open>
  Reading and writing guest memory: \<open>uc_mem_read\<close> returns the bytes of the abstract
  memory, \<open>uc_mem_write\<close> changes exactly the addressed bytes, both across any number of
  adjacent regions, and neither changes the layout of the mapped regions.
\<close>

section \<open>Reading\<close>

definition byte_at :: "mem_state \<Rightarrow> u64 \<Rightarrow> u8" where
  "byte_at st x = (case cell_at st x of Some (Ram_Cell v p) \<Rightarrow> v | _ \<Rightarrow> 0)"

definition ram_at :: "mem_state \<Rightarrow> u64 \<Rightarrow> bool" where
  "ram_at st x \<longleftrightarrow> (\<exists>v p. cell_at st x = Some (Ram_Cell v p))"

definition bytes_at :: "mem_state \<Rightarrow> u64 \<Rightarrow> u64 \<Rightarrow> u8 list" where
  "bytes_at st a n = map (\<lambda>i. byte_at st (a + of_nat i)) [0..<unat n]"

lemma length_bytes_at [simp]: "length (bytes_at st a n) = unat n"
  by (simp add: bytes_at_def)

lemma ram_mapped: "ram_at st x \<Longrightarrow> mapped st x"
  by (auto simp: ram_at_def mapped_cell)

lemma unat_sub_le: "len \<le> n \<Longrightarrow> unat (n - len :: u64) = unat n - unat len"
  by (simp add: unat_sub word_le_nat_alt)

lemma bytes_at_split:
  assumes "len \<le> n"
  shows "bytes_at st a n = bytes_at st a len @ bytes_at st (a + len) (n - len)"
proof -
  have le: "unat len \<le> unat n" using assms by (simp add: word_le_nat_alt)
  then have "[0..<unat n] = [0..<unat len] @ map (\<lambda>i. i + unat len) [0..<unat n - unat len]"
    using upt_add_eq_append [of 0 "unat len" "unat n - unat len"] by (simp add: map_add_upt)
  then show ?thesis using le by (simp add: bytes_at_def unat_sub_le [OF assms] ac_simps)
qed

lemma of_nat_less_len:
  fixes len :: u64
  assumes "i < unat len"
  shows "unat (of_nat i :: u64) = i" "(a + of_nat i) - a < len"
proof -
  show e: "unat (of_nat i :: u64) = i"
  proof -
    have "int i < 2 ^ 64" using assms u64_range [of len] unat_uint_eq [of len] by linarith
    then have "i < 2 ^ 64" by simp
    then show ?thesis by (simp add: unat_of_nat)
  qed
  show "(a + of_nat i) - a < len" using assms e by (simp add: word_less_nat_alt)
qed

lemma read_mem_chunk:
  assumes inv: "mem_inv st" and m: "memory_mapping st a = Some b" and n: "n \<noteq> 0"
    and ram: "\<forall>x. x - a < memory_region_len b a n \<longrightarrow> ram_at st x"
  shows "read_mem st b a (memory_region_len b a n) = bytes_at st a (memory_region_len b a n)"
proof -
  let ?len = "memory_region_len b a n"
  have "a - a < ?len" using region_len(1) [OF inv m n] by (simp add: word_pos)
  with ram have "ram_at st a" by blast
  with m obtain obj off pre where b: "mb_back b = Ram_Block (obj, off) pre"
    by (cases "mb_back b") (auto simp: ram_at_def cell_at_def cell_of_def)
  have "host_mem st obj (off + unat (a - mb_addr b) + i) = byte_at st (a + of_nat i)" if "i < unat ?len" for i
  proof -
    note i = of_nat_less_len [OF that]
    note ch = region_chunk [OF inv m n i(2) [of a]]
    have "b_lo b \<le> uint a" using m by (simp add: mapping_Some [OF inv])
    then have le: "uint (mb_addr b) \<le> uint a" by (simp add: b_lo_def)
    have "uint (a + of_nat i - mb_addr b) = uint (a - mb_addr b) + uint (of_nat i :: u64)"
      by (subst (1 2) uint_sub_plain)
        (use ch(2) [simplified] le u64_range [of "of_nat i :: u64"] in linarith)+
    then have "unat (a + of_nat i - mb_addr b) = unat (a - mb_addr b) + i"
      using i(1) by (simp add: nat_eq_iff flip: of_nat_eq_iff [where 'a = int])
    then show ?thesis by (simp add: byte_at_def cell_at_def ch cell_of_def b ac_simps)
  qed
  then show ?thesis by (simp add: read_mem_def b bytes_at_def)
qed

lemma mem_read_loop_spec:
  assumes inv: "mem_inv st" and "c \<le> sz" and "\<forall>x. x - a < sz - c \<longrightarrow> ram_at st x"
  shows "mem_read_loop st a sz c bs = Some (sz, bs @ bytes_at st a (sz - c))"
  using assms(2,3)
proof (induction "unat (sz - c)" arbitrary: a c bs rule: less_induct)
  case less
  show ?case
  proof (cases "c < sz")
    case False
    with less.prems have "c = sz" by simp
    then show ?thesis by (subst mem_read_loop.simps) (simp add: bytes_at_def)
  next
    case True
    then have n: "sz - c \<noteq> 0" by simp
    have "a - a < sz - c" using n word_pos by simp
    then have "mapped st a" using less.prems(2) ram_mapped by blast
    then obtain b where b: "memory_mapping st a = Some b" by (auto simp: mapped_def)
    define len where "len = memory_region_len b a (sz - c)"
    note l = region_len [OF inv b n, folded len_def]
    note ar = step_arith [OF less.prems(1) l(2,1)]
    have sub: "\<forall>x. x - (a + len) < sz - (c + len) \<longrightarrow> ram_at st x"
      and sub': "\<forall>x. x - a < len \<longrightarrow> ram_at st x"
      using less.prems(2) area_split(1) [OF l(2)] unfolding ar(2) by blast+
    have "mem_read_loop st a sz c bs = mem_read_loop st (a + len) sz (c + len) (bs @ read_mem st b a len)"
      using True b by (subst mem_read_loop.simps) (simp add: len_def Let_def)
    also have "\<dots> = Some (sz, (bs @ bytes_at st a len) @ bytes_at st (a + len) (sz - (c + len)))"
      using less.hyps [OF ar(3,1) sub] read_mem_chunk [OF inv b n] sub' by (simp add: len_def)
    finally show ?thesis by (simp only: ar(2) bytes_at_split [OF l(2)] append_assoc)
  qed
qed

lemma uc_mem_read_spec:
  assumes inv: "mem_inv st"
  shows "\<forall>x. x - a < sz \<longrightarrow> ram_at st x \<Longrightarrow> uc_mem_read st a sz = Some (UC_ERR_OK, bytes_at st a sz)"
    and "\<not> (\<forall>x. x - a < sz \<longrightarrow> mapped st x) \<Longrightarrow> uc_mem_read st a sz = Some (UC_ERR_READ_UNMAPPED, [])"
proof -
  assume r: "\<forall>x. x - a < sz \<longrightarrow> ram_at st x"
  then have "\<forall>x. x - a < sz \<longrightarrow> mapped st x" using ram_mapped by blast
  then show "uc_mem_read st a sz = Some (UC_ERR_OK, bytes_at st a sz)"
    using mem_read_loop_spec [OF inv, of 0 sz a "[]"] r by (simp add: uc_mem_read_def check_mem_area_spec [OF inv])
next
  assume "\<not> (\<forall>x. x - a < sz \<longrightarrow> mapped st x)"
  then show "uc_mem_read st a sz = Some (UC_ERR_READ_UNMAPPED, [])"
    by (simp only: uc_mem_read_def check_mem_area_spec [OF inv]) simp
qed

section \<open>Changes that keep the layout\<close>

definition strip :: "mem_block \<Rightarrow> mem_block" where
  "strip b = b\<lparr>mb_readonly := False\<rparr>"

lemma strip_fields [simp]:
  "mb_id (strip b) = mb_id b" "mb_addr (strip b) = mb_addr b" "mb_end (strip b) = mb_end b"
  "mb_size (strip b) = mb_size b" "mb_perms (strip b) = mb_perms b" "mb_back (strip b) = mb_back b"
  "b_lo (strip b) = b_lo b" "b_hi (strip b) = b_hi b" "ram_area (strip b) = ram_area b"
  "contains (strip b) x = contains b x" "strip (b\<lparr>mb_readonly := r\<rparr>) = strip b"
  "cell_of st (strip b) x = cell_of st b x" "mb_ram (strip b) = mb_ram b"
  by (simp_all add: strip_def mb_ram_def b_lo_def b_hi_def ram_area_def contains_def cell_of_def)

lemma strip_eqD:
  "strip b = strip c \<Longrightarrow> mb_id b = mb_id c \<and> mb_addr b = mb_addr c \<and> mb_end b = mb_end c \<and> mb_size b = mb_size c
     \<and> mb_perms b = mb_perms c \<and> mb_back b = mb_back c \<and> b_lo b = b_lo c \<and> b_hi b = b_hi c \<and> ram_area b = ram_area c
     \<and> mb_ram b = mb_ram c"
  by (metis strip_fields)

definition same_layout :: "mem_state \<Rightarrow> mem_state \<Rightarrow> bool" where
  "same_layout st st' \<longleftrightarrow> map strip (mapped_blocks st') = map strip (mapped_blocks st)
     \<and> next_obj st' = next_obj st \<and> no_memory st' = no_memory st \<and> next_id st' = next_id st
     \<and> target_page_align st' = target_page_align st \<and> mmio_bytes st' = mmio_bytes st
     \<and> tb_invalidated st' = tb_invalidated st
     \<and> quit_request st' = quit_request st \<and> stop_request st' = stop_request st"

lemma same_layout_refl [simp]: "same_layout st st"
  by (simp add: same_layout_def)

lemma same_layout_trans: "same_layout a b \<Longrightarrow> same_layout b c \<Longrightarrow> same_layout a c"
  by (simp add: same_layout_def)

lemma find_strip: "map_option strip (find (\<lambda>b. contains b x) bs) = find (\<lambda>b. contains b x) (map strip bs)"
  by (induction bs) auto

lemma same_layout_mapping:
  "same_layout st st' \<Longrightarrow> map_option strip (memory_mapping st' x) = map_option strip (memory_mapping st x)"
  by (simp add: memory_mapping_def find_strip same_layout_def)

lemma same_layout_mapped: "same_layout st st' \<Longrightarrow> mapped st' x = mapped st x"
  using same_layout_mapping [of st st' x] unfolding mapped_def by (metis option.map_disc_iff)

definition readonly_ok :: "mem_state \<Rightarrow> bool" where
  "readonly_ok st \<longleftrightarrow> (\<forall>b\<in>set (mapped_blocks st). mb_readonly b \<and> mb_ram b \<longrightarrow> mb_perms b AND UC_PROT_WRITE = 0)"

lemma before_strip: "before (strip b) (strip c) = before b c"
  by (simp add: before_def)

lemma same_layout_inv:
  assumes inv: "mem_inv st" and l: "same_layout st st'" and ro: "readonly_ok st'"
  shows "mem_inv st'"
proof -
  have m: "map strip (mapped_blocks st') = map strip (mapped_blocks st)" using l by (simp add: same_layout_def)
  have ex: "\<exists>c\<in>set (mapped_blocks st). strip c = strip b" if "b \<in> set (mapped_blocks st')" for b
  proof -
    have "strip b \<in> set (map strip (mapped_blocks st'))" using that by simp
    then show ?thesis unfolding m by auto
  qed
  have "sorted_wrt before (map strip (mapped_blocks st)) = sorted_wrt before (mapped_blocks st)"
    "sorted_wrt before (map strip (mapped_blocks st')) = sorted_wrt before (mapped_blocks st')"
    by (simp_all add: sorted_wrt_map before_strip)
  then have s: "sorted_wrt before (mapped_blocks st')" using m mem_invD(1) [OF inv] by simp
  have i: "distinct (map mb_id (mapped_blocks st'))"
    using arg_cong [OF m, of "map mb_id"] mem_invD(4) [OF inv] by (simp add: comp_def)
  have ok: "block_ok st' b" if b: "b \<in> set (mapped_blocks st')" for b
  proof -
    obtain c where c: "c \<in> set (mapped_blocks st)" "strip c = strip b" using ex [OF b] by blast
    have "block_ok st c" by (rule mem_invD(2) [OF inv c(1)])
    with strip_eqD [OF c(2)] l ro b show ?thesis
      unfolding block_ok_def same_layout_def aligned_def readonly_ok_def by auto
  qed
  have ap: "ram_area b \<inter> ram_area c = {}"
    if bc: "b \<in> set (mapped_blocks st')" "c \<in> set (mapped_blocks st')" "b \<noteq> c" for b c
  proof -
    obtain b' c' where w: "b' \<in> set (mapped_blocks st)" "strip b' = strip b"
      "c' \<in> set (mapped_blocks st)" "strip c' = strip c" using ex [OF bc(1)] ex [OF bc(2)] by blast
    have "b' \<noteq> c'"
    proof
      assume "b' = c'"
      then have "mb_id b = mb_id c" using strip_eqD [OF w(2)] strip_eqD [OF w(4)] by simp
      then show False using i bc by (auto simp: distinct_map inj_on_def)
    qed
    then show ?thesis using mem_invD(3) [OF inv w(1,3)] strip_eqD [OF w(2)] strip_eqD [OF w(4)] by simp
  qed
  show ?thesis using s i ok ap mem_invD(5) [OF inv] l
    by (simp add: mem_inv_def page_align_ok_def same_layout_def)
qed

section \<open>Writing\<close>

fun put_byte :: "u8 \<Rightarrow> cell \<Rightarrow> cell" where
  "put_byte v (Ram_Cell w p) = Ram_Cell v p"
| "put_byte v (Mmio_Cell c) = Mmio_Cell c"

text \<open>\<open>written st st' a n bs\<close>: \<open>st'\<close> is \<open>st\<close> with the RAM bytes from \<open>a\<close> on replaced by \<open>bs\<close>.\<close>

definition written :: "mem_state \<Rightarrow> mem_state \<Rightarrow> u64 \<Rightarrow> u64 \<Rightarrow> u8 list \<Rightarrow> bool" where
  "written st st' a n bs \<longleftrightarrow> same_layout st st' \<and> mem_inv st'
     \<and> (\<forall>x. cell_at st' x = (if x - a < n then map_option (put_byte (bs ! unat (x - a))) (cell_at st x)
                           else cell_at st x))"

lemma set_block_readonly:
  assumes inv: "mem_inv st" and b: "\<exists>c\<in>set (mapped_blocks st). strip c = strip b"
  shows "map strip (mapped_blocks (readonly_mem b r st)) = map strip (mapped_blocks st)"
proof -
  obtain d where d: "d \<in> set (mapped_blocks st)" "strip d = strip b" using b by blast
  have "strip (if mb_id c = mb_id b then b\<lparr>mb_readonly := r\<rparr> else c) = strip c"
    if "c \<in> set (mapped_blocks st)" for c
    using id_unique [OF inv that d(1)] d(2) strip_eqD [OF d(2)] by auto
  then show ?thesis by (simp add: readonly_mem_def set_block_def)
qed

lemma readonly_ok_set:
  assumes "readonly_ok st" and "r \<longrightarrow> mb_perms b AND UC_PROT_WRITE = 0"
  shows "readonly_ok (readonly_mem b r st)"
  using assms by (auto simp: readonly_ok_def readonly_mem_def set_block_def)

lemma mem_inv_readonly_ok: "mem_inv st \<Longrightarrow> readonly_ok st"
  by (simp add: mem_inv_def block_ok_def readonly_ok_def)

lemma cell_at_layout:
  assumes "same_layout st st'"
  shows "cell_at st' x = map_option (\<lambda>b. cell_of st' b x) (memory_mapping st x)"
proof -
  have "cell_at st' x = map_option (\<lambda>b. cell_of st' b x) (map_option strip (memory_mapping st' x))"
    by (simp add: cell_at_def option.map_comp comp_def)
  also have "\<dots> = map_option (\<lambda>b. cell_of st' b x) (memory_mapping st x)"
    by (simp add: same_layout_mapping [OF assms] option.map_comp comp_def)
  finally show ?thesis .
qed

lemma store_cells:
  assumes inv: "mem_inv st" and m: "memory_mapping st a = Some b" and n: "n \<noteq> 0"
    and bk: "mb_back b = Ram_Block (obj, off) pre"
    and len: "length bs = unat (memory_region_len b a n)"
    and x: "memory_mapping st x = Some d"
  shows "cell_back (store_bytes h obj (off + unat (a - mb_addr b)) bs) (mb_back d) p (x - mb_addr d) =
    (if x - a < memory_region_len b a n then put_byte (bs ! unat (x - a)) (cell_back h (mb_back d) p (x - mb_addr d))
     else cell_back h (mb_back d) p (x - mb_addr d))"
proof -
  let ?len = "memory_region_len b a n"
  have a: "b \<in> set (mapped_blocks st)" "uint (mb_addr b) \<le> uint a" "uint a < b_hi b"
    and dx: "d \<in> set (mapped_blocks st)" "uint (mb_addr d) \<le> uint x" "uint x < b_hi d"
    using m x by (simp_all add: mapping_Some [OF inv] b_lo_def)
  show ?thesis
  proof (cases "d = b")
    case True
    have ua: "int (unat (a - mb_addr b)) = uint a - uint (mb_addr b)"
      and ux: "int (unat (x - mb_addr b)) = uint x - uint (mb_addr b)"
      using a dx True by (simp_all add: uint_sub_plain)
    have hi: "uint a + uint ?len \<le> b_hi b" by (rule region_len(3) [OF inv m n])
    then have "uint a + uint ?len \<le> 2 ^ 64" using block_range [OF mem_invD(2) [OF inv a(1)]] by linarith
    then have ch: "x - a < ?len \<longleftrightarrow> uint a \<le> uint x \<and> uint x < uint a + uint ?len" by (rule area_plain)
    have iff: "x - a < ?len \<longleftrightarrow> unat (a - mb_addr b) \<le> unat (x - mb_addr b)
        \<and> unat (x - mb_addr b) < unat (a - mb_addr b) + unat ?len"
      unfolding ch using ua ux unat_uint_eq [of ?len] by linarith
    have "unat (x - mb_addr b) - unat (a - mb_addr b) = unat (x - a)" if "x - a < ?len"
    proof -
      have "int (unat (x - a)) = uint x - uint a" using that ch by (simp add: uint_sub_plain)
      then show ?thesis using ua ux iff that by linarith
    qed
    then show ?thesis using iff by (auto simp: True bk store_bytes_def len)
  next
    case False
    have "\<not> x - a < ?len" using region_chunk(1) [OF inv m n] x False by auto
    moreover have "cell_back (store_bytes h obj (off + unat (a - mb_addr b)) bs) (mb_back d) p (x - mb_addr d)
        = cell_back h (mb_back d) p (x - mb_addr d)"
    proof (cases "mb_back d")
      case (Mmio c) then show ?thesis by simp
    next
      case (Ram_Block q pre')
      obtain obj' off' where q: "q = (obj', off')" by (cases q)
      have "unat (x - mb_addr d) < unat (mb_size d)"
        using dx by (simp add: b_hi_def uint_sub_plain flip: of_nat_less_iff [where 'a = int])
      then have "(obj', off' + unat (x - mb_addr d)) \<in> ram_area d" by (simp add: ram_area_def Ram_Block q)
      then have "(obj', off' + unat (x - mb_addr d)) \<notin> ram_area b"
        using mem_invD(3) [OF inv dx(1) a(1) False] by blast
      moreover have "unat (a - mb_addr b) + unat ?len \<le> unat (mb_size b)"
        using region_len(3) [OF inv m n] a unat_uint_eq
        by (simp add: b_hi_def uint_sub_plain flip: of_nat_le_iff [where 'a = int])
      ultimately show ?thesis by (auto simp: Ram_Block q store_bytes_def len ram_area_def bk)
    qed
    ultimately show ?thesis by simp
  qed
qed

lemma readonly_mem_fields [simp]:
  "host_mem (readonly_mem b r st) = host_mem st" "next_obj (readonly_mem b r st) = next_obj st"
  "no_memory (readonly_mem b r st) = no_memory st" "next_id (readonly_mem b r st) = next_id st"
  "target_page_align (readonly_mem b r st) = target_page_align st"
  "mmio_bytes (readonly_mem b r st) = mmio_bytes st" "tb_invalidated (readonly_mem b r st) = tb_invalidated st"
  "quit_request (readonly_mem b r st) = quit_request st" "stop_request (readonly_mem b r st) = stop_request st"
  by (simp_all add: readonly_mem_def set_block_def)

lemma readonly_layout:
  assumes "mem_inv st" and "b \<in> set (mapped_blocks st)" and "r \<longrightarrow> mb_perms b AND UC_PROT_WRITE = 0"
  shows "same_layout st (readonly_mem b r st)" "mem_inv (readonly_mem b r st)"
proof -
  show l: "same_layout st (readonly_mem b r st)"
    using set_block_readonly [OF assms(1)] assms(2) by (auto simp: same_layout_def)
  show "mem_inv (readonly_mem b r st)"
    by (rule same_layout_inv [OF assms(1) l readonly_ok_set [OF mem_inv_readonly_ok [OF assms(1)] assms(3)]])
qed

lemma write_mem_layout:
  assumes inv: "mem_inv st" and w: "write_mem st b a bs = Some st'"
  shows "same_layout st st'" "mem_inv st'" "mapped_blocks st' = mapped_blocks st"
proof -
  show l: "same_layout st st'" and m: "mapped_blocks st' = mapped_blocks st"
    using w by (auto simp: write_mem_def same_layout_def split: backing.splits prod.splits if_splits)
  have "readonly_ok st'" using mem_inv_readonly_ok [OF inv] by (simp add: readonly_ok_def m)
  then show "mem_inv st'" by (rule same_layout_inv [OF inv l])
qed

lemma same_layout_cells:
  "same_layout st st' \<Longrightarrow> host_mem st' = host_mem st \<Longrightarrow> cell_at st' x = cell_at st x"
  unfolding cell_at_layout [of st st' x] by (simp add: cell_at_def cell_of_def)

lemma mapping_host [simp]: "memory_mapping (st\<lparr>host_mem := h\<rparr>) x = memory_mapping st x"
  by (simp add: memory_mapping_def)

lemma write_mem_written:
  assumes inv: "mem_inv st" and m: "memory_mapping st a = Some b" and n: "n \<noteq> 0"
    and len: "length bs = unat (memory_region_len b a n)" and ro: "\<not> (mb_readonly b \<and> mb_ram b)"
  shows "\<exists>st'. write_mem st b a bs = Some st' \<and> written st st' a (memory_region_len b a n) bs"
proof (cases "mb_back b")
  case (Ram_Block q pre)
  obtain obj off where q: "q = (obj, off)" by (cases q)
  let ?st' = "st\<lparr>host_mem := store_bytes (host_mem st) obj (off + unat (a - mb_addr b)) bs\<rparr>"
  have w: "write_mem st b a bs = Some ?st'" using ro by (simp add: write_mem_def Ram_Block q mb_ram_def)
  note l = write_mem_layout [OF inv w]
  have "cell_at ?st' x = (if x - a < memory_region_len b a n
      then map_option (put_byte (bs ! unat (x - a))) (cell_at st x) else cell_at st x)" for x
    using store_cells [OF inv m n Ram_Block [unfolded q] len, of x]
    by (cases "memory_mapping st x") (simp_all add: cell_at_def cell_of_def)
  then show ?thesis using w l by (simp add: written_def)
next
  case (Mmio c)
  let ?st' = "st\<lparr>mmio_log := mmio_log st @ [(c, a - mb_addr b, bs)]\<rparr>"
  have w: "write_mem st b a bs = Some ?st'" by (simp add: write_mem_def Mmio)
  note l = write_mem_layout [OF inv w]
  have "cell_at ?st' x = cell_at st x" for x using same_layout_cells [OF l(1)] by simp
  moreover have "cell_at st x = Some (Mmio_Cell c)" if "x - a < memory_region_len b a n" for x
    using region_chunk(1) [OF inv m n that] by (simp add: cell_at_def cell_of_def Mmio)
  ultimately show ?thesis using w l by (auto simp: written_def)
qed

lemma find_map_same:
  "(\<And>c. c \<in> set xs \<Longrightarrow> P (f c) = P c) \<Longrightarrow> find P (map f xs) = map_option f (find P xs)"
  by (induction xs) auto

lemma mapping_set_block:
  assumes inv: "mem_inv st" and b: "b \<in> set (mapped_blocks st)"
    and same: "mb_id b' = mb_id b" "mb_addr b' = mb_addr b" "mb_end b' = mb_end b"
  shows "memory_mapping (set_block b' st) x =
    map_option (\<lambda>c. if mb_id c = mb_id b then b' else c) (memory_mapping st x)"
proof -
  have "contains (if mb_id c = mb_id b then b' else c) x = contains c x" if "c \<in> set (mapped_blocks st)" for c
    using id_unique [OF inv that b] same by (auto simp: contains_def)
  then show ?thesis by (simp add: memory_mapping_def set_block_def same find_map_same)
qed

lemma written_readonly:
  assumes inv: "mem_inv st" and w: "written st1 st2 a n bs"
    and l: "same_layout st st1" "host_mem st1 = host_mem st"
  shows "written st st2 a n bs"
  using w same_layout_trans [OF l(1)] same_layout_cells [OF l] by (simp add: written_def)

lemma write_chunk_written:
  assumes inv: "mem_inv st" and m: "memory_mapping st a = Some b" and n: "n \<noteq> 0"
    and len: "length bs = unat (memory_region_len b a n)"
  shows "\<exists>st'. write_chunk st b a bs = (True, st') \<and> written st st' a (memory_region_len b a n) bs"
proof -
  have b: "b \<in> set (mapped_blocks st)" using m by (simp add: mapping_Some [OF inv])
  show ?thesis
  proof (cases "mb_perms b AND UC_PROT_WRITE = 0")
    case False
    then have "\<not> (mb_readonly b \<and> mb_ram b)" using mem_inv_readonly_ok [OF inv] b by (auto simp: readonly_ok_def)
    then obtain st' where "write_mem st b a bs = Some st'" "written st st' a (memory_region_len b a n) bs"
      using write_mem_written [OF inv m n len] by blast
    with False show ?thesis by (simp add: write_chunk_def)
  next
    case True
    let ?b = "b\<lparr>mb_readonly := False\<rparr>" and ?st1 = "readonly_mem b False st"
    have l1: "same_layout st ?st1" and inv1: "mem_inv ?st1"
      using readonly_layout [OF inv b, of False] by simp_all
    have m1: "memory_mapping ?st1 a = Some ?b"
      using mapping_set_block [OF inv b, of ?b] m by (simp add: readonly_mem_def)
    have len1: "memory_region_len ?b a n = memory_region_len b a n" by (simp add: memory_region_len_def)
    obtain st2 where w: "write_mem ?st1 ?b a bs = Some st2" "written ?st1 st2 a (memory_region_len b a n) bs"
      using write_mem_written [OF inv1 m1 n] len unfolding len1 by auto
    note wl = write_mem_layout [OF inv1 w(1)]
    have w2: "written st st2 a (memory_region_len b a n) bs"
      by (rule written_readonly [OF inv w(2) l1]) simp
    have b1: "?b \<in> set (mapped_blocks st2)" using m1 by (simp add: wl(3) mapping_Some [OF inv1])
    have l3: "same_layout st2 (readonly_mem ?b True st2)" "mem_inv (readonly_mem ?b True st2)"
      using readonly_layout [OF wl(2) b1, of True] True by simp_all
    have "cell_at (readonly_mem ?b True st2) x = cell_at st2 x" for x by (rule same_layout_cells [OF l3(1)]) simp
    then have "written st (readonly_mem ?b True st2) a (memory_region_len b a n) bs"
      using w2 l3 same_layout_trans [OF _ l3(1)] by (simp add: written_def)
    then show ?thesis using w(1) True by (simp add: write_chunk_def)
  qed
qed

lemma written_append:
  assumes w1: "written st st1 a len (take (unat len) bs)"
    and w2: "written st1 st2 (a + len) (n - len) (drop (unat len) bs)"
    and le: "len \<le> n" and length: "unat n \<le> length bs"
  shows "written st st2 a n bs"
proof -
  have ll: "unat len \<le> length bs" using le length by (simp add: word_le_nat_alt)
  have "cell_at st2 x = (if x - a < n then map_option (put_byte (bs ! unat (x - a))) (cell_at st x) else cell_at st x)"
    for x
  proof (cases "x - (a + len) < n - len")
    case True
    have nl: "\<not> x - a < len" by (rule area_later [OF le True])
    then have "unat len + unat (x - (a + len)) = unat (x - a)"
      using unat_sub_le [of len "x - a"] by (simp add: not_less word_le_nat_alt diff_diff_eq [symmetric])
    then have "drop (unat len) bs ! unat (x - (a + len)) = bs ! unat (x - a)"
      using ll by (simp add: nth_drop)
    then show ?thesis using w1 w2 True nl area_split(1) [OF le, of x a] by (simp add: written_def)
  next
    case False
    then show ?thesis using w1 w2 area_split(1) [OF le, of x a]
      by (auto simp: written_def word_less_nat_alt)
  qed
  with w1 w2 same_layout_trans show ?thesis by (auto simp: written_def)
qed

lemma written_refl: "mem_inv st \<Longrightarrow> written st st a 0 bs"
  by (simp add: written_def)

lemma mem_write_loop_spec:
  assumes "mem_inv st" "c \<le> sz" "\<forall>x. x - a < sz - c \<longrightarrow> mapped st x" "unat (sz - c) \<le> length bs"
  shows "\<exists>st'. mem_write_loop st a sz c bs = Some (sz, st') \<and> written st st' a (sz - c) bs"
  using assms
proof (induction "unat (sz - c)" arbitrary: st a c bs rule: less_induct)
  case less
  show ?case
  proof (cases "c < sz")
    case False
    with less.prems have "c = sz" by simp
    then show ?thesis using written_refl [OF less.prems(1)] by (subst mem_write_loop.simps) simp
  next
    case True
    then have n: "sz - c \<noteq> 0" by simp
    have "a - a < sz - c" using n word_pos by simp
    then have "mapped st a" using less.prems(3) by blast
    then obtain b where b: "memory_mapping st a = Some b" by (auto simp: mapped_def)
    define len where "len = memory_region_len b a (sz - c)"
    note l = region_len [OF less.prems(1) b n, folded len_def]
    note ar = step_arith [OF less.prems(2) l(2,1)]
    have le: "unat len \<le> length bs" using l(2) less.prems(4) by (simp add: word_le_nat_alt)
    then obtain st1 where st1: "write_chunk st b a (take (unat len) bs) = (True, st1)"
      "written st st1 a len (take (unat len) bs)"
      using write_chunk_written [OF less.prems(1) b n, of "take (unat len) bs"] by (auto simp: len_def)
    have p: "mem_inv st1" "\<forall>x. x - (a + len) < sz - (c + len) \<longrightarrow> mapped st1 x"
      "unat (sz - (c + len)) \<le> length (drop (unat len) bs)"
      using st1(2) less.prems(3,4) area_split(1) [OF l(2)] same_layout_mapped unat_sub_le [OF l(2)]
      unfolding ar(2) by (auto simp: written_def)
    obtain st2 where st2: "mem_write_loop st1 (a + len) sz (c + len) (drop (unat len) bs) = Some (sz, st2)"
      "written st1 st2 (a + len) (sz - (c + len)) (drop (unat len) bs)"
      using less.hyps [OF ar(3) p(1) ar(1) p(2,3)] by blast
    have "mem_write_loop st a sz c bs = Some (sz, st2)"
      using True b st1(1) st2(1) by (subst mem_write_loop.simps) (simp add: Let_def flip: len_def)
    moreover have "written st st2 a (sz - c) bs"
      using written_append [OF st1(2) _ l(2) less.prems(4)] st2(2) unfolding ar(2) by simp
    ultimately show ?thesis by blast
  qed
qed

lemma uc_mem_write_spec:
  assumes inv: "mem_inv st"
  shows "\<forall>x. x - a < sz \<longrightarrow> mapped st x \<Longrightarrow> unat sz \<le> length bs \<Longrightarrow>
      \<exists>st'. uc_mem_write st a bs sz = Some (UC_ERR_OK, st') \<and> written st st' a sz bs"
    and "\<not> (\<forall>x. x - a < sz \<longrightarrow> mapped st x) \<Longrightarrow> uc_mem_write st a bs sz = Some (UC_ERR_WRITE_UNMAPPED, st)"
proof -
  assume r: "\<forall>x. x - a < sz \<longrightarrow> mapped st x" and len: "unat sz \<le> length bs"
  then obtain st' where "mem_write_loop st a sz 0 bs = Some (sz, st')" "written st st' a sz bs"
    using mem_write_loop_spec [OF inv, of 0 sz a bs] by auto
  with r show "\<exists>st'. uc_mem_write st a bs sz = Some (UC_ERR_OK, st') \<and> written st st' a sz bs"
    by (simp add: uc_mem_write_def check_mem_area_spec [OF inv])
next
  assume "\<not> (\<forall>x. x - a < sz \<longrightarrow> mapped st x)"
  then show "uc_mem_write st a bs sz = Some (UC_ERR_WRITE_UNMAPPED, st)"
    by (simp only: uc_mem_write_def check_mem_area_spec [OF inv]) simp
qed

end
