(* ===== verification/Mem_Layout.thy ===== *)
theory Mem_Layout
  imports Mem_Rw
begin

text \<open>
  Mapping, unmapping and splitting: the search in the sorted block array, the check for
  overlaps, and the effect of the mapping functions on the abstract memory. The interface
  of the unmapping that the split functions rely on is the locale \<open>whole_unmap\<close>.
\<close>

section \<open>Search in the block array\<close>

lemma bsearch_loop_spec:
  assumes "sorted_wrt before bs" "\<forall>b\<in>set bs. block_ok st b" "l \<le> r" "r \<le> length bs"
    "\<forall>k<l. b_hi (bs ! k) \<le> uint a" "\<forall>k<length bs. r \<le> k \<longrightarrow> uint a < b_hi (bs ! k)"
  shows "let i = bsearch_mapped_blocks_loop bs a l r
    in i \<le> length bs \<and> (\<forall>k<i. b_hi (bs ! k) \<le> uint a) \<and> (\<forall>k<length bs. i \<le> k \<longrightarrow> uint a < b_hi (bs ! k))"
  using assms
proof (induction bs a l r rule: bsearch_mapped_blocks_loop.induct)
  case (1 bs a l r)
  show ?case
  proof (cases "l < r")
    case False
    then show ?thesis using "1.prems" by (subst bsearch_mapped_blocks_loop.simps) (simp add: Let_def)
  next
    case True
    define mid where "mid = l + (r - l) div 2"
    have mid: "l \<le> mid" "mid < r" "mid < length bs" using True "1.prems"(4) by (auto simp: mid_def)
    have ok: "block_ok st (bs ! k)" if "k < length bs" for k using "1.prems"(2) that by simp
    have srt: "b_hi (bs ! i) \<le> b_lo (bs ! j)" if "i < j" "j < length bs" for i j
      using "1.prems"(1) that by (auto simp: sorted_wrt_iff_nth_less before_def)
    have rng: "b_lo (bs ! k) < b_hi (bs ! k)" if "k < length bs" for k using block_range [OF ok [OF that]] by simp
    have u: "bsearch_mapped_blocks_loop bs a l r =
      (if mb_end (bs ! mid) - 1 < a then bsearch_mapped_blocks_loop bs a (mid + 1) r
       else if mb_addr (bs ! mid) > a then bsearch_mapped_blocks_loop bs a l mid else mid)"
      using True by (subst bsearch_mapped_blocks_loop.simps) (simp add: Let_def mid_def)
    have e: "mb_end (bs ! mid) - 1 < a \<longleftrightarrow> b_hi (bs ! mid) \<le> uint a"
      using block_end [OF ok [OF mid(3)]] by (auto simp: word_less_def)
    have f: "mb_addr (bs ! mid) > a \<longleftrightarrow> uint a < b_lo (bs ! mid)" by (simp add: word_less_def b_lo_def)
    have below: "b_hi (bs ! k) \<le> uint a" if "b_lo (bs ! mid) \<le> uint a" "k < mid" for k
      using srt [of k mid] mid that by simp
    have above: "uint a < b_hi (bs ! k)" if "uint a < b_hi (bs ! mid)" "mid \<le> k" "k < length bs" for k
      using srt [of mid k] rng [of k] that by (cases "k = mid") auto
    consider "b_hi (bs ! mid) \<le> uint a" | "uint a < b_lo (bs ! mid)"
      | "b_lo (bs ! mid) \<le> uint a" "uint a < b_hi (bs ! mid)" by linarith
    then show ?thesis
    proof cases
      case 1
      then have "\<forall>k<mid + 1. b_hi (bs ! k) \<le> uint a"
        using below rng [OF mid(3)] by (auto simp: less_Suc_eq)
      then show ?thesis using 1 "1.IH"(1) [OF True mid_def refl] "1.prems" mid e u by simp
    next
      case 2
      then have "\<forall>k<length bs. mid \<le> k \<longrightarrow> uint a < b_hi (bs ! k)" using above rng [OF mid(3)] by auto
      then show ?thesis using 2 "1.IH"(2) [OF True mid_def refl] "1.prems" mid e f u rng [OF mid(3)] by simp
    next
      case 3
      then show ?thesis using below above e f u mid by (simp add: Let_def)
    qed
  qed
qed

lemma bsearch_spec:
  fixes a :: u64
  assumes inv: "mem_inv st"
  defines "i \<equiv> bsearch_mapped_blocks st a"
  shows "i \<le> length (mapped_blocks st)" "k < i \<Longrightarrow> b_hi (mapped_blocks st ! k) \<le> uint a"
    "k < length (mapped_blocks st) \<Longrightarrow> i \<le> k \<Longrightarrow> uint a < b_hi (mapped_blocks st ! k)"
  using bsearch_loop_spec [where bs = "mapped_blocks st" and st = st and l = 0
      and r = "length (mapped_blocks st)" and a = a] inv
  by (auto simp: mem_inv_def i_def bsearch_mapped_blocks_def Let_def)

definition clash :: "mem_state \<Rightarrow> u64 \<Rightarrow> u64 \<Rightarrow> bool" where
  "clash st a sz \<longleftrightarrow> (\<exists>b\<in>set (mapped_blocks st). b_lo b < uint a + uint sz \<and> uint a < b_hi b)"

lemma end_word:
  fixes a sz :: u64
  assumes "sz \<noteq> 0"
  shows "a + sz - 1 < a \<longleftrightarrow> 2 ^ 64 < uint a + uint sz"
    "uint a + uint sz \<le> 2 ^ 64 \<Longrightarrow> uint (a + sz - 1) = uint a + uint sz - 1"
proof -
  have e: "a + sz - 1 = a + (sz - 1)" by simp
  have p: "0 < uint sz" using assms by (simp add: uint_pos)
  then have s: "uint (sz - 1) = uint sz - 1" by (simp add: uint_sub_plain)
  show "a + sz - 1 < a \<longleftrightarrow> 2 ^ 64 < uint a + uint sz"
    unfolding e word_less_def uint_plus_wrap s using u64_range [of sz] p by (auto split: if_splits)
  show "uint a + uint sz \<le> 2 ^ 64 \<Longrightarrow> uint (a + sz - 1) = uint a + uint sz - 1"
    unfolding e uint_plus_wrap s by simp
qed

lemma memory_overlap_clash:
  assumes inv: "mem_inv st" and sz: "sz \<noteq> 0" and top: "uint a + uint sz \<le> 2 ^ 64"
  shows "memory_overlap st a sz \<longleftrightarrow> clash st a sz"
proof -
  define i where "i = bsearch_mapped_blocks st a"
  note s = bsearch_spec [OF inv, where a = a, folded i_def]
  have ev: "memory_overlap st a sz \<longleftrightarrow> i < length (mapped_blocks st)
      \<and> b_lo (mapped_blocks st ! i) < uint a + uint sz"
    using end_word(2) [OF sz top] by (auto simp: memory_overlap_def i_def Let_def word_le_def b_lo_def)
  show ?thesis
  proof
    assume "memory_overlap st a sz"
    with ev s(3) [of i] show "clash st a sz" unfolding clash_def by (metis nth_mem order.refl)
  next
    assume "clash st a sz"
    then obtain k where k: "k < length (mapped_blocks st)" "b_lo (mapped_blocks st ! k) < uint a + uint sz"
      "uint a < b_hi (mapped_blocks st ! k)" unfolding clash_def by (metis in_set_conv_nth)
    then have ik: "i \<le> k" using s(2) [of k] by force
    have "b_lo (mapped_blocks st ! i) \<le> b_lo (mapped_blocks st ! k)"
    proof (cases "i = k")
      case False
      then have "before (mapped_blocks st ! i) (mapped_blocks st ! k)"
        using ik k(1) mem_invD(1) [OF inv] by (simp add: sorted_wrt_iff_nth_less)
      moreover have "block_ok st (mapped_blocks st ! i)" using mem_invD(2) [OF inv] ik k(1) by simp
      ultimately show ?thesis using block_range by (fastforce simp: before_def)
    qed simp
    then show "memory_overlap st a sz" using ev ik k by simp
  qed
qed

lemma clash_mapped:
  assumes inv: "mem_inv st" and sz: "sz \<noteq> 0" and top: "uint a + uint sz \<le> 2 ^ 64"
  shows "clash st a sz \<longleftrightarrow> (\<exists>x. x - a < sz \<and> mapped st x)"
proof
  assume "clash st a sz"
  then obtain b where b: "b \<in> set (mapped_blocks st)" "b_lo b < uint a + uint sz" "uint a < b_hi b"
    unfolding clash_def by blast
  define x where "x = (if uint a \<le> b_lo b then mb_addr b else a)"
  have "b_lo b \<le> uint x" "uint x < b_hi b" "uint a \<le> uint x" "uint x < uint a + uint sz"
    using b sz block_range [OF mem_invD(2) [OF inv b(1)]] by (auto simp: x_def b_lo_def uint_pos)
  then show "\<exists>x. x - a < sz \<and> mapped st x"
    using area_plain [OF top, of x] mapping_Some [OF inv, of x b] b(1) by (auto simp: mapped_def)
next
  assume "\<exists>x. x - a < sz \<and> mapped st x"
  then obtain x b where "uint a \<le> uint x" "uint x < uint a + uint sz" "memory_mapping st x = Some b"
    using area_plain [OF top] by (auto simp: mapped_def)
  then show "clash st a sz" using mapping_Some [OF inv] unfolding clash_def by force
qed

section \<open>Alignment\<close>

section \<open>Alignment\<close>

lemma aligned_uint:
  "page_align_ok st \<Longrightarrow> \<exists>k\<le>64. \<forall>x. aligned st x \<longleftrightarrow> take_bit k (uint x) = 0"
proof -
  assume "page_align_ok st"
  then obtain k where k: "k \<le> 64" "target_page_align st = mask k" by (auto simp: page_align_ok_def)
  have "aligned st x \<longleftrightarrow> take_bit k (uint x) = 0" for x
  proof -
    have "aligned st x \<longleftrightarrow> take_bit k x = 0" by (simp add: aligned_def k(2) take_bit_eq_mask)
    also have "\<dots> \<longleftrightarrow> uint (take_bit k x) = 0" by (simp only: uint_0_iff)
    finally show ?thesis by (simp add: unsigned_take_bit_eq)
  qed
  with k(1) show ?thesis by blast
qed

lemma aligned_add_diff:
  assumes "page_align_ok st" and "aligned st x" and "aligned st y"
  shows aligned_add: "aligned st (x + y)" and aligned_diff: "aligned st (x - y)"
proof -
  obtain k where k: "k \<le> 64" "\<And>x. aligned st x \<longleftrightarrow> take_bit k (uint x) = 0"
    using aligned_uint [OF assms(1)] by blast
  have "take_bit k (uint x + uint y) = take_bit k (take_bit k (uint x) + take_bit k (uint y))"
    by (simp only: take_bit_add)
  then show "aligned st (x + y)"
    using assms(2,3) k(1) by (simp add: k(2) uint_word_arith_bintrs min_absorb1)
  have "take_bit k (uint x - uint y) = take_bit k (take_bit k (uint x) - take_bit k (uint y))"
    by (simp only: take_bit_diff)
  then show "aligned st (x - y)"
    using assms(2,3) k(1) by (simp add: k(2) uint_word_arith_bintrs min_absorb1)
qed

section \<open>Adding a block\<close>

definition extents :: "mem_state \<Rightarrow> (u64 \<times> u64) set" where
  "extents st = (\<lambda>b. (mb_addr b, mb_size b)) ` set (mapped_blocks st)"

definition used :: "mem_state \<Rightarrow> (nat \<times> nat) set" where
  "used st = (\<Union>b\<in>set (mapped_blocks st). ram_area b)"

definition frame :: "mem_state \<Rightarrow> mem_state \<Rightarrow> bool" where
  "frame st st' \<longleftrightarrow> no_memory st' = no_memory st \<and> target_page_align st' = target_page_align st
     \<and> mmio_bytes st' = mmio_bytes st \<and> next_obj st \<le> next_obj st'
     \<and> quit_request st' = quit_request st \<and> stop_request st' = stop_request st"

lemma frame_refl [simp]: "frame st st"
  by (simp add: frame_def)

lemma frame_trans: "frame a b \<Longrightarrow> frame b c \<Longrightarrow> frame a c"
  by (simp add: frame_def)

lemma frame_aligned: "frame st st' \<Longrightarrow> aligned st' x = aligned st x"
  by (simp add: frame_def aligned_def)

lemma back_in_mono: "back_in n bk \<Longrightarrow> n \<le> m \<Longrightarrow> back_in m bk"
  by (induction n bk rule: back_in.induct) auto

lemma insert_sorted:
  assumes "sorted_wrt P xs" "i \<le> length xs" "\<And>k. k < i \<Longrightarrow> P (xs ! k) y" "\<And>k. i \<le> k \<Longrightarrow> k < length xs \<Longrightarrow> P y (xs ! k)"
  shows "sorted_wrt P (take i xs @ y # drop i xs)"
proof -
  have "P z y" if "z \<in> set (take i xs)" for z using that assms(2,3) by (auto simp: in_set_conv_nth)
  moreover have "P y z" if "z \<in> set (drop i xs)" for z using that assms(2,4) by (auto simp: in_set_conv_nth)
  moreover have "P z w" if "z \<in> set (take i xs)" "w \<in> set (drop i xs)" for z w
    using assms(1) that by (metis append_take_drop_id sorted_wrt_append)
  moreover have "sorted_wrt P (take i xs)" "sorted_wrt P (drop i xs)"
    using assms(1) by (metis append_take_drop_id sorted_wrt_append)+
  ultimately show ?thesis by (auto simp: sorted_wrt_append)
qed

lemma set_take_cons_drop: "set (take i xs @ y # drop i xs) = insert y (set xs)"
  by (metis append_take_drop_id list.simps(15) set_append Un_insert_right)

lemma distinct_take_cons_drop: "distinct xs \<Longrightarrow> y \<notin> set xs \<Longrightarrow> distinct (take i xs @ y # drop i xs)"
  by (metis append_take_drop_id distinct.simps(2) distinct_append disjoint_insert(1) list.simps(15) set_append Un_iff)

lemma add_block_inv:
  assumes inv: "mem_inv st" and st1: "mapped_blocks st1 = mapped_blocks st" "next_id st \<le> next_id st1" "frame st st1"
    and nb: "block_ok st1 nb" "next_id st \<le> mb_id nb" "ram_area nb \<inter> used st = {}"
    and free: "\<not> clash st (mb_addr nb) (mb_size nb)"
    and st': "mem_map st1 (Some nb) = (err, st')"
  shows "err = UC_ERR_OK" "mem_inv st'" "set (mapped_blocks st') = insert nb (set (mapped_blocks st))"
    "host_mem st' = host_mem st1" "frame st1 st'" "next_obj st' = next_obj st1" "next_id st' = next_id st1"
proof -
  let ?bs = "mapped_blocks st" and ?i = "bsearch_mapped_blocks st (mb_addr nb)"
  have i: "bsearch_mapped_blocks st1 (mb_addr nb) = ?i" by (simp add: bsearch_mapped_blocks_def st1)
  have e: "err = UC_ERR_OK" "st' = st1\<lparr>mapped_blocks := take ?i ?bs @ nb # drop ?i ?bs\<rparr>"
    using st' by (simp_all add: mem_map_def i st1 Let_def)
  show "err = UC_ERR_OK" by (rule e)
  show m: "set (mapped_blocks st') = insert nb (set ?bs)" unfolding e by (simp add: set_take_cons_drop del: set_append)
  note bi = bsearch_spec [OF inv, where a = "mb_addr nb"]
  have nc: "\<not> (b_lo b < b_hi nb \<and> b_lo nb < b_hi b)" if "b \<in> set ?bs" for b
    using free that by (auto simp: clash_def b_hi_def b_lo_def)
  have srt: "sorted_wrt before (take ?i ?bs @ nb # drop ?i ?bs)"
  proof (rule insert_sorted [OF mem_invD(1) [OF inv] bi(1)])
    show "before (?bs ! k) nb" if "k < ?i" for k using bi(2) [OF that] by (simp add: before_def b_lo_def)
    show "before nb (?bs ! k)" if k: "?i \<le> k" "k < length ?bs" for k
      using bi(3) [OF k(2,1)] nc [OF nth_mem [OF k(2)]] by (simp add: before_def b_lo_def)
  qed
  have old: "block_ok st1 b" if "b \<in> set ?bs" for b
    using mem_invD(2) [OF inv that] st1 back_in_mono unfolding block_ok_def frame_def aligned_def by auto
  have ids: "mb_id nb \<notin> mb_id ` set ?bs"
    using mem_invD(2) [OF inv] nb(2) by (auto simp: block_ok_def dest!: leD)
  have "distinct (map mb_id (take ?i ?bs @ nb # drop ?i ?bs))"
    using distinct_take_cons_drop [of "map mb_id ?bs" "mb_id nb" ?i] mem_invD(4) [OF inv] ids
    by (simp add: take_map drop_map)
  moreover have "ram_area b \<inter> ram_area c = {}" if "b \<in> insert nb (set ?bs)" "c \<in> insert nb (set ?bs)" "b \<noteq> c" for b c
  proof -
    have "ram_area nb \<inter> ram_area d = {}" if "d \<in> set ?bs" for d using nb(3) that by (auto simp: used_def)
    then show ?thesis using that mem_invD(3) [OF inv] by blast
  qed
  moreover have "page_align_ok st1" using mem_invD(5) [OF inv] st1 by (simp add: page_align_ok_def frame_def)
  moreover have "block_ok st' b = block_ok st1 b" for b by (simp add: e block_ok_def aligned_def)
  ultimately show "mem_inv st'"
    using srt m old nb(1) by (auto simp: mem_inv_def e page_align_ok_def)
  show "host_mem st' = host_mem st1" "frame st1 st'" "next_obj st' = next_obj st1" "next_id st' = next_id st1"
    by (simp_all add: e frame_def)
qed

lemma mapping_add:
  assumes inv: "mem_inv st" and inv': "mem_inv st'" and s: "set (mapped_blocks st') = insert nb (set (mapped_blocks st))"
  shows "memory_mapping st' x = (if x - mb_addr nb < mb_size nb then Some nb else memory_mapping st x)"
proof -
  have ok: "block_ok st' nb" using mem_invD(2) [OF inv'] s by simp
  then have "b_hi nb \<le> 2 ^ 64" by (simp add: block_ok_def)
  then have iff: "x - mb_addr nb < mb_size nb \<longleftrightarrow> b_lo nb \<le> uint x \<and> uint x < b_hi nb"
    by (simp add: area_plain b_hi_def b_lo_def)
  show ?thesis
  proof (cases "x - mb_addr nb < mb_size nb")
    case True
    then show ?thesis using iff s by (simp add: mapping_Some [OF inv'])
  next
    case False
    then have "memory_mapping st' x = Some b \<longleftrightarrow> memory_mapping st x = Some b" for b
      using iff s by (auto simp: mapping_Some [OF inv'] mapping_Some [OF inv])
    then show ?thesis using False by (metis not_None_eq)
  qed
qed

lemma cell_back_cong:
  "back_in n bk \<Longrightarrow> (\<And>obj. obj < n \<Longrightarrow> h' obj = h obj) \<Longrightarrow> cell_back h' bk p d = cell_back h bk p d"
  by (cases "(h, bk, p, d)" rule: cell_back.cases) auto

lemma add_block_cells:
  assumes inv: "mem_inv st" and inv': "mem_inv st'" and s: "set (mapped_blocks st') = insert nb (set (mapped_blocks st))"
    and h: "\<And>obj. obj < next_obj st \<Longrightarrow> host_mem st' obj = host_mem st obj"
  shows "cell_at st' x = (if x - mb_addr nb < mb_size nb then Some (cell_of st' nb x) else cell_at st x)"
proof -
  have "cell_of st' b x = cell_of st b x" if "memory_mapping st x = Some b" for b
  proof -
    have "back_in (next_obj st) (mb_back b)"
      using that mem_invD(2) [OF inv] by (auto simp: mapping_Some [OF inv] block_ok_def)
    then show ?thesis unfolding cell_of_def by (rule cell_back_cong) (rule h)
  qed
  then show ?thesis by (cases "memory_mapping st x") (simp_all add: cell_at_def mapping_add [OF inv inv' s])
qed

lemma mem_map_check_spec:
  assumes inv: "mem_inv st"
  shows "mem_map_check st a sz perms =
    (if sz = 0 \<or> 2 ^ 64 < uint a + uint sz \<or> \<not> aligned st a \<or> \<not> aligned st sz \<or> perms AND NOT UC_PROT_ALL \<noteq> 0
     then UC_ERR_ARG
     else if \<exists>x. x - a < sz \<and> mapped st x then UC_ERR_MAP else UC_ERR_OK)"
proof (cases "sz = 0 \<or> 2 ^ 64 < uint a + uint sz")
  case True
  then show ?thesis using end_word(1) [of sz a] by (auto simp: mem_map_check_def)
next
  case False
  then have sz: "sz \<noteq> 0" and top: "uint a + uint sz \<le> 2 ^ 64" by auto
  have "memory_overlap st a sz \<longleftrightarrow> (\<exists>x. x - a < sz \<and> mapped st x)"
    using memory_overlap_clash [OF inv sz top] clash_mapped [OF inv sz top] by simp
  then show ?thesis using False end_word(1) [OF sz, of a] by (auto simp: mem_map_check_def aligned_def)
qed

definition mappable :: "mem_state \<Rightarrow> u64 \<Rightarrow> u64 \<Rightarrow> u32 \<Rightarrow> bool" where
  "mappable st a sz perms \<longleftrightarrow> mem_map_check st a sz perms = UC_ERR_OK"

lemma mappableD:
  assumes "mem_inv st" "mappable st a sz perms"
  shows "sz \<noteq> 0" "uint a + uint sz \<le> 2 ^ 64" "aligned st a" "aligned st sz" "perms AND NOT UC_PROT_ALL = 0"
    "x - a < sz \<Longrightarrow> \<not> mapped st x" "\<not> clash st a sz"
proof -
  show a: "sz \<noteq> 0" "uint a + uint sz \<le> 2 ^ 64" "aligned st a" "aligned st sz" "perms AND NOT UC_PROT_ALL = 0"
    and m: "x - a < sz \<Longrightarrow> \<not> mapped st x" for x
    using assms by (auto simp: mappable_def mem_map_check_spec split: if_splits)
  show "\<not> clash st a sz" using clash_mapped [OF assms(1) a(1,2)] m by blast
qed

section \<open>The mapping functions\<close>

text \<open>
  \<open>maps_cells st st' a sz f\<close>: \<open>st'\<close> is \<open>st\<close> with one more block, at \<open>a\<close> and of size \<open>sz\<close>,
  whose cells are given by \<open>f\<close>.
\<close>

definition maps_cells :: "mem_state \<Rightarrow> mem_state \<Rightarrow> u64 \<Rightarrow> u64 \<Rightarrow> (u64 \<Rightarrow> cell) \<Rightarrow> bool" where
  "maps_cells st st' a sz f \<longleftrightarrow> mem_inv st' \<and> frame st st' \<and> extents st' = insert (a, sz) (extents st)
     \<and> (\<forall>x. cell_at st' x = (if x - a < sz then Some (f x) else cell_at st x))"

lemma mapped_block_cells:
  assumes inv: "mem_inv st" and st1: "mapped_blocks st1 = mapped_blocks st" "next_id st \<le> next_id st1" "frame st st1"
    "\<And>obj. obj < next_obj st \<Longrightarrow> host_mem st1 obj = host_mem st obj"
    and nb: "block_ok st1 nb" "next_id st \<le> mb_id nb" "ram_area nb \<inter> used st = {}"
    and m: "mappable st (mb_addr nb) (mb_size nb) perms"
    and st': "mem_map st1 (Some nb) = (err, st')"
  shows "err = UC_ERR_OK" "maps_cells st st' (mb_addr nb) (mb_size nb)
      (\<lambda>x. cell_back (host_mem st1) (mb_back nb) (mb_perms nb) (x - mb_addr nb))"
    "used st' = used st \<union> ram_area nb" "host_mem st' = host_mem st1" "next_obj st' = next_obj st1"
proof -
  note a = add_block_inv [OF inv st1(1-3) nb mappableD(7) [OF inv m] st']
  show "err = UC_ERR_OK" "host_mem st' = host_mem st1" "next_obj st' = next_obj st1"
    "used st' = used st \<union> ram_area nb" using a by (auto simp: used_def)
  have "\<And>obj. obj < next_obj st \<Longrightarrow> host_mem st' obj = host_mem st obj" using st1(4) a(4) by simp
  then show "maps_cells st st' (mb_addr nb) (mb_size nb)
      (\<lambda>x. cell_back (host_mem st1) (mb_back nb) (mb_perms nb) (x - mb_addr nb))"
    using a add_block_cells [OF inv a(2,3)] frame_trans [OF st1(3) a(5)]
    by (simp add: maps_cells_def extents_def cell_of_def)
qed

lemma used_below: "mem_inv st \<Longrightarrow> (obj, j) \<in> used st \<Longrightarrow> obj < next_obj st"
proof -
  assume inv: "mem_inv st" and "(obj, j) \<in> used st"
  then obtain b where b: "b \<in> set (mapped_blocks st)" "(obj, j) \<in> ram_area b" by (auto simp: used_def)
  have "back_in (next_obj st) (mb_back b)" using mem_invD(2) [OF inv b(1)] by (simp add: block_ok_def)
  then show "obj < next_obj st" using b(2)
    by (cases "(mb_back b, mb_size b)" rule: area_of.cases) (auto simp: ram_area_def)
qed

lemma uc_mem_map_spec:
  assumes inv: "mem_inv st" and m: "mappable st a sz perms" and mem: "\<not> no_memory st (next_obj st)"
  shows "\<exists>st'. uc_mem_map st a sz perms = (UC_ERR_OK, st') \<and> maps_cells st st' a sz (\<lambda>x. Ram_Cell 0 perms)"
proof -
  note d = mappableD [OF inv m]
  let ?nb = "\<lparr>mb_id = next_id st, mb_addr = a, mb_end = a + sz, mb_size = sz, mb_perms = perms,
                  mb_readonly = (perms AND UC_PROT_WRITE = 0), mb_back = Ram_Block (next_obj st, 0) False\<rparr>"
  let ?st1 = "st\<lparr>next_obj := Suc (next_obj st), next_id := Suc (next_id st),
               host_mem := (host_mem st)(next_obj st := (\<lambda>_. 0))\<rparr>"
  obtain err st' where st': "mem_map ?st1 (Some ?nb) = (err, st')" by fastforce
  have "block_ok ?st1 ?nb" using d by (simp add: block_ok_def b_hi_def aligned_def)
  moreover have "ram_area ?nb \<inter> used st = {}" using used_below [OF inv] by (auto simp: ram_area_def)
  ultimately have "err = UC_ERR_OK" "maps_cells st st' a sz (\<lambda>x. Ram_Cell 0 perms)"
    using mapped_block_cells [OF inv, of ?st1 ?nb perms err st'] m st' by (simp_all add: frame_def)
  then show ?thesis using m mem st' by (simp add: uc_mem_map_def memory_map_def mappable_def)
qed

lemma uc_mem_map_ptr_spec:
  assumes inv: "mem_inv st" and m: "mappable st a sz perms"
    and p: "obj < next_obj st" "({obj} \<times> {off ..< off + unat sz}) \<inter> used st = {}"
  shows "\<exists>st'. uc_mem_map_ptr st a sz perms (Some (obj, off)) = (UC_ERR_OK, st')
     \<and> maps_cells st st' a sz (\<lambda>x. Ram_Cell (host_mem st obj (off + unat (x - a))) perms)
     \<and> used st' = used st \<union> {obj} \<times> {off ..< off + unat sz} \<and> host_mem st' = host_mem st \<and> next_obj st' = next_obj st"
proof -
  note d = mappableD [OF inv m]
  let ?nb = "\<lparr>mb_id = next_id st, mb_addr = a, mb_end = a + sz, mb_size = sz, mb_perms = perms,
                  mb_readonly = False, mb_back = Ram_Block (obj, off) True\<rparr>"
  let ?st1 = "st\<lparr>next_id := Suc (next_id st)\<rparr>"
  obtain err st' where st': "mem_map ?st1 (Some ?nb) = (err, st')" by fastforce
  have "block_ok ?st1 ?nb" using d p by (simp add: block_ok_def b_hi_def aligned_def)
  moreover have ar: "ram_area ?nb = {obj} \<times> {off ..< off + unat sz}" by (simp add: ram_area_def)
  ultimately have "err = UC_ERR_OK" "maps_cells st st' a sz (\<lambda>x. Ram_Cell (host_mem st obj (off + unat (x - a))) perms)"
    "used st' = used st \<union> {obj} \<times> {off ..< off + unat sz}" "host_mem st' = host_mem st" "next_obj st' = next_obj st"
    using mapped_block_cells [OF inv, of ?st1 ?nb perms err st'] m st' p(2) by (simp_all add: frame_def)
  then show ?thesis using m st' by (simp add: uc_mem_map_ptr_def memory_map_ptr_def mappable_def)
qed

lemma mmio_perms_ok: "mmio_perms c AND NOT UC_PROT_ALL = 0"
  by (simp add: mmio_perms_def prot_defs)

lemma uc_mmio_map_spec:
  assumes inv: "mem_inv st" and m: "mappable st a sz UC_PROT_ALL"
  shows "\<exists>st'. uc_mmio_map st a sz c = (UC_ERR_OK, st') \<and> maps_cells st st' a sz (\<lambda>x. Mmio_Cell c)"
proof -
  note d = mappableD [OF inv m]
  let ?nb = "\<lparr>mb_id = next_id st, mb_addr = a, mb_end = a + sz, mb_size = sz, mb_perms = mmio_perms c,
                  mb_readonly = False, mb_back = Mmio c\<rparr>"
  let ?st1 = "st\<lparr>next_id := Suc (next_id st)\<rparr>"
  obtain err st' where st': "mem_map ?st1 (Some ?nb) = (err, st')" by fastforce
  have "block_ok ?st1 ?nb" using d mmio_perms_ok by (simp add: block_ok_def b_hi_def aligned_def)
  then have "err = UC_ERR_OK" "maps_cells st st' a sz (\<lambda>x. Mmio_Cell c)"
    using mapped_block_cells [OF inv, of ?st1 ?nb UC_PROT_ALL err st'] m st' by (simp_all add: frame_def ram_area_def)
  then show ?thesis using m st' by (simp add: uc_mmio_map_def memory_map_io_def mappable_def)
qed

end
