(* ===== verification/Mem_Split.thy ===== *)
theory Mem_Split
  imports Mem_Layout
begin

text \<open>
  Splitting a region: the region is unmapped and the pieces that stay are mapped again.
  The functions rely on the unmapping of one whole region, the law of the locale
  \<open>whole_unmap\<close>, and are shown to keep every cell outside the deleted part.
\<close>

section \<open>Unmapping one block\<close>

definition in_blk :: "mem_block \<Rightarrow> u64 \<Rightarrow> bool" where
  "in_blk b x \<longleftrightarrow> b_lo b \<le> uint x \<and> uint x < b_hi b"

lemma in_blk_area: "block_ok st b \<Longrightarrow> in_blk b x \<longleftrightarrow> x - mb_addr b < mb_size b"
  by (simp add: in_blk_def block_ok_def area_plain b_hi_def b_lo_def)

lemma cell_at_block:
  "mem_inv st \<Longrightarrow> b \<in> set (mapped_blocks st) \<Longrightarrow> in_blk b x \<Longrightarrow> cell_at st x = Some (cell_of st b x)"
  using mapping_Some [of st x b] by (simp add: cell_at_def in_blk_def)

lemma memory_unmap_spec:
  assumes inv: "mem_inv st" and b: "b \<in> set (mapped_blocks st)"
  defines "st' \<equiv> memory_unmap st b"
  shows "mem_inv st'" "frame st st'" "set (mapped_blocks st') = set (mapped_blocks st) - {b}"
    "host_mem st' = host_mem st" "next_obj st' = next_obj st"
    "cell_at st' x = (if in_blk b x then None else cell_at st x)"
    "used st' \<inter> ram_area b = {}" "extents st' = extents st - {(mb_addr b, mb_size b)}"
proof -
  have m: "mapped_blocks st' = filter (\<lambda>c. mb_id c \<noteq> mb_id b) (mapped_blocks st)"
    by (simp add: st'_def memory_unmap_def)
  show s: "set (mapped_blocks st') = set (mapped_blocks st) - {b}"
    using id_unique [OF inv _ b] b by (auto simp: m)
  have "block_ok st' c = block_ok st c" for c by (simp add: block_ok_def aligned_def st'_def memory_unmap_def)
  then show inv': "mem_inv st'"
    using inv s by (auto simp: mem_inv_def m sorted_wrt_filter distinct_map_filter page_align_ok_def st'_def memory_unmap_def)
  show "frame st st'" "host_mem st' = host_mem st" "next_obj st' = next_obj st"
    by (simp_all add: st'_def memory_unmap_def frame_def)
  have "memory_mapping st' x = (if in_blk b x then None else memory_mapping st x)"
  proof (cases "in_blk b x")
    case True
    then show ?thesis using block_unique [OF inv b, of _ "uint x"] by (auto simp: mapping_None [OF inv'] s in_blk_def)
  next
    case False
    then have "memory_mapping st' x = Some c \<longleftrightarrow> memory_mapping st x = Some c" for c
      using s by (auto simp: mapping_Some [OF inv'] mapping_Some [OF inv] in_blk_def)
    then show ?thesis using False by (metis not_None_eq)
  qed
  then show "cell_at st' x = (if in_blk b x then None else cell_at st x)"
    by (simp add: cell_at_def cell_of_def [abs_def] st'_def memory_unmap_def)
  show "used st' \<inter> ram_area b = {}" using mem_invD(3) [OF inv _ b] by (auto simp: used_def s)
  have "(mb_addr c, mb_size c) \<noteq> (mb_addr b, mb_size b)" if "c \<in> set (mapped_blocks st)" "c \<noteq> b" for c
    using block_unique [OF inv that(1) b, of "b_lo b"] that block_range [OF mem_invD(2) [OF inv b]]
    by (auto simp: b_lo_def b_hi_def)
  then show "extents st' = extents st - {(mb_addr b, mb_size b)}" by (auto simp: extents_def s)
qed

section \<open>Mapping the pieces again\<close>

text \<open>
  \<open>restored st b S E st1\<close>: \<open>st1\<close> is \<open>st\<close> after block \<open>b\<close> was unmapped and the addresses in \<open>S\<close>
  were mapped again as before, by the blocks with extents \<open>E\<close>. For a block in memory of the
  caller the host memory is untouched and only the bytes of \<open>S\<close> are in use again.
\<close>

definition restored :: "mem_state \<Rightarrow> mem_block \<Rightarrow> int set \<Rightarrow> (u64 \<times> u64) set \<Rightarrow> mem_state \<Rightarrow> bool" where
  "restored st b S E st1 \<longleftrightarrow> mem_inv st1 \<and> frame st st1 \<and> S \<subseteq> {b_lo b ..< b_hi b}
     \<and> extents st1 = (extents st - {(mb_addr b, mb_size b)}) \<union> E
     \<and> (\<forall>x. cell_at st1 x = (if in_blk b x \<and> uint x \<notin> S then None else cell_at st x))
     \<and> (\<forall>obj off. mb_back b = Ram_Block (obj, off) True \<longrightarrow> host_mem st1 = host_mem st \<and> next_obj st1 = next_obj st
          \<and> used st1 \<inter> ram_area b \<subseteq> (\<lambda>i. (obj, off + nat (i - b_lo b))) ` S)"

lemma restored_start:
  "mem_inv st \<Longrightarrow> b \<in> set (mapped_blocks st) \<Longrightarrow> restored st b {} {} (memory_unmap st b)"
  using memory_unmap_spec [of st b] by (simp add: restored_def)

definition piece :: "mem_state \<Rightarrow> mem_block \<Rightarrow> int set \<Rightarrow> u64 \<Rightarrow> u64 \<Rightarrow> bool" where
  "piece st b S p n \<longleftrightarrow> b \<in> set (mapped_blocks st) \<and> b_lo b \<le> uint p \<and> uint p + uint n \<le> b_hi b
     \<and> aligned st p \<and> aligned st n \<and> {uint p ..< uint p + uint n} \<inter> S = {}"

lemma piece_area:
  assumes inv: "mem_inv st" and p: "piece st b S p n"
  shows "x - p < n \<longleftrightarrow> uint p \<le> uint x \<and> uint x < uint p + uint n" "x - p < n \<Longrightarrow> in_blk b x"
proof -
  have "b_hi b \<le> 2 ^ 64" using p mem_invD(2) [OF inv] by (auto simp: piece_def block_ok_def)
  then show iff: "x - p < n \<longleftrightarrow> uint p \<le> uint x \<and> uint x < uint p + uint n"
    using p by (intro area_plain) (auto simp: piece_def)
  show "x - p < n \<Longrightarrow> in_blk b x" using p iff by (auto simp: piece_def in_blk_def)
qed

lemma piece_mappable:
  assumes inv: "mem_inv st" and r: "restored st b S E st1" and p: "piece st b S p n" and n: "n \<noteq> 0"
    and perms: "perms AND NOT UC_PROT_ALL = 0"
  shows "mappable st1 p n perms"
proof -
  have inv1: "mem_inv st1" and fr: "frame st st1" using r by (simp_all add: restored_def)
  have "b_hi b \<le> 2 ^ 64" using p mem_invD(2) [OF inv] by (auto simp: piece_def block_ok_def)
  then have top: "uint p + uint n \<le> 2 ^ 64" using p by (simp add: piece_def)
  have "\<not> mapped st1 x" if "x - p < n" for x
    using that piece_area [OF inv p, of x] p r by (auto simp: mapped_cell restored_def piece_def)
  then show ?thesis using n top p perms frame_aligned [OF fr]
    by (auto simp: mappable_def mem_map_check_spec [OF inv1] piece_def)
qed

lemma restored_piece:
  assumes inv: "mem_inv st" and r: "restored st b S E st1" and p: "piece st b S p n"
    and m: "maps_cells st1 st2 p n f" and f: "\<And>x. x - p < n \<Longrightarrow> cell_at st x = Some (f x)"
    and pre: "\<And>obj off. mb_back b = Ram_Block (obj, off) True \<Longrightarrow> host_mem st2 = host_mem st1 \<and> next_obj st2 = next_obj st1
      \<and> used st2 = used st1 \<union> {obj} \<times> {off + nat (uint p - b_lo b) ..< off + nat (uint p - b_lo b) + unat n}"
  shows "restored st b (S \<union> {uint p ..< uint p + uint n}) (insert (p, n) E) st2"
proof -
  have c: "cell_at st2 x = (if in_blk b x \<and> uint x \<notin> S \<union> {uint p ..< uint p + uint n} then None else cell_at st x)" for x
    using m r f piece_area [OF inv p, of x] by (auto simp: maps_cells_def restored_def)
  have u: "used st2 \<inter> ram_area b \<subseteq> (\<lambda>i. (obj, off + nat (i - b_lo b))) ` (S \<union> {uint p ..< uint p + uint n})"
    if bk: "mb_back b = Ram_Block (obj, off) True" for obj off
  proof -
    have new: "(obj, j) \<in> (\<lambda>i. (obj, off + nat (i - b_lo b))) ` {uint p ..< uint p + uint n}"
      if j: "off + nat (uint p - b_lo b) \<le> j" "j < off + nat (uint p - b_lo b) + unat n" for j
    proof (rule image_eqI)
      have lo: "b_lo b \<le> uint p" using p by (simp add: piece_def)
      show "(obj, j) = (obj, off + nat ((b_lo b + int (j - off)) - b_lo b))" using j by simp
      show "b_lo b + int (j - off) \<in> {uint p ..< uint p + uint n}"
      proof -
        have "int (nat (uint p - b_lo b)) = uint p - b_lo b" "int (j - off) = int j - int off" using j lo by simp_all
        then show ?thesis unfolding atLeastLessThan_iff using j unat_uint_eq [of n] by linarith
      qed
    qed
    have "used st1 \<inter> ram_area b \<subseteq> (\<lambda>i. (obj, off + nat (i - b_lo b))) ` S" using r bk by (simp add: restored_def)
    moreover have "{obj} \<times> {off + nat (uint p - b_lo b) ..< off + nat (uint p - b_lo b) + unat n}
        \<subseteq> (\<lambda>i. (obj, off + nat (i - b_lo b))) ` {uint p ..< uint p + uint n}" using new by auto
    ultimately show ?thesis using pre [OF bk] unfolding image_Un by blast
  qed
  have "{uint p ..< uint p + uint n} \<subseteq> {b_lo b ..< b_hi b}" using p by (auto simp: piece_def)
  then show ?thesis using m r c u pre frame_trans [of st st1 st2] unfolding restored_def maps_cells_def
    by (simp add: Un_subset_iff)
qed

lemma same_layout_extents:
  assumes "same_layout st st'"
  shows "extents st' = extents st" "frame st st'"
proof -
  have e: "extents st = (\<lambda>b. (mb_addr b, mb_size b)) ` set (map strip (mapped_blocks st))" for st
    by (simp add: extents_def image_image)
  have m: "map strip (mapped_blocks st') = map strip (mapped_blocks st)" using assms by (simp add: same_layout_def)
  show "extents st' = extents st" unfolding e m ..
  show "frame st st'" using assms by (simp add: same_layout_def frame_def)
qed

lemma bytes_at_nth:
  "i < unat n \<Longrightarrow> bytes_at st a n ! i = byte_at st (a + of_nat i)"
  by (simp add: bytes_at_def)

definition can_alloc :: "mem_state \<Rightarrow> bool" where
  "can_alloc st \<longleftrightarrow> (\<forall>k. \<not> no_memory st k)"

text \<open>The backup from which the pieces of a RAM region are mapped again.\<close>

definition backup_of :: "mem_state \<Rightarrow> mem_block \<Rightarrow> backup" where
  "backup_of st b = (case mb_back b of
      Ram_Block p True \<Rightarrow> Backup_Ptr p
    | _ \<Rightarrow> Backup_Bytes (bytes_at st (mb_addr b) (mb_size b)))"

lemma piece_offset:
  assumes "b_lo b \<le> uint p"
  shows "unat (p - mb_addr b) = nat (uint p - b_lo b)"
proof -
  have "int (unat (p - mb_addr b)) = uint p - b_lo b" using assms by (simp add: uint_sub_plain b_lo_def)
  then show ?thesis by linarith
qed

lemma backup_byte:
  assumes inv: "mem_inv st" and p: "piece st b S p n" and x: "x - p < n"
  shows "drop (unat (p - mb_addr b)) (bytes_at st (mb_addr b) (mb_size b)) ! unat (x - p) = byte_at st x"
    "unat n \<le> length (drop (unat (p - mb_addr b)) (bytes_at st (mb_addr b) (mb_size b)))"
proof -
  have lo: "b_lo b \<le> uint p" and hi: "uint p + uint n \<le> b_hi b" using p by (simp_all add: piece_def)
  have o: "int (unat (p - mb_addr b)) = uint p - b_lo b" using lo by (simp add: piece_offset)
  have xn: "unat (x - p) < unat n" using x by (simp add: word_less_nat_alt)
  have le: "unat (p - mb_addr b) + unat n \<le> unat (mb_size b)"
    using o hi unat_uint_eq [of n] unat_uint_eq [of "mb_size b"] unfolding b_hi_def b_lo_def by linarith
  have "mb_addr b + of_nat (unat (p - mb_addr b) + unat (x - p)) = x" by simp
  then show "drop (unat (p - mb_addr b)) (bytes_at st (mb_addr b) (mb_size b)) ! unat (x - p) = byte_at st x"
    using le xn by (simp add: nth_drop bytes_at_nth)
  show "unat n \<le> length (drop (unat (p - mb_addr b)) (bytes_at st (mb_addr b) (mb_size b)))"
    using le by simp
qed

lemma ram_cell_block:
  assumes inv: "mem_inv st" and b: "b \<in> set (mapped_blocks st)" "mb_ram b" and x: "in_blk b x"
  shows "cell_at st x = Some (Ram_Cell (byte_at st x) (mb_perms b))"
proof -
  obtain obj off pre where "mb_back b = Ram_Block (obj, off) pre"
    using b(2) by (cases "mb_back b") (auto simp: mb_ram_def)
  then show ?thesis using cell_at_block [OF inv b(1) x] by (simp add: byte_at_def cell_of_def)
qed

lemma ram_piece_bytes:
  assumes inv: "mem_inv st" and r: "restored st b S E st1" and p: "piece st b S p n" and n: "n \<noteq> 0"
    and ca: "can_alloc st" and ram: "mb_ram b" and np: "\<And>q. mb_back b \<noteq> Ram_Block q True"
  shows "\<exists>st2. ram_piece (backup_at (backup_of st b) (p - mb_addr b)) (mb_perms b) p n (True, st1) = Some (True, st2)
    \<and> restored st b (S \<union> {uint p ..< uint p + uint n}) (insert (p, n) E) st2"
proof -
  have b: "b \<in> set (mapped_blocks st)" using p by (simp add: piece_def)
  have inv1: "mem_inv st1" and fr: "frame st st1" using r by (simp_all add: restored_def)
  let ?bs = "drop (unat (p - mb_addr b)) (bytes_at st (mb_addr b) (mb_size b))"
  have bk: "backup_at (backup_of st b) (p - mb_addr b) = Backup_Bytes ?bs"
    using np ram by (auto simp: backup_of_def mb_ram_def split: backing.splits bool.splits)
  have "mb_perms b AND NOT UC_PROT_ALL = 0" using mem_invD(2) [OF inv b] by (simp add: block_ok_def)
  then obtain st2 where st2: "uc_mem_map st1 p n (mb_perms b) = (UC_ERR_OK, st2)"
    "maps_cells st1 st2 p n (\<lambda>x. Ram_Cell 0 (mb_perms b))"
    using uc_mem_map_spec [OF inv1 piece_mappable [OF inv r p n]] ca fr by (auto simp: can_alloc_def frame_def)
  have inv2: "mem_inv st2" and map2: "\<forall>x. x - p < n \<longrightarrow> mapped st2 x"
    using st2(2) by (simp_all add: maps_cells_def mapped_cell)
  have lb: "unat n \<le> length ?bs" using backup_byte(2) [OF inv p, of p] n by (simp add: word_pos)
  obtain st3 where st3: "uc_mem_write st2 p ?bs n = Some (UC_ERR_OK, st3)" "written st2 st3 p n ?bs"
    using uc_mem_write_spec(1) [OF inv2 map2 lb] by blast
  have m: "maps_cells st1 st3 p n (\<lambda>x. Ram_Cell (byte_at st x) (mb_perms b))"
    using st2(2) st3(2) same_layout_extents [of st2 st3] frame_trans [of st1 st2 st3] backup_byte(1) [OF inv p]
    by (auto simp: maps_cells_def written_def)
  have "restored st b (S \<union> {uint p ..< uint p + uint n}) (insert (p, n) E) st3"
    by (rule restored_piece [OF inv r p m]) (use ram_cell_block [OF inv b ram] piece_area(2) [OF inv p] np in auto)
  then show ?thesis using n st2(1) st3(1) by (simp add: bk word_pos)
qed

lemma ram_piece_ptr:
  assumes inv: "mem_inv st" and r: "restored st b S E st1" and p: "piece st b S p n" and n: "n \<noteq> 0"
    and pre: "mb_back b = Ram_Block (obj, off) True"
  shows "\<exists>st2. ram_piece (backup_at (backup_of st b) (p - mb_addr b)) (mb_perms b) p n (True, st1) = Some (True, st2)
    \<and> restored st b (S \<union> {uint p ..< uint p + uint n}) (insert (p, n) E) st2"
proof -
  have b: "b \<in> set (mapped_blocks st)" and lo: "b_lo b \<le> uint p" and hi: "uint p + uint n \<le> b_hi b"
    and dis: "{uint p ..< uint p + uint n} \<inter> S = {}" using p by (simp_all add: piece_def)
  have inv1: "mem_inv st1" and h: "host_mem st1 = host_mem st" "next_obj st1 = next_obj st"
    and u: "used st1 \<inter> ram_area b \<subseteq> (\<lambda>i. (obj, off + nat (i - b_lo b))) ` S"
    using r pre by (simp_all add: restored_def)
  define d where "d = nat (uint p - b_lo b)"
  have d: "unat (p - mb_addr b) = d" using piece_offset [OF lo] by (simp add: d_def)
  have ok: "block_ok st b" by (rule mem_invD(2) [OF inv b])
  then have perms: "mb_perms b AND NOT UC_PROT_ALL = 0" and obj: "obj < next_obj st1"
    using h pre by (simp_all add: block_ok_def)
  have S: "S \<subseteq> {b_lo b ..< b_hi b}" using r by (simp add: restored_def)
  have di: "int d = uint p - b_lo b" using lo by (simp add: d_def)
  have "({obj} \<times> {off + d ..< off + d + unat n}) \<inter> used st1 = {}"
  proof -
    have False if j: "off + d \<le> j" "j < off + d + unat n" "(obj, j) \<in> used st1" for j
    proof -
      have "d + unat n \<le> unat (mb_size b)"
        using di hi unat_uint_eq [of n] unat_uint_eq [of "mb_size b"] unfolding b_hi_def b_lo_def by linarith
      then have "(obj, j) \<in> ram_area b" using j by (simp add: ram_area_def pre)
      then obtain i where i: "i \<in> S" "j = off + nat (i - b_lo b)" using u j(3) by blast
      then have "int j = int off + (i - b_lo b)" using S by auto
      then have "i \<in> {uint p ..< uint p + uint n}" unfolding atLeastLessThan_iff
        using j di unat_uint_eq [of n] by linarith
      then show False using dis i by blast
    qed
    then show ?thesis by auto
  qed
  then obtain st2 where st2: "uc_mem_map_ptr st1 p n (mb_perms b) (Some (obj, off + d)) = (UC_ERR_OK, st2)"
    "maps_cells st1 st2 p n (\<lambda>x. Ram_Cell (host_mem st1 obj (off + d + unat (x - p))) (mb_perms b))"
    "used st2 = used st1 \<union> {obj} \<times> {off + d ..< off + d + unat n}" "host_mem st2 = host_mem st1" "next_obj st2 = next_obj st1"
    using uc_mem_map_ptr_spec [OF inv1 piece_mappable [OF inv r p n perms] obj] by blast
  have c: "cell_at st x = Some (Ram_Cell (host_mem st1 obj (off + d + unat (x - p))) (mb_perms b))" if x: "x - p < n" for x
  proof -
    have "unat (x - mb_addr b) = d + unat (x - p)"
    proof -
      have "uint p \<le> uint x" "b_lo b \<le> uint x" using piece_area [OF inv p, of x] x by (simp_all add: in_blk_def)
      then have "int (unat (x - p)) = uint x - uint p" "int (unat (x - mb_addr b)) = uint x - b_lo b"
        by (simp_all add: uint_sub_plain b_lo_def)
      then show ?thesis using di by linarith
    qed
    then show ?thesis using cell_at_block [OF inv b piece_area(2) [OF inv p x]]
      by (simp add: cell_of_def pre h ac_simps)
  qed
  have "restored st b (S \<union> {uint p ..< uint p + uint n}) (insert (p, n) E) st2"
    by (rule restored_piece [OF inv r p st2(2) c]) (use st2 pre d_def in auto)
  moreover have "backup_at (backup_of st b) (p - mb_addr b) = Backup_Ptr (obj, off + d)"
    by (simp add: backup_of_def pre d)
  ultimately show ?thesis using n st2(1) by (simp add: word_pos)
qed

lemma ram_piece_step:
  assumes inv: "mem_inv st" and r: "restored st b S E st1" and p: "piece st b S p n"
    and ca: "can_alloc st" and ram: "mb_ram b"
  shows "\<exists>st2. ram_piece (backup_at (backup_of st b) (p - mb_addr b)) (mb_perms b) p n (True, st1) = Some (True, st2)
    \<and> restored st b (S \<union> {uint p ..< uint p + uint n}) (E \<union> (if n = 0 then {} else {(p, n)})) st2"
proof (cases "n = 0")
  case True
  then show ?thesis using r by simp
next
  case False
  obtain obj off pre where bk: "mb_back b = Ram_Block (obj, off) pre"
    using ram by (cases "mb_back b") (auto simp: mb_ram_def)
  show ?thesis
  proof (cases pre)
    case True
    with bk ram_piece_ptr [OF inv r p False] False show ?thesis by simp
  next
    case np: False
    with bk ram_piece_bytes [OF inv r p False ca ram] False show ?thesis by simp
  qed
qed

lemma mmio_piece_step:
  assumes inv: "mem_inv st" and r: "restored st b S E st1" and p: "piece st b S p n" and c: "mb_back b = Mmio c"
  shows "\<exists>st2. mmio_piece c p n (True, st1) = (True, st2)
    \<and> restored st b (S \<union> {uint p ..< uint p + uint n}) (E \<union> (if n = 0 then {} else {(p, n)})) st2"
proof (cases "n = 0")
  case True
  then show ?thesis using r by (simp add: mmio_piece_def)
next
  case False
  have b: "b \<in> set (mapped_blocks st)" using p by (simp add: piece_def)
  have inv1: "mem_inv st1" using r by (simp add: restored_def)
  obtain st2 where st2: "uc_mmio_map st1 p n c = (UC_ERR_OK, st2)" "maps_cells st1 st2 p n (\<lambda>x. Mmio_Cell c)"
    using uc_mmio_map_spec [OF inv1 piece_mappable [OF inv r p False]] by (auto simp: UC_PROT_ALL_def)
  have "cell_at st x = Some (Mmio_Cell c)" if "x - p < n" for x
    using cell_at_block [OF inv b piece_area(2) [OF inv p that]] by (simp add: cell_of_def c)
  then have "restored st b (S \<union> {uint p ..< uint p + uint n}) (insert (p, n) E) st2"
    by (rule restored_piece [OF inv r p st2(2)]) (use c in auto)
  then show ?thesis using st2(1) False by (simp add: mmio_piece_def word_pos)
qed

section \<open>Splitting\<close>

text \<open>
  A part of a block that does not reach the top of the address space, as the callers of the
  split functions pass it.
\<close>

definition part :: "mem_state \<Rightarrow> mem_block \<Rightarrow> u64 \<Rightarrow> u64 \<Rightarrow> bool" where
  "part st b a len \<longleftrightarrow> b \<in> set (mapped_blocks st) \<and> b_lo b \<le> uint a \<and> uint a + uint len \<le> b_hi b
     \<and> b_hi b < 2 ^ 64 \<and> len \<noteq> 0 \<and> aligned st a \<and> aligned st len"

lemma partD:
  assumes inv: "mem_inv st" and p: "part st b a len"
  shows "uint (mb_end b) = b_hi b" "uint (a + len) = uint a + uint len" "mb_addr b \<le> a" "a + len \<le> mb_end b"
    "\<not> mb_end b \<le> a" "\<not> a + len \<le> mb_addr b"
    "uint (a - mb_addr b) = uint a - b_lo b" "uint (mb_end b - (a + len)) = b_hi b - (uint a + uint len)"
    "aligned st (a - mb_addr b)" "aligned st (a + len)" "aligned st (mb_end b - (a + len))"
    "a \<le> mb_addr b \<and> mb_end b \<le> a + len \<longleftrightarrow> a = mb_addr b \<and> len = mb_size b" "uint a < b_hi b"
    "b_lo b < uint a + uint len"
proof -
  have b: "b \<in> set (mapped_blocks st)" and rg: "b_lo b \<le> uint a" "uint a + uint len \<le> b_hi b" "b_hi b < 2 ^ 64"
    and len: "0 < uint len" and al: "aligned st a" "aligned st len"
    using p by (simp_all add: part_def uint_pos)
  have ok: "block_ok st b" by (rule mem_invD(2) [OF inv b])
  then have e: "mb_end b = mb_addr b + mb_size b" and alb: "aligned st (mb_addr b)" "aligned st (mb_size b)"
    by (simp_all add: block_ok_def)
  show ue: "uint (mb_end b) = b_hi b" unfolding e b_hi_def using rg(3) by (simp add: uint_plus_plain b_hi_def)
  show ua: "uint (a + len) = uint a + uint len" using rg by (simp add: uint_plus_plain)
  show "mb_addr b \<le> a" "a + len \<le> mb_end b" "\<not> mb_end b \<le> a" "\<not> a + len \<le> mb_addr b"
    unfolding word_le_def ue ua using rg len by (simp_all add: b_lo_def)
  show "uint (a - mb_addr b) = uint a - b_lo b" using rg by (simp add: uint_sub_plain b_lo_def)
  show "uint (mb_end b - (a + len)) = b_hi b - (uint a + uint len)"
    by (subst uint_sub_plain) (use rg ue ua in simp_all)
  have pg: "page_align_ok st" by (rule mem_invD(5) [OF inv])
  show "aligned st (a - mb_addr b)" "aligned st (a + len)" "aligned st (mb_end b - (a + len))"
    unfolding e using aligned_add [OF pg] aligned_diff [OF pg] al alb by simp_all
  show "a \<le> mb_addr b \<and> mb_end b \<le> a + len \<longleftrightarrow> a = mb_addr b \<and> len = mb_size b"
    unfolding word_le_def ue ua word_uint_eq_iff using rg by (auto simp: b_lo_def b_hi_def)
  show "uint a < b_hi b" "b_lo b < uint a + uint len" using rg len by linarith+
qed

locale whole_unmap =
  fixes unmap :: unmap_fn
  assumes unmap_whole: "mem_inv st \<Longrightarrow> b \<in> set (mapped_blocks st) \<Longrightarrow>
    unmap st (mb_addr b) (mb_size b) = Some (UC_ERR_OK, memory_unmap st b)"
begin

lemma split_pieces:
  assumes inv: "mem_inv st" and p: "part st b a len"
  shows "piece st b {} (mb_addr b) (a - mb_addr b)"
    "S = {b_lo b ..< uint a} \<Longrightarrow> piece st b S a len"
    "S \<subseteq> {b_lo b ..< uint a + uint len} \<Longrightarrow> piece st b S (a + len) (mb_end b - (a + len))"
proof -
  note d = partD [OF inv p]
  have b: "b \<in> set (mapped_blocks st)" and rg: "b_lo b \<le> uint a" "uint a + uint len \<le> b_hi b"
    and al: "aligned st a" "aligned st len" using p by (simp_all add: part_def)
  have "aligned st (mb_addr b)" using mem_invD(2) [OF inv b] by (simp add: block_ok_def)
  with d b rg
  show "piece st b {} (mb_addr b) (a - mb_addr b)" unfolding piece_def by (simp add: b_lo_def)
  show "piece st b S a len" if "S = {b_lo b ..< uint a}" unfolding piece_def using b rg al that by auto
  show "piece st b S (a + len) (mb_end b - (a + len))" if "S \<subseteq> {b_lo b ..< uint a + uint len}"
    unfolding piece_def using d(2,8,10,11,14) b rg that by auto
qed

lemma split_region_spec:
  assumes inv: "mem_inv st" and p: "part st b a len" and ram: "mb_ram b" and ca: "can_alloc st"
    and strict: "\<not> (a = mb_addr b \<and> len = mb_size b)"
  shows "\<exists>st' E. split_region unmap del st b a len = Some (True, st')
    \<and> restored st b ({b_lo b ..< b_hi b} - (if del then {uint a ..< uint a + uint len} else {})) E st'
    \<and> (\<not> del \<longrightarrow> (a, len) \<in> E) \<and> (\<forall>(p, n)\<in>E. uint p + uint n \<le> b_hi b)"
proof -
  note d = partD [OF inv p]
  have b: "b \<in> set (mapped_blocks st)" and len: "len \<noteq> 0" and rg: "b_lo b \<le> uint a" "uint a + uint len \<le> b_hi b"
    using p by (simp_all add: part_def)
  let ?B = "backup_of st b" and ?l = "a - mb_addr b" and ?r = "mb_end b - (a + len)"
  note r0 = restored_start [OF inv b]
  note pcs = split_pieces [OF inv p]
  obtain st1 where st1: "ram_piece (backup_at ?B 0) (mb_perms b) (mb_addr b) ?l (True, memory_unmap st b) = Some (True, st1)"
    "restored st b {b_lo b ..< uint a} (if ?l = 0 then {} else {(mb_addr b, ?l)}) st1"
    using ram_piece_step [OF inv r0 pcs(1) ca ram] d(7) by (auto simp: b_lo_def)
  define m where "m = (if del then 0 else len)"
  define S where "S = {b_lo b ..< uint a} \<union> {uint a ..< uint a + uint m}"
  define E where "E = (if ?l = 0 then {} else {(mb_addr b, ?l)}) \<union> (if m = 0 then {} else {(a, m)})"
  have "piece st b {b_lo b ..< uint a} a m"
    using pcs(2) [OF refl] d(13) by (auto simp: m_def piece_def aligned_def split: if_splits)
  then obtain st2 where st2: "ram_piece (backup_at ?B ?l) (mb_perms b) a m (True, st1) = Some (True, st2)"
    "restored st b S E st2"
    using ram_piece_step [OF inv st1(2) _ ca ram] unfolding S_def E_def by blast
  have "S \<subseteq> {b_lo b ..< uint a + uint len}" using rg u64_range [of len] by (auto simp: S_def m_def)
  then obtain st3 where st3: "ram_piece (backup_at ?B (?l + len)) (mb_perms b) (a + len) ?r (True, st2) = Some (True, st3)"
    "restored st b (S \<union> {uint a + uint len ..< b_hi b}) (E \<union> (if ?r = 0 then {} else {(a + len, ?r)})) st3"
    using ram_piece_step [OF inv st2(2) pcs(3) ca ram] d(2,8) by (auto simp: algebra_simps)
  have "S \<union> {uint a + uint len ..< b_hi b} = {b_lo b ..< b_hi b} - (if del then {uint a ..< uint a + uint len} else {})"
    using rg d(13,14) by (auto simp: S_def m_def)
  note r3 = st3(2) [unfolded this]
  have bk: "(if pre then Some (Some (Backup_Ptr q)) else map_option (map_option Backup_Bytes) (copy_region st b)) = Some (Some ?B)"
    if "mb_back b = Ram_Block q pre" for q pre
  proof -
    have "\<forall>x. x - mb_addr b < mb_size b \<longrightarrow> ram_at st x"
      using ram_cell_block [OF inv b ram] in_blk_area [OF mem_invD(2) [OF inv b]] by (auto simp: ram_at_def)
    then show ?thesis using that uc_mem_read_spec(1) [OF inv] by (simp add: copy_region_def backup_of_def)
  qed
  obtain q pre where q: "mb_back b = Ram_Block q pre" using ram by (cases "mb_back b") (auto simp: mb_ram_def)
  have z: "backup_at ?B 0 = ?B" using q by (cases q) (simp add: backup_of_def split: bool.split)
  have pcs_run: "ram_pieces ?B (mb_perms b) (mb_addr b) a (a + len) (mb_end b) del (memory_unmap st b) = Some (True, st3)"
    using st1(1) st2(1) st3(1) unfolding z m_def by (simp add: ram_pieces_def Let_def)
  have f: "\<not> (a \<le> mb_addr b \<and> mb_end b \<le> a + len)" "\<not> a < mb_addr b" "\<not> mb_end b < a + len"
    using strict d(3,4,12) by (auto simp: not_less)
  have "split_region unmap del st b a len = Some (True, st3)"
    unfolding split_region_def Let_def using pcs_run by (simp add: f q bk [OF q] len d(5,6) unmap_whole [OF inv b])
  moreover have "uint p + uint n \<le> b_hi b" if "(p, n) \<in> E \<union> (if ?r = 0 then {} else {(a + len, ?r)})" for p n
    using that rg d(2,7,8,13) u64_range [of len] by (auto simp: E_def m_def b_lo_def split: if_splits)
  moreover have "\<not> del \<longrightarrow> (a, len) \<in> E" using len by (simp add: E_def m_def)
  ultimately show ?thesis using r3 by blast
qed

lemma split_mmio_region_spec:
  assumes inv: "mem_inv st" and p: "part st b a len" and c: "mb_back b = Mmio c"
    and strict: "\<not> (a = mb_addr b \<and> len = mb_size b)"
  shows "\<exists>st' E. split_mmio_region unmap del st b a len = Some (True, st')
    \<and> restored st b ({b_lo b ..< b_hi b} - (if del then {uint a ..< uint a + uint len} else {})) E st'
    \<and> (\<not> del \<longrightarrow> (a, len) \<in> E) \<and> (\<forall>(p, n)\<in>E. uint p + uint n \<le> b_hi b)"
proof -
  note d = partD [OF inv p]
  have b: "b \<in> set (mapped_blocks st)" and len: "len \<noteq> 0" and rg: "b_lo b \<le> uint a" "uint a + uint len \<le> b_hi b"
    using p by (simp_all add: part_def)
  let ?l = "a - mb_addr b" and ?r = "mb_end b - (a + len)"
  note r0 = restored_start [OF inv b]
  note pcs = split_pieces [OF inv p]
  obtain st1 where st1: "mmio_piece c (mb_addr b) ?l (True, memory_unmap st b) = (True, st1)"
    "restored st b {b_lo b ..< uint a} (if ?l = 0 then {} else {(mb_addr b, ?l)}) st1"
    using mmio_piece_step [OF inv r0 pcs(1) c] d(7) by (auto simp: b_lo_def)
  define m where "m = (if del then 0 else len)"
  define S where "S = {b_lo b ..< uint a} \<union> {uint a ..< uint a + uint m}"
  define E where "E = (if ?l = 0 then {} else {(mb_addr b, ?l)}) \<union> (if m = 0 then {} else {(a, m)})"
  have "piece st b {b_lo b ..< uint a} a m"
    using pcs(2) [OF refl] d(13) by (auto simp: m_def piece_def aligned_def split: if_splits)
  then obtain st2 where st2: "mmio_piece c a m (True, st1) = (True, st2)" "restored st b S E st2"
    using mmio_piece_step [OF inv st1(2) _ c] unfolding S_def E_def by blast
  have "S \<subseteq> {b_lo b ..< uint a + uint len}" using rg u64_range [of len] by (auto simp: S_def m_def)
  then obtain st3 where st3: "mmio_piece c (a + len) ?r (True, st2) = (True, st3)"
    "restored st b (S \<union> {uint a + uint len ..< b_hi b}) (E \<union> (if ?r = 0 then {} else {(a + len, ?r)})) st3"
    using mmio_piece_step [OF inv st2(2) pcs(3) c] d(2,8) by (auto simp: algebra_simps)
  have "S \<union> {uint a + uint len ..< b_hi b} = {b_lo b ..< b_hi b} - (if del then {uint a ..< uint a + uint len} else {})"
    using rg d(13,14) by (auto simp: S_def m_def)
  note r3 = st3(2) [unfolded this]
  have f: "\<not> (a \<le> mb_addr b \<and> mb_end b \<le> a + len)" "\<not> a < mb_addr b" "\<not> mb_end b < a + len"
    using strict d(3,4,12) by (auto simp: not_less)
  have "split_mmio_region unmap del st b a len = Some (True, st3)"
    unfolding split_mmio_region_def Let_def
    using st2(1) st3(1) by (simp add: f c len unmap_whole [OF inv b] st1(1) m_def split: if_splits)
  moreover have "uint p + uint n \<le> b_hi b" if "(p, n) \<in> E \<union> (if ?r = 0 then {} else {(a + len, ?r)})" for p n
    using that rg d(2,7,8,13) u64_range [of len] by (auto simp: E_def m_def b_lo_def split: if_splits)
  moreover have "\<not> del \<longrightarrow> (a, len) \<in> E" using len by (simp add: E_def m_def)
  ultimately show ?thesis using r3 by blast
qed

text \<open>Both cases, and the trivial one in which the part is the whole block.\<close>

lemma split_any_spec:
  assumes inv: "mem_inv st" and p: "part st b a len" and ca: "can_alloc st"
  shows "a = mb_addr b \<and> len = mb_size b \<Longrightarrow> split_any unmap del st b a len = Some (True, st)"
    "\<not> (a = mb_addr b \<and> len = mb_size b) \<Longrightarrow> \<exists>st' E. split_any unmap del st b a len = Some (True, st')
    \<and> restored st b ({b_lo b ..< b_hi b} - (if del then {uint a ..< uint a + uint len} else {})) E st'
    \<and> (\<not> del \<longrightarrow> (a, len) \<in> E) \<and> (\<forall>(p, n)\<in>E. uint p + uint n \<le> b_hi b)"
proof -
  assume "a = mb_addr b \<and> len = mb_size b"
  then show "split_any unmap del st b a len = Some (True, st)"
    using partD(12) [OF inv p] by (auto simp: split_any_def split_region_def split_mmio_region_def Let_def)
next
  assume strict: "\<not> (a = mb_addr b \<and> len = mb_size b)"
  show "\<exists>st' E. split_any unmap del st b a len = Some (True, st')
    \<and> restored st b ({b_lo b ..< b_hi b} - (if del then {uint a ..< uint a + uint len} else {})) E st'
    \<and> (\<not> del \<longrightarrow> (a, len) \<in> E) \<and> (\<forall>(p, n)\<in>E. uint p + uint n \<le> b_hi b)"
  proof (cases "mb_back b")
    case (Ram_Block q pre)
    then have ram: "mb_ram b" by (simp add: mb_ram_def)
    then show ?thesis unfolding split_any_def using split_region_spec [OF inv p ram ca strict] by simp
  next
    case (Mmio c)
    then have "\<not> mb_ram b" by (simp add: mb_ram_def)
    then show ?thesis unfolding split_any_def using split_mmio_region_spec [OF inv p Mmio strict] by simp
  qed
qed

end

end
