(* ===== verification/Mem_Api.thy ===== *)
theory Mem_Api
  imports Mem_Split
begin

text \<open>
  The properties of the memory interface: unmapping and protecting an area that may span
  several regions, and the statements about all functions of the interface.
\<close>

section \<open>Unmapping an area\<close>

definition below_top :: "mem_state \<Rightarrow> bool" where
  "below_top st \<longleftrightarrow> (\<forall>(p, n)\<in>extents st. uint p + uint n < 2 ^ 64)"

lemma below_top_hi: "below_top st \<Longrightarrow> b \<in> set (mapped_blocks st) \<Longrightarrow> b_hi b < 2 ^ 64"
  by (auto simp: below_top_def extents_def b_hi_def)

definition unmapped :: "mem_state \<Rightarrow> mem_state \<Rightarrow> u64 \<Rightarrow> u64 \<Rightarrow> bool" where
  "unmapped st st' a n \<longleftrightarrow> mem_inv st' \<and> frame st st' \<and> below_top st'
     \<and> (\<forall>x. cell_at st' x = (if x - a < n then None else cell_at st x))"

lemma unmapped_append:
  assumes "unmapped st st1 a len" "unmapped st1 st2 (a + len) (n - len)" "len \<le> n"
  shows "unmapped st st2 a n"
  using assms area_split(1) [OF assms(3), of _ a] frame_trans [of st st1 st2] by (auto simp: unmapped_def)

lemma chunk_part:
  assumes inv: "mem_inv st" and top: "below_top st" and m: "memory_mapping st a = Some b" and n: "n \<noteq> 0"
    and al: "aligned st a" "aligned st n"
  shows "part st b a (memory_region_len b a n)"
proof -
  have b: "b \<in> set (mapped_blocks st)" "b_lo b \<le> uint a" using m by (simp_all add: mapping_Some [OF inv])
  have ok: "block_ok st b" by (rule mem_invD(2) [OF inv b(1)])
  note pg = mem_invD(5) [OF inv]
  have "aligned st (mb_end b - a)"
    using ok al aligned_diff [OF pg] aligned_add [OF pg] by (simp add: block_ok_def)
  then have "aligned st (memory_region_len b a n)" using al by (simp add: memory_region_len_def min_def)
  then show ?thesis using b al region_len [OF inv m n] below_top_hi [OF top b(1)] by (simp add: part_def)
qed

lemma extents_restored_top:
  assumes "below_top st" "b \<in> set (mapped_blocks st)" "restored st b S E st'" "\<forall>(p, n)\<in>E. uint p + uint n \<le> b_hi b"
  shows "below_top st'"
  using assms below_top_hi [OF assms(1,2)] by (fastforce simp: below_top_def restored_def)

lemma chunk_cells:
  assumes inv: "mem_inv st" and p: "part st b a len"
  shows "x - a < len \<longleftrightarrow> uint a \<le> uint x \<and> uint x < uint a + uint len" "x - a < len \<Longrightarrow> in_blk b x"
  using p by (auto simp: part_def in_blk_def area_plain)

context whole_unmap
begin

lemma unmap_step:
  assumes inv: "mem_inv st" and top: "below_top st" and ca: "can_alloc st" and p: "part st b a len"
  shows "\<exists>st1. split_any unmap True st b a len = Some (True, st1)
    \<and> unmapped st (case memory_mapping st1 a of Some m \<Rightarrow> memory_unmap st1 m | None \<Rightarrow> st1) a len"
proof -
  have b: "b \<in> set (mapped_blocks st)" and len: "len \<noteq> 0" using p by (simp_all add: part_def)
  have a: "in_blk b a" "a - a < len" using len chunk_cells [OF inv p, of a] by (simp_all add: word_pos)
  show ?thesis
  proof (cases "a = mb_addr b \<and> len = mb_size b")
    case True
    have "memory_mapping st a = Some b" using a b by (simp add: mapping_Some [OF inv] in_blk_def)
    moreover note u = memory_unmap_spec [OF inv b]
    moreover have "in_blk b x \<longleftrightarrow> x - a < len" for x using in_blk_area [OF mem_invD(2) [OF inv b]] True by simp
    ultimately show ?thesis using split_any_spec(1) [OF inv p ca True] top
      by (auto simp: unmapped_def below_top_def)
  next
    case False
    obtain st1 E where s: "split_any unmap True st b a len = Some (True, st1)"
      "restored st b ({b_lo b ..< b_hi b} - {uint a ..< uint a + uint len}) E st1"
      "\<forall>(p, n)\<in>E. uint p + uint n \<le> b_hi b"
      using split_any_spec(2) [OF inv p ca False, of True] by auto
    have c: "cell_at st1 x = (if x - a < len then None else cell_at st x)" for x
      using s(2) chunk_cells [OF inv p, of x] by (auto simp: restored_def in_blk_def)
    have "cell_at st1 a = None" using c [of a] a(2) by simp
    then have "memory_mapping st1 a = None" by (simp add: cell_at_def)
    with c show ?thesis using s extents_restored_top [OF top b s(2,3)]
      by (auto simp: unmapped_def restored_def)
  qed
qed

lemma mem_unmap_loop_spec:
  assumes "mem_inv st" "below_top st" "can_alloc st" "c \<le> sz" "aligned st a" "aligned st (sz - c)"
    "\<forall>x. x - a < sz - c \<longrightarrow> mapped st x"
  shows "\<exists>st'. mem_unmap_loop (split_any unmap True) st a sz c = Some (UC_ERR_OK, st') \<and> unmapped st st' a (sz - c)"
  using assms
proof (induction "unat (sz - c)" arbitrary: st a c rule: less_induct)
  case less
  note inv = less.prems(1)
  show ?case
  proof (cases "c < sz")
    case False
    with less.prems have "c = sz" by simp
    then show ?thesis using less.prems by (subst mem_unmap_loop.simps) (simp add: unmapped_def)
  next
    case True
    then have n: "sz - c \<noteq> 0" by simp
    have "a - a < sz - c" using n word_pos by simp
    then have "mapped st a" using less.prems(7) by blast
    then obtain b where b: "memory_mapping st a = Some b" by (auto simp: mapped_def)
    define len where "len = memory_region_len b a (sz - c)"
    note l = region_len [OF inv b n, folded len_def]
    note ar = step_arith [OF less.prems(4) l(2,1)]
    note p = chunk_part [OF inv less.prems(2) b n less.prems(5,6), folded len_def]
    obtain st1 where s: "split_any unmap True st b a len = Some (True, st1)"
      "unmapped st (case memory_mapping st1 a of Some m \<Rightarrow> memory_unmap st1 m | None \<Rightarrow> st1) a len"
      using unmap_step [OF less.prems(1-3) p] by blast
    define st2 where "st2 = (case memory_mapping st1 a of Some m \<Rightarrow> memory_unmap st1 m | None \<Rightarrow> st1)"
    have u: "unmapped st st2 a len" using s(2) by (simp add: st2_def)
    have al: "aligned st len" using p by (simp add: part_def)
    note pg = mem_invD(5) [OF inv]
    have al2: "aligned st2 (a + len)" "aligned st2 (sz - (c + len))"
      using frame_aligned [of st st2] u aligned_add [OF pg less.prems(5) al] aligned_diff [OF pg less.prems(6) al]
      unfolding ar(2) by (simp_all add: unmapped_def)
    have mp: "mapped st2 x" if "x - (a + len) < sz - (c + len)" for x
      using that u area_later [OF l(2)] area_split(1) [OF l(2)] less.prems(7)
      unfolding ar(2) by (auto simp: unmapped_def mapped_cell)
    have ca: "can_alloc st2" using less.prems(3) u by (simp add: can_alloc_def unmapped_def frame_def)
    have i2: "mem_inv st2" "below_top st2" using u by (simp_all add: unmapped_def)
    obtain st3 where st3: "mem_unmap_loop (split_any unmap True) st2 (a + len) sz (c + len) = Some (UC_ERR_OK, st3)"
      "unmapped st2 st3 (a + len) (sz - (c + len))"
      using less.hyps [OF ar(3) i2 ca ar(1) al2] mp by blast
    have "mem_unmap_loop (split_any unmap True) st a sz c = Some (UC_ERR_OK, st3)"
      using True b s(1) st3(1) by (subst mem_unmap_loop.simps) (simp add: Let_def st2_def flip: len_def)
    moreover have "unmapped st st3 a (sz - c)"
      using unmapped_append [OF u _ l(2)] st3(2) unfolding ar(2) by simp
    ultimately show ?thesis by blast
  qed
qed

end

section \<open>The recursion of unmapping\<close>

lemma whole_len:
  assumes inv: "mem_inv st" and b: "b \<in> set (mapped_blocks st)"
  shows "memory_mapping st (mb_addr b) = Some b" "memory_region_len b (mb_addr b) (mb_size b) = mb_size b"
    "check_mem_area st (mb_addr b) (mb_size b) = Some True"
proof -
  have ok: "block_ok st b" by (rule mem_invD(2) [OF inv b])
  show "memory_mapping st (mb_addr b) = Some b"
    using b block_range [OF ok] by (simp add: mapping_Some [OF inv] b_lo_def)
  show "memory_region_len b (mb_addr b) (mb_size b) = mb_size b"
    using ok by (simp add: memory_region_len_def block_ok_def)
  show "check_mem_area st (mb_addr b) (mb_size b) = Some True"
    using cell_at_block [OF inv b] in_blk_area [OF ok] by (simp add: check_mem_area_spec [OF inv] mapped_cell)
qed

lemma uc_mem_unmap_rec_whole:
  assumes inv: "mem_inv st" and b: "b \<in> set (mapped_blocks st)"
  shows "uc_mem_unmap_rec (Suc n) st (mb_addr b) (mb_size b) = Some (UC_ERR_OK, memory_unmap st b)"
proof -
  have ok: "block_ok st b" by (rule mem_invD(2) [OF inv b])
  note w = whole_len [OF inv b]
  have sp: "split_any u True st b (mb_addr b) (mb_size b) = Some (True, st)" for u
    using ok by (simp add: split_any_def split_region_def split_mmio_region_def block_ok_def)
  have "mem_unmap_loop (split_any u True) st (mb_addr b) (mb_size b) 0 = Some (UC_ERR_OK, memory_unmap st b)" for u
  proof -
    have "0 < mb_size b" using ok by (simp add: block_ok_def word_pos)
    then have "mem_unmap_loop (split_any u True) st (mb_addr b) (mb_size b) 0
      = mem_unmap_loop (split_any u True) (memory_unmap st b) (mb_addr b + mb_size b) (mb_size b) (mb_size b)"
      by (subst mem_unmap_loop.simps) (simp add: w sp Let_def)
    then show ?thesis by (simp add: mem_unmap_loop.simps [of _ _ _ "mb_size b" "mb_size b"])
  qed
  then show ?thesis using ok by (simp add: mem_unmap_with_def w block_ok_def aligned_def)
qed

interpretation unmap_rec: whole_unmap "uc_mem_unmap_rec (Suc n)" for n
  by unfold_locales (rule uc_mem_unmap_rec_whole)

interpretation unmap2: whole_unmap uc_mem_unmap
  by unfold_locales (simp only: uc_mem_unmap_def numeral_2_eq_2 uc_mem_unmap_rec_whole)

lemma uc_mem_unmap_spec:
  assumes inv: "mem_inv st" and top: "below_top st" and ca: "can_alloc st" and al: "aligned st a" "aligned st sz"
  shows "\<forall>x. x - a < sz \<longrightarrow> mapped st x \<Longrightarrow> \<exists>st'. uc_mem_unmap st a sz = Some (UC_ERR_OK, st') \<and> unmapped st st' a sz"
    "\<not> (\<forall>x. x - a < sz \<longrightarrow> mapped st x) \<Longrightarrow> uc_mem_unmap st a sz = Some (UC_ERR_NOMEM, st)"
proof -
  have u: "uc_mem_unmap = mem_unmap_with (split_any (uc_mem_unmap_rec (Suc 0)) True)"
    by (simp add: uc_mem_unmap_def numeral_2_eq_2)
  assume m: "\<forall>x. x - a < sz \<longrightarrow> mapped st x"
  show "\<exists>st'. uc_mem_unmap st a sz = Some (UC_ERR_OK, st') \<and> unmapped st st' a sz"
  proof (cases "sz = 0")
    case True
    then show ?thesis using inv top by (simp add: u mem_unmap_with_def unmapped_def)
  next
    case False
    then show ?thesis using unmap_rec.mem_unmap_loop_spec [OF inv top ca, of 0 sz a 0] al m
      by (simp add: u mem_unmap_with_def check_mem_area_spec [OF inv] aligned_def)
  qed
next
  assume m: "\<not> (\<forall>x. x - a < sz \<longrightarrow> mapped st x)"
  then have "sz \<noteq> 0" by auto
  moreover have "check_mem_area st a sz = Some False" unfolding check_mem_area_spec [OF inv] using m by blast
  ultimately show "uc_mem_unmap st a sz = Some (UC_ERR_NOMEM, st)"
    using al by (simp add: uc_mem_unmap_def numeral_2_eq_2 mem_unmap_with_def aligned_def)
qed

section \<open>Protecting an area\<close>

fun set_perms :: "u32 \<Rightarrow> cell \<Rightarrow> cell" where
  "set_perms p (Ram_Cell v q) = Ram_Cell v p"
| "set_perms p (Mmio_Cell c) = Mmio_Cell c"

fun exec_cell :: "cell \<Rightarrow> bool" where
  "exec_cell (Ram_Cell v q) = (q AND UC_PROT_EXEC \<noteq> 0)"
| "exec_cell (Mmio_Cell c) = False"

definition loses_exec :: "mem_state \<Rightarrow> u32 \<Rightarrow> u64 \<Rightarrow> u64 \<Rightarrow> bool" where
  "loses_exec st perms a n \<longleftrightarrow> perms AND UC_PROT_EXEC = 0 \<and>
     (\<exists>x c. x - a < n \<and> cell_at st x = Some c \<and> exec_cell c)"

definition protected :: "mem_state \<Rightarrow> mem_state \<Rightarrow> u32 \<Rightarrow> u64 \<Rightarrow> u64 \<Rightarrow> bool" where
  "protected st st' perms a n \<longleftrightarrow> mem_inv st' \<and> frame st st' \<and> below_top st'
     \<and> (\<forall>x. cell_at st' x = (if x - a < n then map_option (set_perms perms) (cell_at st x) else cell_at st x))"

lemma set_block_spec:
  assumes inv: "mem_inv st" and b: "b \<in> set (mapped_blocks st)" and ok: "block_ok st b'"
    and same: "mb_id b' = mb_id b" "mb_addr b' = mb_addr b" "mb_size b' = mb_size b" "mb_back b' = mb_back b"
  shows "mem_inv (set_block b' st)" "frame st (set_block b' st)" "extents (set_block b' st) = extents st"
    "cell_at (set_block b' st) x = (if in_blk b x then Some (cell_of st b' x) else cell_at st x)"
proof -
  define f where "f c = (if c = b then b' else c)" for c
  let ?st = "set_block b' st"
  have m: "mapped_blocks ?st = map f (mapped_blocks st)"
    using id_unique [OF inv _ b] by (auto simp: set_block_def f_def same)
  have fields: "b_lo (f c) = b_lo c" "b_hi (f c) = b_hi c" "ram_area (f c) = ram_area c" "mb_id (f c) = mb_id c"
    "mb_addr (f c) = mb_addr c" "mb_size (f c) = mb_size c" for c
    using same by (simp_all add: f_def b_lo_def b_hi_def ram_area_def)
  have 1: "sorted_wrt before (mapped_blocks ?st)"
    using mem_invD(1) [OF inv] by (simp add: m sorted_wrt_map before_def [abs_def] fields)
  have "block_ok ?st c = block_ok st c" for c by (simp add: block_ok_def aligned_def set_block_def)
  then have 2: "\<forall>c\<in>set (mapped_blocks ?st). block_ok ?st c"
    using ok mem_invD(2) [OF inv] by (auto simp: m f_def)
  have 3: "\<forall>c\<in>set (mapped_blocks ?st). \<forall>d\<in>set (mapped_blocks ?st). c \<noteq> d \<longrightarrow> ram_area c \<inter> ram_area d = {}"
    using mem_invD(3) [OF inv] by (auto simp: m fields)
  have 4: "distinct (map mb_id (mapped_blocks ?st))" using mem_invD(4) [OF inv] by (simp add: m comp_def fields)
  have 5: "page_align_ok ?st" using mem_invD(5) [OF inv] by (simp add: page_align_ok_def set_block_def)
  show inv': "mem_inv ?st" unfolding mem_inv_def using 1 2 3 4 5 by blast
  show "frame st ?st" by (simp add: frame_def set_block_def)
  show "extents ?st = extents st" by (simp add: extents_def m image_image fields)
  have "memory_mapping ?st x = map_option f (memory_mapping st x)"
  proof (cases "memory_mapping st x")
    case None
    then have "memory_mapping ?st x = None" by (simp add: mapping_None [OF inv'] mapping_None [OF inv] m fields)
    then show ?thesis using None by simp
  next
    case (Some c)
    then have "memory_mapping ?st x = Some (f c)" by (auto simp: mapping_Some [OF inv'] mapping_Some [OF inv] m fields)
    then show ?thesis using Some by simp
  qed
  then have "cell_at ?st x = map_option (\<lambda>c. cell_of st (f c) x) (memory_mapping st x)"
    by (simp add: cell_at_def option.map_comp comp_def cell_of_def set_block_def)
  moreover have "memory_mapping st x = Some b" if "in_blk b x"
    using that b by (simp add: mapping_Some [OF inv] in_blk_def)
  moreover have "c \<noteq> b" if "memory_mapping st x = Some c" "\<not> in_blk b x" for c
    using that by (auto simp: mapping_Some [OF inv] in_blk_def)
  ultimately show "cell_at ?st x = (if in_blk b x then Some (cell_of st b' x) else cell_at st x)"
    by (cases "memory_mapping st x") (auto simp: f_def cell_at_def)
qed

lemma extent_block:
  assumes inv: "mem_inv st" and e: "(a, len) \<in> extents st"
  shows "\<exists>b\<in>set (mapped_blocks st). memory_mapping st a = Some b \<and> mb_addr b = a \<and> mb_size b = len
    \<and> (\<forall>x. in_blk b x \<longleftrightarrow> x - a < len)"
proof -
  obtain b where b: "b \<in> set (mapped_blocks st)" "mb_addr b = a" "mb_size b = len" using e by (auto simp: extents_def)
  then show ?thesis using whole_len(1) [OF inv b(1)] in_blk_area [OF mem_invD(2) [OF inv b(1)]] by auto
qed

lemma set_perms_at_spec:
  assumes inv: "mem_inv st" and top: "below_top st" and e: "(a, len) \<in> extents st" and perms: "perms AND NOT UC_PROT_ALL = 0"
  shows "\<exists>st'. set_perms_at st a perms = Some (loses_exec st perms a len, st') \<and> protected st st' perms a len"
proof -
  obtain b where b: "b \<in> set (mapped_blocks st)" "memory_mapping st a = Some b" "\<forall>x. in_blk b x \<longleftrightarrow> x - a < len"
    using extent_block [OF inv e] by auto
  have ok: "block_ok st b" by (rule mem_invD(2) [OF inv b(1)])
  have cells: "cell_at st x = Some (cell_of st b x)" if "x - a < len" for x
    using cell_at_block [OF inv b(1)] b(3) that by simp
  have prot: "protected st (set_block b' st) perms a len"
    if "block_ok st b'" "mb_id b' = mb_id b" "mb_addr b' = mb_addr b" "mb_size b' = mb_size b" "mb_back b' = mb_back b"
      and cs: "\<And>x. cell_of st b' x = set_perms perms (cell_of st b x)" for b'
    using set_block_spec [OF inv b(1) that(1-5)] top b(3) cells by (simp add: protected_def below_top_def cs)
  have a: "a - a < len" using b(2) b(3) by (simp add: mapping_Some [OF inv] in_blk_def)
  have le: "loses_exec st perms a len \<longleftrightarrow> perms AND UC_PROT_EXEC = 0 \<and> r" if r: "\<And>y. exec_cell (cell_of st b y) = r" for r
    unfolding loses_exec_def using a cells r by fastforce
  show ?thesis
  proof (cases "mb_back b")
    case (Ram_Block q pre)
    obtain obj off where q: "q = (obj, off)" by (cases q)
    let ?b = "b\<lparr>mb_perms := perms, mb_readonly := (perms AND UC_PROT_WRITE = 0)\<rparr>"
    have okb: "block_ok st ?b" using ok perms unfolding block_ok_def by (simp add: b_hi_def)
    have cs: "cell_of st ?b x = set_perms perms (cell_of st b x)" for x by (simp add: cell_of_def Ram_Block q)
    have "protected st (set_block ?b st) perms a len" by (rule prot [OF okb _ _ _ _ cs]) simp_all
    moreover have "loses_exec st perms a len \<longleftrightarrow> mb_perms b AND UC_PROT_EXEC \<noteq> 0 \<and> perms AND UC_PROT_EXEC = 0"
      using le [of "mb_perms b AND UC_PROT_EXEC \<noteq> 0"] by (auto simp: cell_of_def Ram_Block q)
    ultimately show ?thesis using b(2) by (simp add: set_perms_at_def readonly_mem_def mb_ram_def Ram_Block)
  next
    case (Mmio c)
    let ?b = "b\<lparr>mb_perms := perms\<rparr>"
    have okb: "block_ok st ?b" using ok perms unfolding block_ok_def by (simp add: b_hi_def Mmio mb_ram_def)
    have cs: "cell_of st ?b x = set_perms perms (cell_of st b x)" for x by (simp add: cell_of_def Mmio)
    have "protected st (set_block ?b st) perms a len" by (rule prot [OF okb _ _ _ _ cs]) simp_all
    moreover have "\<not> loses_exec st perms a len" using le [of False] by (simp add: cell_of_def Mmio)
    ultimately show ?thesis using b(2) by (simp add: set_perms_at_def mb_ram_def Mmio)
  qed
qed

lemma loses_exec_cong: "(\<And>x. cell_at st' x = cell_at st x) \<Longrightarrow> loses_exec st' perms a n = loses_exec st perms a n"
  by (simp add: loses_exec_def)

lemma protect_step:
  assumes inv: "mem_inv st" and top: "below_top st" and ca: "can_alloc st" and p: "part st b a len"
    and perms: "perms AND NOT UC_PROT_ALL = 0"
  shows "\<exists>st1 st2. split_any uc_mem_unmap False st b a len = Some (True, st1)
    \<and> set_perms_at st1 a perms = Some (loses_exec st perms a len, st2) \<and> protected st st2 perms a len"
proof (cases "a = mb_addr b \<and> len = mb_size b")
  case True
  have "(a, len) \<in> extents st" using p True by (auto simp: part_def extents_def)
  then show ?thesis
    using unmap2.split_any_spec(1) [OF inv p ca True] set_perms_at_spec [OF inv top _ perms] by auto
next
  case False
  have b: "b \<in> set (mapped_blocks st)" using p by (simp add: part_def)
  obtain st1 E where s: "split_any uc_mem_unmap False st b a len = Some (True, st1)"
    "restored st b {b_lo b ..< b_hi b} E st1" "(a, len) \<in> E" "\<forall>(p, n)\<in>E. uint p + uint n \<le> b_hi b"
    using unmap2.split_any_spec(2) [OF inv p ca False, of False] by auto
  have inv1: "mem_inv st1" and fr: "frame st st1" and e: "(a, len) \<in> extents st1"
    using s(2,3) by (simp_all add: restored_def)
  have c: "cell_at st1 x = cell_at st x" for x using s(2) by (auto simp: restored_def in_blk_def)
  obtain st2 where st2: "set_perms_at st1 a perms = Some (loses_exec st1 perms a len, st2)" "protected st1 st2 perms a len"
    using set_perms_at_spec [OF inv1 extents_restored_top [OF top b s(2,4)] e perms] by blast
  have "protected st st2 perms a len" using st2(2) c frame_trans [OF fr] by (auto simp: protected_def)
  then show ?thesis using s(1) st2(1) loses_exec_cong [OF c] by auto
qed

lemma protected_append:
  assumes "protected st st1 perms a len" "protected st1 st2 perms (a + len) (n - len)" "len \<le> n"
  shows "protected st st2 perms a n"
    "loses_exec st perms a n \<longleftrightarrow> loses_exec st perms a len \<or> loses_exec st1 perms (a + len) (n - len)"
proof -
  have l: "cell_at st1 x = cell_at st x" if "x - (a + len) < n - len" for x
    using assms(1) area_later [OF assms(3) that] by (simp add: protected_def)
  show "protected st st2 perms a n"
    using assms(1,2) area_later [OF assms(3)] area_split(1) [OF assms(3), of _ a] frame_trans [of st st1 st2]
    by (auto simp: protected_def)
  show "loses_exec st perms a n \<longleftrightarrow> loses_exec st perms a len \<or> loses_exec st1 perms (a + len) (n - len)"
    using l area_split(1) [OF assms(3), of _ a] unfolding loses_exec_def by metis
qed

lemma mem_protect_loop_spec:
  assumes "mem_inv st" "below_top st" "can_alloc st" "c \<le> sz" "aligned st a" "aligned st (sz - c)"
    "\<forall>x. x - a < sz - c \<longrightarrow> mapped st x" and perms: "perms AND NOT UC_PROT_ALL = 0"
  shows "\<exists>st'. mem_protect_loop perms st a sz c r = Some (UC_ERR_OK, r \<or> loses_exec st perms a (sz - c), st')
    \<and> protected st st' perms a (sz - c)"
  using assms(1-7)
proof (induction "unat (sz - c)" arbitrary: st a c r rule: less_induct)
  case less
  note inv = less.prems(1)
  show ?case
  proof (cases "c < sz")
    case False
    with less.prems have "c = sz" by simp
    then show ?thesis using less.prems by (subst mem_protect_loop.simps) (simp add: protected_def loses_exec_def)
  next
    case True
    then have n: "sz - c \<noteq> 0" by simp
    have "a - a < sz - c" using n word_pos by simp
    then have "mapped st a" using less.prems(7) by blast
    then obtain b where b: "memory_mapping st a = Some b" by (auto simp: mapped_def)
    define len where "len = memory_region_len b a (sz - c)"
    note l = region_len [OF inv b n, folded len_def]
    note ar = step_arith [OF less.prems(4) l(2,1)]
    note p = chunk_part [OF inv less.prems(2) b n less.prems(5,6), folded len_def]
    obtain st1 st2 where s: "split_any uc_mem_unmap False st b a len = Some (True, st1)"
      "set_perms_at st1 a perms = Some (loses_exec st perms a len, st2)" "protected st st2 perms a len"
      using protect_step [OF less.prems(1-3) p perms] by blast
    have al: "aligned st len" using p by (simp add: part_def)
    note pg = mem_invD(5) [OF inv]
    have al2: "aligned st2 (a + len)" "aligned st2 (sz - (c + len))"
      using frame_aligned [of st st2] s(3) aligned_add [OF pg less.prems(5) al] aligned_diff [OF pg less.prems(6) al]
      unfolding ar(2) by (simp_all add: protected_def)
    have mp: "mapped st2 x" if "x - (a + len) < sz - (c + len)" for x
      using that s(3) area_split(1) [OF l(2)] less.prems(7) unfolding ar(2) by (auto simp: protected_def mapped_cell)
    have i2: "mem_inv st2" "below_top st2" "can_alloc st2"
      using s(3) less.prems(3) by (simp_all add: protected_def can_alloc_def frame_def)
    obtain st3 where st3: "mem_protect_loop perms st2 (a + len) sz (c + len) (r \<or> loses_exec st perms a len) =
        Some (UC_ERR_OK, (r \<or> loses_exec st perms a len) \<or> loses_exec st2 perms (a + len) (sz - (c + len)), st3)"
      "protected st2 st3 perms (a + len) (sz - (c + len))"
      using less.hyps [OF ar(3) i2 ar(1) al2] mp by blast
    have "mem_protect_loop perms st a sz c r
        = mem_protect_loop perms st2 (a + len) sz (c + len) (r \<or> loses_exec st perms a len)"
      using True b s(1,2) by (subst mem_protect_loop.simps) (simp add: Let_def flip: len_def)
    moreover note protected_append [OF s(3) st3(2) [unfolded ar(2)] l(2)]
    ultimately show ?thesis using st3(1) unfolding ar(2) by auto
  qed
qed

lemma mapped_area_plain:
  assumes inv: "mem_inv st" and top: "below_top st" and m: "\<forall>x. x - a < sz \<longrightarrow> mapped st x"
  shows "uint a + uint sz < 2 ^ 64"
proof (rule ccontr)
  assume "\<not> uint a + uint sz < 2 ^ 64"
  then have "uint (- 1 - a :: u64) < uint sz" using u64_range [of a] by (subst uint_sub_plain) (simp_all add: unsigned_minus_1_eq_mask mask_eq_exp_minus_1)
  then have "mapped st (- 1)" using m by (simp add: word_less_def)
  then obtain b where "b \<in> set (mapped_blocks st)" "uint (- 1 :: u64) < b_hi b" by (auto simp: mapped_def mapping_Some [OF inv])
  with below_top_hi [OF top] show False by (fastforce simp: unsigned_minus_1_eq_mask mask_eq_exp_minus_1)
qed

lemma uc_mem_protect_spec:
  assumes inv: "mem_inv st" and top: "below_top st" and ca: "can_alloc st" and al: "aligned st a" "aligned st sz"
    and perms: "perms AND NOT UC_PROT_ALL = 0" and m: "\<forall>x. x - a < sz \<longrightarrow> mapped st x"
  shows "\<exists>st'. uc_mem_protect st pc a sz perms = Some (UC_ERR_OK, st') \<and> mem_inv st' \<and> below_top st'
    \<and> (\<forall>x. cell_at st' x = (if x - a < sz then map_option (set_perms perms) (cell_at st x) else cell_at st x))
    \<and> (stop_request st' \<longleftrightarrow> stop_request st \<or> pc - a < sz \<and> loses_exec st perms a sz)"
proof (cases "sz = 0")
  case True
  then show ?thesis using inv top by (simp add: uc_mem_protect_def)
next
  case False
  obtain st1 where st1: "mem_protect_loop perms st a sz 0 False = Some (UC_ERR_OK, loses_exec st perms a sz, st1)"
    "protected st st1 perms a sz"
    using mem_protect_loop_spec [OF inv top ca, of 0 sz a perms False] al perms m by auto
  have pl: "uint a + uint sz < 2 ^ 64" by (rule mapped_area_plain [OF inv top m])
  then have pc: "pc < a + sz \<and> a \<le> pc \<longleftrightarrow> pc - a < sz"
  proof -
    have "pc - a < sz \<longleftrightarrow> uint a \<le> uint pc \<and> uint pc < uint a + uint sz"
      by (rule area_plain) (use pl in simp)
    then show ?thesis using pl by (auto simp: word_less_def word_le_def uint_plus_plain simp del: uint_minus_simple_alt)
  qed
  have upd: "mem_inv (st1\<lparr>quit_request := True, stop_request := True\<rparr>) = mem_inv st1"
    "below_top (st1\<lparr>quit_request := True, stop_request := True\<rparr>) = below_top st1"
    "cell_at (st1\<lparr>quit_request := True, stop_request := True\<rparr>) x = cell_at st1 x" for x
    by (simp_all add: mem_inv_def block_ok_def [abs_def] aligned_def page_align_ok_def below_top_def extents_def
        cell_at_def memory_mapping_def cell_of_def)
  have "check_mem_area st a sz = Some True" unfolding check_mem_area_spec [OF inv] using m by blast
  then show ?thesis
    using False al perms st1 pc upd by (auto simp: uc_mem_protect_def aligned_def protected_def frame_def)
qed

end
