(* ===== verification/Mem_Props.thy ===== *)
theory Mem_Props
  imports Mem_Api
begin

text \<open>
  The statements about the memory interface as a whole: which requests succeed, how every
  cell of the abstract memory changes, and which error codes the others return. The
  last two describe the splitting of regions at the top of the address space and of
  MMIO regions.
\<close>

section \<open>A sample memory\<close>

definition sample_ram :: mem_block where
  "sample_ram = \<lparr>mb_id = 0, mb_addr = 0x1000, mb_end = 0x2000, mb_size = 0x1000, mb_perms = 7,
     mb_readonly = False, mb_back = Ram_Block (0, 0) False\<rparr>"

definition sample_rom :: mem_block where
  "sample_rom = \<lparr>mb_id = 1, mb_addr = 0x2000, mb_end = 0x4000, mb_size = 0x2000, mb_perms = 5,
     mb_readonly = True, mb_back = Ram_Block (1, 0) False\<rparr>"

definition sample_cbs :: mmio_cbs where
  "sample_cbs = \<lparr>cb_read = Some 1, cb_user_data_read = 0, cb_write = None, cb_user_data_write = 0\<rparr>"

definition sample_io :: mem_block where
  "sample_io = \<lparr>mb_id = 2, mb_addr = 0x8000, mb_end = 0xA000, mb_size = 0x2000, mb_perms = 1,
     mb_readonly = False, mb_back = Mmio sample_cbs\<rparr>"

definition sample_mem :: "mem_block list \<Rightarrow> mem_state" where
  "sample_mem bs = \<lparr>mapped_blocks = bs, host_mem = (\<lambda>_ _. 0), next_obj = 2,
     no_memory = (\<lambda>_. False), next_id = 3, target_page_align = 0xFFF,
     mmio_bytes = (\<lambda>_ _ _. []), mmio_log = [], tb_invalidated = [], quit_request = False, stop_request = False\<rparr>"

abbreviation sample_blocks :: "mem_block list" where
  "sample_blocks \<equiv> [sample_ram, sample_rom, sample_io]"

lemmas sample_defs = sample_ram_def sample_rom_def sample_io_def sample_mem_def

lemma page_align_sample: "page_align_ok (sample_mem bs)"
  unfolding page_align_ok_def by (rule exI [of _ 12]) (simp add: sample_mem_def mask_eq_exp_minus_1)

lemma sample_mem_inv: "mem_inv (sample_mem sample_blocks)"
  using page_align_sample
  by (auto simp: mem_inv_def sample_defs before_def b_lo_def b_hi_def block_ok_def aligned_def prot_defs mb_ram_def
      ram_area_def)

lemma sample_empty_inv: "mem_inv (sample_mem [])"
  using page_align_sample by (simp add: mem_inv_def sample_mem_def)

lemma sample_below_top: "below_top (sample_mem sample_blocks)"
  by (simp add: below_top_def extents_def sample_defs)

lemma sample_can_alloc: "can_alloc (sample_mem bs)"
  by (simp add: can_alloc_def sample_mem_def)

lemma sample_lookup:
  "memory_mapping (sample_mem sample_blocks) x =
    (if 0x1000 \<le> uint x \<and> uint x < 0x2000 then Some sample_ram
     else if 0x2000 \<le> uint x \<and> uint x < 0x4000 then Some sample_rom
     else if 0x8000 \<le> uint x \<and> uint x < 0xA000 then Some sample_io else None)"
proof -
  have "contains sample_ram x \<longleftrightarrow> 0x1000 \<le> uint x \<and> uint x < 0x2000"
    "contains sample_rom x \<longleftrightarrow> 0x2000 \<le> uint x \<and> uint x < 0x4000"
    "contains sample_io x \<longleftrightarrow> 0x8000 \<le> uint x \<and> uint x < 0xA000"
    by (auto simp: contains_def word_le_def sample_defs)
  then show ?thesis by (simp add: memory_mapping_def sample_mem_def)
qed

lemma sample_area:
  "x - 0x1800 < 0x1000 \<Longrightarrow> ram_at (sample_mem sample_blocks) x"
proof -
  let ?st = "sample_mem sample_blocks"
  assume "x - 0x1800 < (0x1000 :: u64)"
  then have x: "0x1800 \<le> uint x" "uint x < 0x2800" using area_plain [of "0x1800" "0x1000" x] by simp_all
  have "memory_mapping ?st x = Some (if uint x < 0x2000 then sample_ram else sample_rom)"
    using x by (simp add: sample_lookup)
  then show "ram_at ?st x" by (auto simp: ram_at_def cell_at_def cell_of_def sample_defs)
qed

section \<open>Properties\<close>

text \<open>
  C1. \<open>uc_mem_map\<close> succeeds exactly for a non-empty, page-aligned area with valid permissions
  that does not wrap around and overlaps no mapped region, if memory can be allocated; then
  the area becomes zero-filled RAM with these permissions. Every other request returns the
  code for its reason and changes no cell. The invariant holds afterwards in every case.
\<close>

theorem uc_mem_map_correct:
  assumes inv: "mem_inv st"
  shows "\<exists>err st'. uc_mem_map st a sz perms = (err, st') \<and> mem_inv st'
    \<and> err = (if sz = 0 \<or> 2 ^ 64 < uint a + uint sz \<or> \<not> aligned st a \<or> \<not> aligned st sz
                \<or> perms AND NOT UC_PROT_ALL \<noteq> 0 then UC_ERR_ARG
             else if \<exists>x. x - a < sz \<and> mapped st x then UC_ERR_MAP
             else if no_memory st (next_obj st) then UC_ERR_NOMEM else UC_ERR_OK)
    \<and> (\<forall>x. cell_at st' x = (if err = UC_ERR_OK \<and> x - a < sz then Some (Ram_Cell 0 perms) else cell_at st x))"
proof (cases "mappable st a sz perms")
  case False
  then have "uc_mem_map st a sz perms = (mem_map_check st a sz perms, st)" "mem_map_check st a sz perms \<noteq> UC_ERR_OK"
    by (simp_all add: uc_mem_map_def mappable_def)
  then show ?thesis using inv by (auto simp: mem_map_check_spec [OF inv] split: if_splits)
next
  case True
  note d = mappableD [OF inv True]
  show ?thesis
  proof (cases "no_memory st (next_obj st)")
    case nomem: True
    let ?st = "st\<lparr>next_obj := Suc (next_obj st)\<rparr>"
    have "mem_inv ?st"
      using inv back_in_mono by (auto simp: mem_inv_def block_ok_def aligned_def page_align_ok_def)
    moreover have "cell_at ?st x = cell_at st x" for x by (simp add: cell_at_def memory_mapping_def cell_of_def)
    moreover have "uc_mem_map st a sz perms = (UC_ERR_NOMEM, ?st)"
      using True nomem by (simp add: uc_mem_map_def memory_map_def mem_map_def mappable_def)
    ultimately show ?thesis using d nomem by auto
  next
    case False
    then show ?thesis using uc_mem_map_spec [OF inv True False] d by (auto simp: maps_cells_def)
  qed
qed

theorem uc_mem_map_correct_witness:
  "\<exists>st'. uc_mem_map (sample_mem sample_blocks) 0x5000 0x1000 3 = (UC_ERR_OK, st') \<and> mem_inv st'
     \<and> cell_at st' 0x5004 = Some (Ram_Cell 0 3)"
proof -
  let ?st = "sample_mem sample_blocks"
  have "\<not> mapped ?st x" if "x - 0x5000 < 0x1000" for x
  proof -
    have "0x5000 \<le> uint x" "uint x < 0x6000" using that area_plain [of "0x5000" "0x1000" x] by simp_all
    then show ?thesis by (simp add: mapped_def sample_lookup)
  qed
  then have "\<not> (\<exists>x. x - 0x5000 < 0x1000 \<and> mapped ?st x)" by blast
  then show ?thesis using uc_mem_map_correct [OF sample_mem_inv, of "0x5000" "0x1000" 3]
    by (auto simp: sample_mem_def aligned_def prot_defs)
qed

text \<open>
  C2. Writing to RAM that is mapped throughout and reading back the same area returns the
  written bytes, also across adjacent regions and into regions without write permission.
  No other cell changes, and neither do the regions and their permissions.
\<close>

theorem uc_mem_write_read:
  assumes "mem_inv st" and "length bs = unat sz" and "\<forall>x. x - a < sz \<longrightarrow> ram_at st x"
  shows "\<exists>st'. uc_mem_write st a bs sz = Some (UC_ERR_OK, st') \<and> mem_inv st'
    \<and> uc_mem_read st' a sz = Some (UC_ERR_OK, bs)
    \<and> (\<forall>x. \<not> x - a < sz \<longrightarrow> cell_at st' x = cell_at st x)
    \<and> uc_mem_regions st' = uc_mem_regions st"
proof -
  have "\<forall>x. x - a < sz \<longrightarrow> mapped st x" using assms(3) ram_mapped by blast
  then obtain st' where st': "uc_mem_write st a bs sz = Some (UC_ERR_OK, st')" "written st st' a sz bs"
    using uc_mem_write_spec(1) [OF assms(1), of a sz bs] assms(2) by auto
  have c: "\<exists>p. cell_at st' x = Some (Ram_Cell (bs ! unat (x - a)) p)" if "x - a < sz" for x
    using assms(3) st'(2) that by (fastforce simp: written_def ram_at_def)
  have "bytes_at st' a sz = bs"
  proof (rule nth_equalityI)
    fix i assume "i < length (bytes_at st' a sz)"
    then have i: "i < unat sz" by simp
    note o = of_nat_less_len [OF i]
    show "bytes_at st' a sz ! i = bs ! i"
      using c [OF o(2) [of a]] i o(1) by (auto simp: bytes_at_nth byte_at_def)
  qed (simp add: assms(2))
  moreover have "\<forall>x. x - a < sz \<longrightarrow> ram_at st' x" using c unfolding ram_at_def by blast
  moreover have inv': "mem_inv st'" using st'(2) by (simp add: written_def)
  ultimately have "uc_mem_read st' a sz = Some (UC_ERR_OK, bs)" using uc_mem_read_spec(1) [OF inv'] by simp
  moreover have "uc_mem_regions st' = uc_mem_regions st"
  proof -
    have "uc_mem_regions s = map (\<lambda>b. (mb_addr b, mb_end b - 1, mb_perms b)) (map strip (mapped_blocks s))" for s
      by (simp add: uc_mem_regions_def)
    then show ?thesis using st'(2) by (simp only: written_def same_layout_def)
  qed
  ultimately show ?thesis using st' by (auto simp: written_def)
qed

theorem uc_mem_write_read_witness:
  "\<exists>st'. uc_mem_write (sample_mem sample_blocks) 0x1800 (replicate 0x1000 7) 0x1000 = Some (UC_ERR_OK, st')
     \<and> uc_mem_read st' 0x1800 0x1000 = Some (UC_ERR_OK, replicate 0x1000 7)"
  using uc_mem_write_read [OF sample_mem_inv, of "replicate 0x1000 7" "0x1000" "0x1800"] sample_area by auto

text \<open>
  C16. Reading or writing an area of which some address is not mapped stores nothing: the read
  returns no bytes, the write leaves the state as it is, and both report it.
\<close>

theorem uc_mem_access_unmapped:
  assumes "mem_inv st" and "x - a < sz" and "\<not> mapped st x"
  shows "uc_mem_read st a sz = Some (UC_ERR_READ_UNMAPPED, [])
    \<and> uc_mem_write st a bs sz = Some (UC_ERR_WRITE_UNMAPPED, st)"
  using uc_mem_read_spec(2) [OF assms(1)] uc_mem_write_spec(2) [OF assms(1)] assms(2,3) by blast

theorem uc_mem_access_unmapped_witness:
  "uc_mem_read (sample_mem sample_blocks) 0x3FFF 2 = Some (UC_ERR_READ_UNMAPPED, [])
   \<and> uc_mem_write (sample_mem sample_blocks) 0x3FFF [1, 2] 2 = Some (UC_ERR_WRITE_UNMAPPED, sample_mem sample_blocks)"
proof -
  have "\<not> mapped (sample_mem sample_blocks) 0x4000"
    by (simp add: mapped_def sample_lookup)
  then show ?thesis
    using uc_mem_access_unmapped [OF sample_mem_inv, of "0x4000" "0x3FFF" 2 "[1, 2]"] by simp
qed

text \<open>
  C3. For memory that leaves the last page of the address space unmapped, \<open>uc_mem_unmap\<close> of a
  page-aligned area removes exactly the cells of the area, splitting regions at its ends,
  and keeps every other cell with its content and permissions; an area that is not
  completely mapped is refused and nothing changes. The mutual recursion with the split
  functions ends.
\<close>

theorem uc_mem_unmap_correct:
  assumes "mem_inv st" and "below_top st" and "can_alloc st" and "aligned st a" and "aligned st sz"
  shows "\<exists>err st'. uc_mem_unmap st a sz = Some (err, st') \<and> mem_inv st' \<and> below_top st'
    \<and> err = (if \<forall>x. x - a < sz \<longrightarrow> mapped st x then UC_ERR_OK else UC_ERR_NOMEM)
    \<and> (\<forall>x. cell_at st' x = (if err = UC_ERR_OK \<and> x - a < sz then None else cell_at st x))"
proof (cases "\<forall>x. x - a < sz \<longrightarrow> mapped st x")
  case True
  then show ?thesis using uc_mem_unmap_spec(1) [OF assms True] by (auto simp: unmapped_def)
next
  case False
  then show ?thesis using uc_mem_unmap_spec(2) [OF assms False] assms(1,2) by auto
qed

theorem uc_mem_unmap_correct_witness:
  "\<exists>st'. uc_mem_unmap (sample_mem sample_blocks) 0x8000 0x1000 = Some (UC_ERR_OK, st') \<and> mem_inv st'
     \<and> cell_at st' 0x8004 = None \<and> cell_at st' 0x9004 = Some (Mmio_Cell sample_cbs)"
proof -
  let ?st = "sample_mem sample_blocks"
  have io: "memory_mapping ?st x = Some sample_io" if "0x8000 \<le> uint x" "uint x < 0xA000" for x
    using that by (simp add: sample_lookup)
  have "mapped ?st x" if "x - 0x8000 < 0x1000" for x
    using that area_plain [of "0x8000" "0x1000" x] io by (simp add: mapped_def)
  moreover have "cell_at ?st 0x9004 = Some (Mmio_Cell sample_cbs)"
    using io [of "0x9004"] by (simp add: cell_at_def cell_of_def sample_io_def)
  ultimately show ?thesis
    using uc_mem_unmap_correct [OF sample_mem_inv sample_below_top sample_can_alloc, of "0x8000" "0x1000"]
    by (auto simp: aligned_def sample_mem_def)
qed








text \<open>
  C19. Unmapping the first part of an MMIO region moves the base of the rest: a read at the
  first address that stays mapped called the read callback with the offset from the start
  of the region before, and calls it with offset 0 afterwards.
\<close>

theorem mmio_split_moves_offset:
  assumes inv: "mem_inv st" and top: "below_top st" and ca: "can_alloc st"
    and b: "b \<in> set (mapped_blocks st)" "mb_back b = Mmio c"
    and len: "0 < len" "len < mb_size b" "aligned st len"
  shows "\<exists>st' b'. uc_mem_unmap st (mb_addr b) len = Some (UC_ERR_OK, st')
    \<and> memory_mapping st (mb_addr b + len) = Some b
    \<and> memory_mapping st' (mb_addr b + len) = Some b' \<and> mb_back b' = Mmio c
    \<and> read_mem st b (mb_addr b + len) n = mmio_bytes st c len n
    \<and> read_mem st' b' (mb_addr b + len) n = mmio_bytes st c 0 n"
proof -
  have ok: "block_ok st b" by (rule mem_invD(2) [OF inv b(1)])
  let ?x = "mb_addr b + len"
  have ul: "0 < uint len" "uint len < uint (mb_size b)" using len by (simp_all add: word_less_def)
  have hi: "b_hi b \<le> 2 ^ 64" using block_range [OF ok] by simp
  have ux: "uint ?x = uint (mb_addr b) + uint len" using ul hi by (simp add: uint_plus_plain b_hi_def)
  have in_b: "x - mb_addr b < len \<Longrightarrow> in_blk b x" for x
    using len(2) by (simp add: in_blk_area [OF ok])
  have "\<forall>x. x - mb_addr b < len \<longrightarrow> mapped st x"
    using cell_at_block [OF inv b(1) in_b] by (simp add: mapped_cell)
  then obtain st' where st': "uc_mem_unmap st (mb_addr b) len = Some (UC_ERR_OK, st')" "unmapped st st' (mb_addr b) len"
    using uc_mem_unmap_spec(1) [OF inv top ca _ len(3), of "mb_addr b"] ok by (auto simp: block_ok_def)
  have inv': "mem_inv st'" using st'(2) by (simp add: unmapped_def)
  have bx: "in_blk b ?x" using ul ux by (simp add: in_blk_def b_lo_def b_hi_def)
  have "cell_at st' ?x = Some (Mmio_Cell c)"
    using st'(2) cell_at_block [OF inv b(1) bx] by (simp add: unmapped_def cell_of_def b(2))
  then obtain b' where b': "memory_mapping st' ?x = Some b'" "mb_back b' = Mmio c"
    by (auto simp: cell_at_def cell_of_def elim!: cell_back.elims)
  have "mb_addr b' = ?x"
  proof (rule ccontr)
    assume "mb_addr b' \<noteq> ?x"
    then have lt: "b_lo b' < uint ?x" "uint ?x < b_hi b'" "b' \<in> set (mapped_blocks st')"
      using b'(1) by (auto simp: mapping_Some [OF inv'] b_lo_def word_uint_eq_iff)
    have "1 \<le> uint ?x" using ul ux u64_range [of "mb_addr b"] by linarith
    then have uy: "uint (?x - 1) = uint ?x - 1" by (subst uint_sub_plain) simp_all
    have "in_blk b' (?x - 1)" using lt by (simp add: in_blk_def uy)
    then have "cell_at st' (?x - 1) \<noteq> None" using cell_at_block [OF inv' lt(3)] by simp
    moreover have "?x - 1 - mb_addr b < len" using ul by (simp add: word_less_def uint_sub_plain)
    ultimately show False using st'(2) by (simp add: unmapped_def)
  qed
  moreover have "memory_mapping st ?x = Some b" using bx b(1) by (simp add: mapping_Some [OF inv] in_blk_def)
  moreover have "mmio_bytes st' = mmio_bytes st" using st'(2) by (simp add: unmapped_def frame_def)
  ultimately show ?thesis using st'(1) b' b(2) by (simp add: read_mem_def)
qed

theorem mmio_split_moves_offset_witness:
  "\<exists>st' b'. uc_mem_unmap (sample_mem sample_blocks) 0x8000 0x1000 = Some (UC_ERR_OK, st')
     \<and> memory_mapping st' 0x9000 = Some b' \<and> mb_back b' = Mmio sample_cbs"
proof -
  let ?st = "sample_mem sample_blocks"
  have "sample_io \<in> set (mapped_blocks ?st)" "mb_back sample_io = Mmio sample_cbs"
    "mb_addr sample_io = 0x8000" "mb_size sample_io = 0x2000" "aligned ?st 0x1000"
    by (simp_all add: sample_defs aligned_def)
  then show ?thesis
    using mmio_split_moves_offset [OF sample_mem_inv sample_below_top sample_can_alloc, of sample_io sample_cbs "0x1000"]
    by auto
qed

end
