(* ===== verification/Bitops.thy ===== *)
theory Bitops
  imports Uc_Prelude
begin

text \<open>
  Bit operations of \<open>qemu/include/qemu/bitops.h\<close>, \<open>host-utils.h\<close> and \<open>bswap.h\<close>: bit fields,
  half shuffles, byte swaps, bit reversal, counting of leading and trailing zeros and
  rounding to powers of two, in the portable variants.

  A failed \<open>assert\<close> is \<open>None\<close>. The amounts of C shifts are \<open>int\<close>s that the assertions keep
  between 0 and the width; right shifts of signed values are arithmetic.
\<close>

section \<open>Bit fields\<close>

definition extract32 :: "u32 \<Rightarrow> int \<Rightarrow> int \<Rightarrow> u32 option" where
  "extract32 value start len =
     (if start \<ge> 0 \<and> len > 0 \<and> len \<le> 32 - start
      then Some (drop_bit (nat start) value AND drop_bit (nat (32 - len)) (NOT 0)) else None)"

definition extract8 :: "u8 \<Rightarrow> int \<Rightarrow> int \<Rightarrow> u8 option" where
  "extract8 value start len =
     (if start \<ge> 0 \<and> len > 0 \<and> len \<le> 8 - start
      then map_option ucast (extract32 (ucast value) start len) else None)"

definition extract16 :: "u16 \<Rightarrow> int \<Rightarrow> int \<Rightarrow> u16 option" where
  "extract16 value start len =
     (if start \<ge> 0 \<and> len > 0 \<and> len \<le> 16 - start
      then map_option ucast (extract32 (ucast value) start len) else None)"

definition extract64 :: "u64 \<Rightarrow> int \<Rightarrow> int \<Rightarrow> u64 option" where
  "extract64 value start len =
     (if start \<ge> 0 \<and> len > 0 \<and> len \<le> 64 - start
      then Some (drop_bit (nat start) value AND drop_bit (nat (64 - len)) (NOT 0)) else None)"

definition sextract32 :: "u32 \<Rightarrow> int \<Rightarrow> int \<Rightarrow> u32 option" where
  "sextract32 value start len =
     (if start \<ge> 0 \<and> len > 0 \<and> len \<le> 32 - start
      then Some (signed_drop_bit (nat (32 - len)) (push_bit (nat (32 - len - start)) value)) else None)"

definition sextract64 :: "u64 \<Rightarrow> int \<Rightarrow> int \<Rightarrow> u64 option" where
  "sextract64 value start len =
     (if start \<ge> 0 \<and> len > 0 \<and> len \<le> 64 - start
      then Some (signed_drop_bit (nat (64 - len)) (push_bit (nat (64 - len - start)) value)) else None)"

definition deposit32 :: "u32 \<Rightarrow> int \<Rightarrow> int \<Rightarrow> u32 \<Rightarrow> u32 option" where
  "deposit32 value start len fieldval =
     (if start \<ge> 0 \<and> len > 0 \<and> len \<le> 32 - start
      then (let m = push_bit (nat start) (drop_bit (nat (32 - len)) (NOT 0))
            in Some ((value AND NOT m) OR (push_bit (nat start) fieldval AND m))) else None)"

definition deposit64 :: "u64 \<Rightarrow> int \<Rightarrow> int \<Rightarrow> u64 \<Rightarrow> u64 option" where
  "deposit64 value start len fieldval =
     (if start \<ge> 0 \<and> len > 0 \<and> len \<le> 64 - start
      then (let m = push_bit (nat start) (drop_bit (nat (64 - len)) (NOT 0))
            in Some ((value AND NOT m) OR (push_bit (nat start) fieldval AND m))) else None)"

section \<open>Shuffles, byte swaps and reversal\<close>

definition half_shuffle32 :: "u32 \<Rightarrow> u32" where
  "half_shuffle32 x =
     (let x = push_bit 8 (x AND 0xFF00) OR (x AND 0x00FF);
          x = (push_bit 4 x OR x) AND 0x0F0F0F0F;
          x = (push_bit 2 x OR x) AND 0x33333333;
          x = (push_bit 1 x OR x) AND 0x55555555
      in x)"

definition half_shuffle64 :: "u64 \<Rightarrow> u64" where
  "half_shuffle64 x =
     (let x = push_bit 16 (x AND 0xFFFF0000) OR (x AND 0xFFFF);
          x = (push_bit 8 x OR x) AND 0x00FF00FF00FF00FF;
          x = (push_bit 4 x OR x) AND 0x0F0F0F0F0F0F0F0F;
          x = (push_bit 2 x OR x) AND 0x3333333333333333;
          x = (push_bit 1 x OR x) AND 0x5555555555555555
      in x)"

definition half_unshuffle32 :: "u32 \<Rightarrow> u32" where
  "half_unshuffle32 x =
     (let x = x AND 0x55555555;
          x = (drop_bit 1 x OR x) AND 0x33333333;
          x = (drop_bit 2 x OR x) AND 0x0F0F0F0F;
          x = (drop_bit 4 x OR x) AND 0x00FF00FF;
          x = (drop_bit 8 x OR x) AND 0x0000FFFF
      in x)"

definition half_unshuffle64 :: "u64 \<Rightarrow> u64" where
  "half_unshuffle64 x =
     (let x = x AND 0x5555555555555555;
          x = (drop_bit 1 x OR x) AND 0x3333333333333333;
          x = (drop_bit 2 x OR x) AND 0x0F0F0F0F0F0F0F0F;
          x = (drop_bit 4 x OR x) AND 0x00FF00FF00FF00FF;
          x = (drop_bit 8 x OR x) AND 0x0000FFFF0000FFFF;
          x = (drop_bit 16 x OR x) AND 0x00000000FFFFFFFF
      in x)"

definition bswap16 :: "u16 \<Rightarrow> u16" where
  "bswap16 x = push_bit 8 (x AND 0x00ff) OR drop_bit 8 (x AND 0xff00)"

definition bswap32 :: "u32 \<Rightarrow> u32" where
  "bswap32 x = push_bit 24 (x AND 0x000000ff) OR push_bit 8 (x AND 0x0000ff00)
     OR drop_bit 8 (x AND 0x00ff0000) OR drop_bit 24 (x AND 0xff000000)"

definition bswap64 :: "u64 \<Rightarrow> u64" where
  "bswap64 x = push_bit 56 (x AND 0x00000000000000ff) OR push_bit 40 (x AND 0x000000000000ff00)
     OR push_bit 24 (x AND 0x0000000000ff0000) OR push_bit 8 (x AND 0x00000000ff000000)
     OR drop_bit 8 (x AND 0x000000ff00000000) OR drop_bit 24 (x AND 0x0000ff0000000000)
     OR drop_bit 40 (x AND 0x00ff000000000000) OR drop_bit 56 (x AND 0xff00000000000000)"

definition revbit8 :: "u8 \<Rightarrow> u8" where
  "revbit8 x =
     (let x = drop_bit 4 (x AND 0xf0) OR push_bit 4 (x AND 0x0f);
          x = drop_bit 3 (x AND 0x88) OR drop_bit 1 (x AND 0x44) OR push_bit 1 (x AND 0x22) OR push_bit 3 (x AND 0x11)
      in x)"

definition revbit16 :: "u16 \<Rightarrow> u16" where
  "revbit16 x =
     (let x = bswap16 x;
          x = drop_bit 4 (x AND 0xf0f0) OR push_bit 4 (x AND 0x0f0f);
          x = drop_bit 3 (x AND 0x8888) OR drop_bit 1 (x AND 0x4444) OR push_bit 1 (x AND 0x2222) OR push_bit 3 (x AND 0x1111)
      in x)"

definition revbit32 :: "u32 \<Rightarrow> u32" where
  "revbit32 x =
     (let x = bswap32 x;
          x = drop_bit 4 (x AND 0xf0f0f0f0) OR push_bit 4 (x AND 0x0f0f0f0f);
          x = drop_bit 3 (x AND 0x88888888) OR drop_bit 1 (x AND 0x44444444)
            OR push_bit 1 (x AND 0x22222222) OR push_bit 3 (x AND 0x11111111)
      in x)"

definition revbit64 :: "u64 \<Rightarrow> u64" where
  "revbit64 x =
     (let x = bswap64 x;
          x = drop_bit 4 (x AND 0xf0f0f0f0f0f0f0f0) OR push_bit 4 (x AND 0x0f0f0f0f0f0f0f0f);
          x = drop_bit 3 (x AND 0x8888888888888888) OR drop_bit 1 (x AND 0x4444444444444444)
            OR push_bit 1 (x AND 0x2222222222222222) OR push_bit 3 (x AND 0x1111111111111111)
      in x)"

section \<open>Counting zeros\<close>

definition clz32 :: "u32 \<Rightarrow> nat" where
  "clz32 val =
     (let (cnt, val) = (if val AND 0xFFFF0000 = 0 then (16, push_bit 16 val) else (0, val));
          (cnt, val) = (if val AND 0xFF000000 = 0 then (cnt + 8, push_bit 8 val) else (cnt, val));
          (cnt, val) = (if val AND 0xF0000000 = 0 then (cnt + 4, push_bit 4 val) else (cnt, val));
          (cnt, val) = (if val AND 0xC0000000 = 0 then (cnt + 2, push_bit 2 val) else (cnt, val));
          (cnt, val) = (if val AND 0x80000000 = 0 then (cnt + 1, push_bit 1 val) else (cnt, val))
      in if val AND 0x80000000 = 0 then cnt + 1 else cnt)"

definition clo32 :: "u32 \<Rightarrow> nat" where
  "clo32 val = clz32 (NOT val)"

definition clz64 :: "u64 \<Rightarrow> nat" where
  "clz64 val =
     (let (cnt, val) = (if drop_bit 32 val = 0 then (32, val) else (0, drop_bit 32 val))
      in cnt + clz32 (ucast val))"

definition clo64 :: "u64 \<Rightarrow> nat" where
  "clo64 val = clz64 (NOT val)"

definition ctz32 :: "u32 \<Rightarrow> nat" where
  "ctz32 val =
     (let (cnt, val) = (if val AND 0x0000FFFF = 0 then (16, drop_bit 16 val) else (0, val));
          (cnt, val) = (if val AND 0x000000FF = 0 then (cnt + 8, drop_bit 8 val) else (cnt, val));
          (cnt, val) = (if val AND 0x0000000F = 0 then (cnt + 4, drop_bit 4 val) else (cnt, val));
          (cnt, val) = (if val AND 0x00000003 = 0 then (cnt + 2, drop_bit 2 val) else (cnt, val));
          (cnt, val) = (if val AND 0x00000001 = 0 then (cnt + 1, drop_bit 1 val) else (cnt, val))
      in if val AND 0x00000001 = 0 then cnt + 1 else cnt)"

definition cto32 :: "u32 \<Rightarrow> nat" where
  "cto32 val = ctz32 (NOT val)"

definition ctz64 :: "u64 \<Rightarrow> nat" where
  "ctz64 val =
     (let (cnt, val) = (if (ucast val :: u32) = 0 then (32, drop_bit 32 val) else (0, val))
      in cnt + ctz32 (ucast val))"

definition cto64 :: "u64 \<Rightarrow> nat" where
  "cto64 val = ctz64 (NOT val)"

text \<open>\<open>clrsb\<close>: the portable variant; the result is an \<open>int\<close>.\<close>

definition clrsb32 :: "u32 \<Rightarrow> int" where
  "clrsb32 val = int (clz32 (val XOR signed_drop_bit 1 val)) - 1"

definition clrsb64 :: "u64 \<Rightarrow> int" where
  "clrsb64 val = int (clz64 (val XOR signed_drop_bit 1 val)) - 1"

section \<open>Powers of two\<close>

definition is_power_of_2 :: "u64 \<Rightarrow> bool" where
  "is_power_of_2 value = (if value = 0 then False else value AND (value - 1) = 0)"

definition pow2floor :: "u64 \<Rightarrow> u64" where
  "pow2floor value = (if value = 0 then 0 else drop_bit (clz64 value) 0x8000000000000000)"

definition pow2ceil :: "u64 \<Rightarrow> u64" where
  "pow2ceil value =
     (let n = clz64 (value - 1)
      in if n = 0 then (if value = 0 then 1 else 0) else drop_bit (n - 1) 0x8000000000000000)"

definition pow2roundup32 :: "u32 \<Rightarrow> u32" where
  "pow2roundup32 x =
     (let x = x OR drop_bit 1 x;
          x = x OR drop_bit 2 x;
          x = x OR drop_bit 4 x;
          x = x OR drop_bit 8 x;
          x = x OR drop_bit 16 x
      in x + 1)"

end
