(* ===== verification/Bit_Props.thy ===== *)
theory Bit_Props
  imports Bitops
begin

text \<open>
  The bit operations move exactly the bits they should: fields, shuffles, byte swaps and
  reversal are described bit by bit, counting and rounding by the powers of two around a value.
\<close>

section \<open>Fields\<close>

lemma high_mask: "0 < l \<Longrightarrow> l \<le> 32 \<Longrightarrow> drop_bit (nat (32 - l)) (NOT 0 :: u32) = mask (nat l)"
  "0 < l \<Longrightarrow> l \<le> 64 \<Longrightarrow> drop_bit (nat (64 - l)) (NOT 0 :: u64) = mask (nat l)"
  by (rule bit_word_eqI; auto simp: bit_simps)+

lemma nat_complement: "0 \<le> s \<Longrightarrow> 0 < l \<Longrightarrow> l \<le> n - s \<Longrightarrow> nat n - nat (n - l) = nat l" for n s l :: int
  by linarith

lemma extract_eq:
  "extract32 v s l = (if 0 \<le> s \<and> 0 < l \<and> l \<le> 32 - s then Some (take_bit (nat l) (drop_bit (nat s) v)) else None)"
  "extract64 w s l = (if 0 \<le> s \<and> 0 < l \<and> l \<le> 64 - s then Some (take_bit (nat l) (drop_bit (nat s) w)) else None)"
  using nat_complement [of s l 32] nat_complement [of s l 64]
  by (auto simp: extract32_def extract64_def high_mask take_bit_eq_mask)

definition field_set :: "nat \<Rightarrow> nat \<Rightarrow> 'a::len word \<Rightarrow> 'a word \<Rightarrow> 'a word" where
  "field_set s l f v = (v AND NOT (push_bit s (mask l))) OR push_bit s (take_bit l f)"

lemma deposit_eq:
  "deposit32 v s l f = (if 0 \<le> s \<and> 0 < l \<and> l \<le> 32 - s then Some (field_set (nat s) (nat l) f v) else None)"
  "deposit64 w s l g = (if 0 \<le> s \<and> 0 < l \<and> l \<le> 64 - s then Some (field_set (nat s) (nat l) g w) else None)"
  using nat_complement [of s l 32] nat_complement [of s l 64]
  by (auto simp: deposit32_def deposit64_def high_mask field_set_def Let_def take_bit_eq_mask push_bit_and)

lemma field_set_bit:
  "bit (field_set s l f v) i \<longleftrightarrow>
     (if s \<le> i \<and> i < s + l then bit f (i - s) \<and> i < LENGTH('a) else bit v i)" for v :: "'a::len word"
  by (auto simp: field_set_def bit_simps dest: bit_imp_le_length)

lemma take_drop_field:
  "s + l \<le> LENGTH('a) \<Longrightarrow> take_bit l (drop_bit s (field_set s l f v)) = take_bit l f" for v :: "'a::len word"
  by (rule bit_word_eqI) (auto simp: bit_simps field_set_bit)

lemma take_drop_other:
  "t + k \<le> s \<or> s + l \<le> t \<Longrightarrow> take_bit k (drop_bit t (field_set s l f v)) = take_bit k (drop_bit t v)" for v :: "'a::len word"
  by (rule bit_word_eqI) (auto simp: bit_simps field_set_bit)

lemma field_set_same: "field_set s l (take_bit l (drop_bit s v)) v = v" for v :: "'a::len word"
  by (rule bit_word_eqI) (auto simp: bit_simps field_set_bit)

lemma signed_field_set:
  "0 < l \<Longrightarrow> s + l \<le> LENGTH('a) \<Longrightarrow>
     signed_take_bit (l - 1) (drop_bit s (field_set s l f v)) = signed_take_bit (l - 1) f" for v :: "'a::len word"
  using take_drop_field [of s l f v] by (simp add: signed_take_bit_eq_iff_take_bit_eq)

lemma signed_field:
  fixes v :: "'a::len word"
  assumes "0 < b" "a + b \<le> LENGTH('a)"
  shows "signed_drop_bit (LENGTH('a) - b) (push_bit (LENGTH('a) - b - a) v) = signed_take_bit (b - 1) (drop_bit a v)"
proof (rule bit_word_eqI)
  fix n assume n: "n < LENGTH('a)"
  show "bit (signed_drop_bit (LENGTH('a) - b) (push_bit (LENGTH('a) - b - a) v)) n
      \<longleftrightarrow> bit (signed_take_bit (b - 1) (drop_bit a v)) n"
  proof (cases "n < b")
    case True
    then have "min n (b - Suc 0) = n" by auto
    then show ?thesis using assms n True by (auto simp: bit_simps add.commute)
  next
    case False
    then have "min n (b - Suc 0) = b - Suc 0" "a + b - Suc 0 = b + a - Suc 0" by auto
    then show ?thesis using assms n False by (auto simp: bit_simps)
  qed
qed

lemma sextract_eq:
  "sextract32 v s l = (if 0 \<le> s \<and> 0 < l \<and> l \<le> 32 - s
     then Some (signed_take_bit (nat l - 1) (drop_bit (nat s) v)) else None)"
  "sextract64 w s l = (if 0 \<le> s \<and> 0 < l \<and> l \<le> 64 - s
     then Some (signed_take_bit (nat l - 1) (drop_bit (nat s) w)) else None)"
  using signed_field [of "nat l" "nat s" v] signed_field [of "nat l" "nat s" w]
  by (auto simp: sextract32_def sextract64_def nat_diff_distrib)

section \<open>Shuffles\<close>

text \<open>Bits of a ground length are checked one by one.\<close>

lemma upt_start: "[0..<numeral n] = (if numeral n = (1::nat) then [0] else 0 # 1 # [2..<numeral n])"
  by (cases "numeral n :: nat"; cases "numeral n - 1 :: nat")
    (auto simp: upt_rec [of 0] upt_rec [of "Suc 0"] numeral_2_eq_2)

lemma all_bits: "list_all (\<lambda>i. P i) [0..<n] \<Longrightarrow> i < n \<Longrightarrow> P i"
  by (simp add: list_all_iff)

lemmas bit_ops = bit_and_iff bit_or_iff bit_push_bit_iff bit_drop_bit_eq comp_apply

lemma half_shuffle32_bits: "list_all (\<lambda>i. bit (half_shuffle32 x) i \<longleftrightarrow> even i \<and> bit x (i div 2)) [0..<32]"
  unfolding half_shuffle32_def Let_def by (simp only: bit_ops) (simp add: upt_start flip: numeral_2_eq_2)

lemma half_shuffle64_bits: "list_all (\<lambda>i. bit (half_shuffle64 x) i \<longleftrightarrow> even i \<and> bit x (i div 2)) [0..<64]"
  unfolding half_shuffle64_def Let_def by (simp only: bit_ops) (simp add: upt_start flip: numeral_2_eq_2)

lemma half_unshuffle32_bits: "list_all (\<lambda>i. bit (half_unshuffle32 x) i \<longleftrightarrow> i < 16 \<and> bit x (2 * i)) [0..<32]"
  unfolding half_unshuffle32_def Let_def by (simp only: bit_ops) (simp add: upt_start flip: numeral_2_eq_2)

lemma half_unshuffle64_bits: "list_all (\<lambda>i. bit (half_unshuffle64 x) i \<longleftrightarrow> i < 32 \<and> bit x (2 * i)) [0..<64]"
  unfolding half_unshuffle64_def Let_def by (simp only: bit_ops) (simp add: upt_start flip: numeral_2_eq_2)

lemma bswap16_bits: "list_all (\<lambda>i. bit (bswap16 x) i \<longleftrightarrow> bit x (8 * (1 - i div 8) + i mod 8)) [0..<16]"
  unfolding bswap16_def Let_def by (simp only: bit_ops) (simp add: upt_start flip: numeral_2_eq_2)

lemma bswap32_bits: "list_all (\<lambda>i. bit (bswap32 x) i \<longleftrightarrow> bit x (8 * (3 - i div 8) + i mod 8)) [0..<32]"
  unfolding bswap32_def Let_def by (simp only: bit_ops) (simp add: upt_start flip: numeral_2_eq_2)

lemma bswap64_bits: "list_all (\<lambda>i. bit (bswap64 x) i \<longleftrightarrow> bit x (8 * (7 - i div 8) + i mod 8)) [0..<64]"
  unfolding bswap64_def Let_def by (simp only: bit_ops) (simp add: upt_start flip: numeral_2_eq_2)

lemma bswap_bit:
  "i < 16 \<Longrightarrow> bit (bswap16 x) i \<longleftrightarrow> bit x (8 * (1 - i div 8) + i mod 8)"
  "i < 32 \<Longrightarrow> bit (bswap32 y) i \<longleftrightarrow> bit y (8 * (3 - i div 8) + i mod 8)"
  "i < 64 \<Longrightarrow> bit (bswap64 z) i \<longleftrightarrow> bit z (8 * (7 - i div 8) + i mod 8)"
  by (rule all_bits [OF bswap16_bits], assumption, rule all_bits [OF bswap32_bits], assumption,
      rule all_bits [OF bswap64_bits], assumption)

lemma revbit8_bits: "list_all (\<lambda>i. bit (revbit8 x) i \<longleftrightarrow> bit x (7 - i)) [0..<8]"
  unfolding revbit8_def Let_def by (simp only: bit_ops) (simp add: upt_start flip: numeral_2_eq_2)

lemma revbit16_bits: "list_all (\<lambda>i. bit (revbit16 x) i \<longleftrightarrow> bit x (15 - i)) [0..<16]"
  unfolding revbit16_def Let_def by (simp only: bit_ops) (simp add: upt_start bswap_bit flip: numeral_2_eq_2)

lemma revbit32_bits: "list_all (\<lambda>i. bit (revbit32 x) i \<longleftrightarrow> bit x (31 - i)) [0..<32]"
  unfolding revbit32_def Let_def by (simp only: bit_ops) (simp add: upt_start bswap_bit flip: numeral_2_eq_2)

lemma revbit64_bits: "list_all (\<lambda>i. bit (revbit64 x) i \<longleftrightarrow> bit x (63 - i)) [0..<64]"
  unfolding revbit64_def Let_def by (simp only: bit_ops) (simp add: upt_start bswap_bit flip: numeral_2_eq_2)

section \<open>Counting zeros\<close>

lemma and_high_eq_0: "v AND NOT (mask n) = 0 \<longleftrightarrow> unat v < 2 ^ n" for v :: "'a::len word"
proof -
  have "v AND NOT (mask n) = 0 \<longleftrightarrow> take_bit n v = v"
    by (auto simp: bit_eq_iff bit_simps)
  also have "\<dots> \<longleftrightarrow> take_bit n (unat v) = unat v"
    by (metis unsigned_take_bit_eq word_unat_eq_iff)
  finally show ?thesis by (simp add: take_bit_nat_eq_self_iff)
qed

lemma unat_push_bit: "unat v < 2 ^ (LENGTH('a) - k) \<Longrightarrow> k \<le> LENGTH('a) \<Longrightarrow> unat (push_bit k v) = unat v * 2 ^ k" for v :: "'a::len word"
proof -
  assume a: "unat v < 2 ^ (LENGTH('a) - k)" "k \<le> LENGTH('a)"
  have "unat v * 2 ^ k < 2 ^ (LENGTH('a) - k) * 2 ^ k" using a(1) by simp
  also have "\<dots> = 2 ^ LENGTH('a)" using a(2) by (simp flip: power_add)
  finally show ?thesis by (subst unsigned_push_bit_eq) (simp add: push_bit_eq_mult take_bit_nat_eq_self_iff)
qed

lemma clz_masks:
  "(0xFFFF0000 :: u32) = NOT (mask 16)" "(0xFF000000 :: u32) = NOT (mask 24)" "(0xF0000000 :: u32) = NOT (mask 28)"
  "(0xC0000000 :: u32) = NOT (mask 30)" "(0x80000000 :: u32) = NOT (mask 31)"
  by (simp_all add: mask_eq_exp_minus_1)

lemma clz_step:
  fixes v :: u32
  assumes "2 ^ (32 - 2 * k) \<le> unat v" "0 < k" "2 * k \<le> 32"
    and "(c', v') = (if v AND NOT (mask (32 - k)) = 0 then (c + k, push_bit k v) else (c, v))"
  shows "2 ^ (32 - k) \<le> unat v'" "unat v' * 2 ^ c = unat v * 2 ^ c'"
proof -
  have s: "(2::nat) ^ (32 - k) = 2 ^ (32 - 2 * k) * 2 ^ k"
    using assms(2,3) by (simp flip: power_add)
  have "2 ^ (32 - k) \<le> unat v' \<and> unat v' * 2 ^ c = unat v * 2 ^ c'"
  proof (cases "unat v < 2 ^ (32 - k)")
    case True
    then have "unat (push_bit k v) = unat v * 2 ^ k" using unat_push_bit [of v k] assms(3) by simp
    then show ?thesis using assms True s by (simp add: and_high_eq_0 power_add)
  qed (use assms in \<open>simp add: and_high_eq_0\<close>)
  then show "2 ^ (32 - k) \<le> unat v'" "unat v' * 2 ^ c = unat v * 2 ^ c'" by auto
qed

lemma clz32_bounds:
  assumes "val \<noteq> 0"
  shows "2 ^ 31 \<le> unat val * 2 ^ clz32 val \<and> unat val * 2 ^ clz32 val < 2 ^ 32"
proof -
  obtain c1 v1 where 1: "(c1 :: nat, v1) = (if val AND 0xFFFF0000 = 0 then (16, push_bit 16 val) else (0, val))" by (metis surj_pair)
  obtain c2 v2 where 2: "(c2, v2) = (if v1 AND 0xFF000000 = 0 then (c1 + 8, push_bit 8 v1) else (c1, v1))" by (metis surj_pair)
  obtain c3 v3 where 3: "(c3, v3) = (if v2 AND 0xF0000000 = 0 then (c2 + 4, push_bit 4 v2) else (c2, v2))" by (metis surj_pair)
  obtain c4 v4 where 4: "(c4, v4) = (if v3 AND 0xC0000000 = 0 then (c3 + 2, push_bit 2 v3) else (c3, v3))" by (metis surj_pair)
  obtain c5 v5 where 5: "(c5, v5) = (if v4 AND 0x80000000 = 0 then (c4 + 1, push_bit 1 v4) else (c4, v4))" by (metis surj_pair)
  have s1: "2 ^ 16 \<le> unat v1" "unat v1 = unat val * 2 ^ c1"
    using clz_step [of 16 val c1 v1 0] 1 assms by (simp_all add: clz_masks unat_gt_0 Suc_leI)
  have s2: "2 ^ 24 \<le> unat v2" "unat v2 = unat val * 2 ^ c2"
    using clz_step [of 8 v1 c2 v2 c1] 2 s1 by (simp_all add: clz_masks)
  have s3: "2 ^ 28 \<le> unat v3" "unat v3 = unat val * 2 ^ c3"
    using clz_step [of 4 v2 c3 v3 c2] 3 s2 by (simp_all add: clz_masks)
  have s4: "2 ^ 30 \<le> unat v4" "unat v4 = unat val * 2 ^ c4"
    using clz_step [of 2 v3 c4 v4 c3] 4 s3 by (simp_all add: clz_masks)
  have s5: "2 ^ 31 \<le> unat v5" "unat v5 = unat val * 2 ^ c5"
    using clz_step [of 1 v4 c5 v5 c4] 5 s4 by (simp_all add: clz_masks)
  have top: "v5 AND 0x80000000 \<noteq> 0" using s5(1) and_high_eq_0 [of v5 31] by (simp only: clz_masks)
  have "clz32 val = c5"
    unfolding clz32_def Let_def using top by (simp only: 1 [symmetric] 2 [symmetric] 3 [symmetric] 4 [symmetric] 5 [symmetric] prod.case if_False)
  moreover have "unat v5 < 2 ^ 32" using unsigned_less [of v5] by simp
  ultimately show ?thesis using s5 by simp
qed

lemma high_word_bounds:
  fixes V u c :: nat
  assumes u: "u = V div 2 ^ 32" and b: "2 ^ 31 \<le> u * 2 ^ c" "u * 2 ^ c < 2 ^ 32"
  shows "2 ^ 63 \<le> V * 2 ^ c" "V * 2 ^ c < 2 ^ 64"
proof -
  have "0 < u" using b(1) by (cases u) simp_all
  then have "2 ^ c \<le> u * 2 ^ c" by simp
  then have "(2::nat) ^ c < 2 ^ 32" using b(2) by linarith
  then have "c < 32" by (rule power_less_imp_less_exp [rotated]) simp
  then obtain k where k: "(2::nat) ^ 32 = k * 2 ^ c" by (metis less_imp_le power_add le_add_diff_inverse2)
  have "u < k" using b(2) unfolding k by simp
  then have le: "Suc u * 2 ^ c \<le> 2 ^ 32" unfolding k by (simp only: mult_le_mono1 Suc_leI)
  have v: "V < Suc u * 2 ^ 32" "u * 2 ^ 32 \<le> V"
    using dividend_less_times_div [of "2 ^ 32" V] times_div_less_eq_dividend [of "2 ^ 32" V] by (simp_all add: u)
  have "V * 2 ^ c < Suc u * 2 ^ 32 * 2 ^ c" using v(1) by (rule mult_strict_right_mono) simp
  also have "\<dots> = (Suc u * 2 ^ c) * 2 ^ 32" by (simp only: mult_ac)
  also have "\<dots> \<le> 2 ^ 32 * 2 ^ 32" using le by (rule mult_le_mono1)
  finally show "V * 2 ^ c < 2 ^ 64" by simp
  have "2 ^ 31 * 2 ^ 32 \<le> (u * 2 ^ c) * 2 ^ 32" using b(1) by (rule mult_le_mono1)
  also have "\<dots> = u * 2 ^ 32 * 2 ^ c" by (simp only: mult_ac)
  also have "\<dots> \<le> V * 2 ^ c" using v(2) by (rule mult_le_mono1)
  finally show "2 ^ 63 \<le> V * 2 ^ c" by simp
qed

lemma unat_ucast_small: "unat v < 2 ^ 32 \<Longrightarrow> unat (ucast (v :: u64) :: u32) = unat v"
  by (simp add: unsigned_ucast_eq take_bit_nat_eq_self_iff)

lemma clz64_bounds:
  assumes "val \<noteq> 0"
  shows "2 ^ 63 \<le> unat val * 2 ^ clz64 val \<and> unat val * 2 ^ clz64 val < 2 ^ 64"
proof -
  have ud: "unat (drop_bit 32 val) = unat val div 2 ^ 32"
    by (subst unat_drop_bit_eq) (simp add: drop_bit_eq_div)
  show ?thesis
  proof (cases "drop_bit 32 val = 0")
    case True
    then have "unat val < 2 ^ 32" using ud by (simp add: div_eq_0_iff)
    note u = unat_ucast_small [OF this]
    have "(ucast val :: u32) \<noteq> 0" using assms u by (metis unsigned_0 word_unat_eq_iff)
    from clz32_bounds [OF this] True show ?thesis by (simp add: clz64_def u power_add)
  next
    case False
    have "unat val < 2 ^ 64" using unsigned_less [of val] by simp
    then have u: "unat (ucast (drop_bit 32 val) :: u32) = unat val div 2 ^ 32"
      using unat_ucast_small [of "drop_bit 32 val"] ud by simp
    have "(ucast (drop_bit 32 val) :: u32) \<noteq> 0" using False ud u by (metis unsigned_0 word_unat_eq_iff)
    from clz32_bounds [OF this] have b: "2 ^ 31 \<le> unat val div 2 ^ 32 * 2 ^ clz64 val" "unat val div 2 ^ 32 * 2 ^ clz64 val < 2 ^ 32"
      using False by (simp_all only: clz64_def Let_def prod.case if_False add_0 u)
    then show ?thesis using high_word_bounds [OF refl b] by blast
  qed
qed

lemma and_low_eq_0: "v AND mask n = 0 \<longleftrightarrow> 2 ^ n dvd unat v" for v :: "'a::len word"
proof -
  have "v AND mask n = 0 \<longleftrightarrow> take_bit n (unat v) = 0"
    by (metis take_bit_eq_mask unsigned_0 unsigned_take_bit_eq word_unat_eq_iff)
  then show ?thesis by (simp add: take_bit_eq_mod mod_eq_0_iff_dvd)
qed

lemma ctz_masks:
  "(0x0000FFFF :: u32) = mask 16" "(0x000000FF :: u32) = mask 8" "(0x0000000F :: u32) = mask 4"
  "(0x00000003 :: u32) = mask 2" "(1 :: u32) = mask 1"
  by (simp_all add: mask_eq_exp_minus_1)

lemma ctz_step:
  fixes v :: u32
  assumes "m = mask k" and "\<not> 2 ^ (2 * k) dvd unat v"
    and "(c', v') = (if v AND m = 0 then (c + k, drop_bit k v) else (c, v))"
  shows "\<not> 2 ^ k dvd unat v'" "unat v' * 2 ^ c' = unat v * 2 ^ c"
proof -
  have "\<not> 2 ^ k dvd unat v' \<and> unat v' * 2 ^ c' = unat v * 2 ^ c"
  proof (cases "2 ^ k dvd unat v")
    case True
    then obtain q where q: "unat v = 2 ^ k * q" by (auto elim: dvdE)
    have "unat (drop_bit k v) = q" by (subst unat_drop_bit_eq) (simp add: drop_bit_eq_div q)
    then show ?thesis using assms True q by (auto simp: and_low_eq_0 power_add mult_2)
  qed (use assms in \<open>simp add: and_low_eq_0\<close>)
  then show "\<not> 2 ^ k dvd unat v'" "unat v' * 2 ^ c' = unat v * 2 ^ c" by auto
qed

lemma ctz32_odd:
  assumes "val \<noteq> 0"
  shows "\<exists>q. odd q \<and> unat val = q * 2 ^ ctz32 val"
proof -
  obtain c1 v1 where 1: "(c1 :: nat, v1) = (if val AND 0x0000FFFF = 0 then (16, drop_bit 16 val) else (0, val))" by (metis surj_pair)
  obtain c2 v2 where 2: "(c2, v2) = (if v1 AND 0x000000FF = 0 then (c1 + 8, drop_bit 8 v1) else (c1, v1))" by (metis surj_pair)
  obtain c3 v3 where 3: "(c3, v3) = (if v2 AND 0x0000000F = 0 then (c2 + 4, drop_bit 4 v2) else (c2, v2))" by (metis surj_pair)
  obtain c4 v4 where 4: "(c4, v4) = (if v3 AND 0x00000003 = 0 then (c3 + 2, drop_bit 2 v3) else (c3, v3))" by (metis surj_pair)
  obtain c5 v5 where 5: "(c5, v5) = (if v4 AND 0x00000001 = 0 then (c4 + 1, drop_bit 1 v4) else (c4, v4))" by (metis surj_pair)
  have "0 < unat val" "unat val < 2 ^ 32" using assms unsigned_less [of val] by (simp_all add: unat_gt_0)
  then have nd: "\<not> 2 ^ (2 * 16) dvd unat val" by (auto dest: dvd_imp_le)
  have 11: "(c1, v1) = (if val AND 0x0000FFFF = 0 then (0 + 16, drop_bit 16 val) else (0, val))"
    using 1 by (simp only: add_0)
  note s1 = ctz_step [OF ctz_masks(1) nd 11]
  have s2: "\<not> 2 ^ 8 dvd unat v2" "unat v2 * 2 ^ c2 = unat v1 * 2 ^ c1"
    by (rule ctz_step [OF ctz_masks(2) _ 2], use s1(1) in simp)+
  have s3: "\<not> 2 ^ 4 dvd unat v3" "unat v3 * 2 ^ c3 = unat v2 * 2 ^ c2"
    by (rule ctz_step [OF ctz_masks(3) _ 3], use s2(1) in simp)+
  have s4: "\<not> 2 ^ 2 dvd unat v4" "unat v4 * 2 ^ c4 = unat v3 * 2 ^ c3"
    by (rule ctz_step [OF ctz_masks(4) _ 4], use s3(1) in simp)+
  have s5: "\<not> 2 ^ 1 dvd unat v5" "unat v5 * 2 ^ c5 = unat v4 * 2 ^ c4"
    by (rule ctz_step [OF ctz_masks(5) _ 5], use s4(1) in simp)+
  have s6: "odd (unat v5)" "unat val = unat v5 * 2 ^ c5"
    using s5 s4(2) s3(2) s2(2) s1(2) by simp_all
  have "v5 AND 0x00000001 \<noteq> 0" using s5(1) and_low_eq_0 [of v5 1] by simp
  then have "ctz32 val = c5"
    unfolding ctz32_def Let_def by (simp only: 1 [symmetric] 2 [symmetric] 3 [symmetric] 4 [symmetric] 5 [symmetric] prod.case if_False)
  then show ?thesis using s6 by metis
qed

lemma odd_part_high:
  fixes hi q c :: nat
  assumes "odd q" "q * 2 ^ c < 2 ^ 32"
  shows "\<exists>r. odd r \<and> hi * 2 ^ 32 + q * 2 ^ c = r * 2 ^ c"
proof -
  have "2 ^ c \<le> q * 2 ^ c" using assms(1) by (cases q) auto
  then have "(2::nat) ^ c < 2 ^ 32" using assms(2) by linarith
  then have c: "c < 32" by (rule power_less_imp_less_exp [rotated]) simp
  then have "(2::nat) ^ 32 = 2 ^ (32 - c) * 2 ^ c" by (simp flip: power_add)
  then have "hi * 2 ^ 32 + q * 2 ^ c = (hi * 2 ^ (32 - c) + q) * 2 ^ c" by (simp only: algebra_simps)
  moreover have "odd (hi * 2 ^ (32 - c) + q)" using assms(1) c by simp
  ultimately show ?thesis by blast
qed

lemma ctz64_odd:
  assumes "val \<noteq> 0"
  shows "\<exists>q. odd q \<and> unat val = q * 2 ^ ctz64 val"
proof -
  let ?lo = "ucast val :: u32" and ?hi = "ucast (drop_bit 32 val) :: u32"
  have lo: "unat ?lo = unat val mod 2 ^ 32" by (simp add: unsigned_ucast_eq take_bit_eq_mod)
  have ud: "unat (drop_bit 32 val) = unat val div 2 ^ 32"
    by (subst unat_drop_bit_eq) (simp add: drop_bit_eq_div)
  have "unat val < 2 ^ 64" using unsigned_less [of val] by simp
  then have hi: "unat ?hi = unat val div 2 ^ 32"
    using unat_ucast_small [of "drop_bit 32 val"] ud by simp
  have v: "unat val = unat val div 2 ^ 32 * 2 ^ 32 + unat val mod 2 ^ 32" by simp
  show ?thesis
  proof (cases "?lo = 0")
    case True
    then have "unat val mod 2 ^ 32 = 0" using lo by simp
    then have e: "unat val = unat ?hi * 2 ^ 32" using v hi by (simp only: add_0_right)
    then have "?hi \<noteq> 0" using assms by (metis mult_0 unsigned_0 word_unat_eq_iff)
    from ctz32_odd [OF this] obtain q where "odd q" "unat ?hi = q * 2 ^ ctz32 ?hi" by blast
    then have "unat val = q * 2 ^ (32 + ctz32 ?hi)" using e by (simp add: power_add)
    then show ?thesis using \<open>odd q\<close> True by (auto simp: ctz64_def)
  next
    case False
    from ctz32_odd [OF this] obtain q where q: "odd q" "unat ?lo = q * 2 ^ ctz32 ?lo" by blast
    have "unat ?lo < 2 ^ 32" using unsigned_less [of ?lo] by simp
    then obtain r where "odd r" "unat val div 2 ^ 32 * 2 ^ 32 + q * 2 ^ ctz32 ?lo = r * 2 ^ ctz32 ?lo"
      using odd_part_high [OF q(1), of "ctz32 ?lo" "unat val div 2 ^ 32"] q(2) by auto
    moreover have "ctz64 val = ctz32 ?lo" using False by (simp add: ctz64_def)
    ultimately show ?thesis using v lo q(2) by metis
  qed
qed

lemma clz_zero: "clz32 0 = 32" "clz64 0 = 64" "ctz32 0 = 32" "ctz64 0 = 64"
  by (simp_all add: clz32_def clz64_def ctz32_def ctz64_def)

lemma clz64_le:
  assumes "val \<noteq> 0"
  shows "clz64 val \<le> 63" "2 ^ (63 - clz64 val) \<le> unat val" "unat val < 2 ^ (64 - clz64 val)"
proof -
  have b: "2 ^ 63 \<le> unat val * 2 ^ clz64 val" "unat val * 2 ^ clz64 val < 2 ^ 64" using clz64_bounds [OF assms] by auto
  have "0 < unat val" using assms by (simp add: unat_gt_0)
  then have "2 ^ clz64 val \<le> unat val * 2 ^ clz64 val" by simp
  then have "(2::nat) ^ clz64 val < 2 ^ 64" using b(2) by linarith
  then have c: "clz64 val < 64" by (rule power_less_imp_less_exp [rotated]) simp
  then show "clz64 val \<le> 63" by simp
  have "2 ^ (63 - clz64 val) * 2 ^ clz64 val = (2 ^ 63 :: nat)" "2 ^ (64 - clz64 val) * 2 ^ clz64 val = (2 ^ 64 :: nat)"
    using c by (simp_all flip: power_add)
  then show "2 ^ (63 - clz64 val) \<le> unat val" "unat val < 2 ^ (64 - clz64 val)"
    using b by (metis mult_le_cancel2 zero_less_power zero_less_numeral, metis mult_less_cancel2)
qed

section \<open>Powers of two\<close>

lemma unat_drop_top:
  assumes "c \<le> 63"
  shows "unat (drop_bit c (0x8000000000000000 :: u64)) = 2 ^ (63 - c)"
proof -
  have "unat (drop_bit c (0x8000000000000000 :: u64)) = 2 ^ 63 div 2 ^ c"
    by (subst unat_drop_bit_eq) (simp add: drop_bit_eq_div)
  then show ?thesis using assms by (simp only: power_diff [symmetric])
qed

lemma pow2floor_spec:
  "value \<noteq> 0 \<Longrightarrow> \<exists>k. unat (pow2floor value) = 2 ^ k \<and> 2 ^ k \<le> unat value \<and> unat value < 2 * 2 ^ k"
proof -
  assume nz: "value \<noteq> 0"
  note c = clz64_le [OF nz]
  have "64 - clz64 value = Suc (63 - clz64 value)" using c(1) by simp
  then show ?thesis using c(2,3) nz unat_drop_top [OF c(1)]
    by (intro exI [of _ "63 - clz64 value"]) (simp add: pow2floor_def)
qed

lemma pow2ceil_0: "pow2ceil 0 = 1"
proof -
  have "clz64 (- 1) = 0"
  proof (rule ccontr)
    assume "clz64 (- 1) \<noteq> 0"
    then have "(2::nat) ^ (64 - clz64 (- 1)) \<le> 2 ^ 63" by (intro power_increasing) auto
    moreover have "unat (- 1 :: u64) = 18446744073709551615" by (simp add: unsigned_minus_1_eq_mask mask_eq_exp_minus_1)
    ultimately show False using clz64_le(3) [of "- 1"] by simp
  qed
  then show ?thesis by (simp add: pow2ceil_def)
qed

lemma pow2ceil_overflow:
  assumes a: "2 ^ 63 < unat value"
  shows "pow2ceil value = 0"
proof -
  have nz: "value \<noteq> 0" using a by auto
  then have u: "unat (value - 1) = unat value - 1" by (simp add: unat_minus_one)
  define w where "w = value - 1"
  have w: "2 ^ 63 \<le> unat w" using a u by (simp add: w_def)
  then have "w \<noteq> 0" by (cases "w = 0") simp_all
  then have "(2::nat) ^ 63 < 2 ^ (64 - clz64 w)" using clz64_le(3) [of w] w by linarith
  then have "63 < 64 - clz64 w" by (rule power_less_imp_less_exp [rotated]) simp
  then have "clz64 w = 0" by simp
  then show ?thesis using nz by (simp add: pow2ceil_def flip: w_def)
qed

lemma pow2ceil_spec:
  assumes nz: "value \<noteq> 0" and le: "unat value \<le> 2 ^ 63"
  shows "\<exists>k. unat (pow2ceil value) = 2 ^ k \<and> unat value \<le> 2 ^ k \<and> 2 ^ k < 2 * unat value"
proof (cases "value = 1")
  case True
  then show ?thesis using unat_drop_top [of 63] by (intro exI [of _ 0]) (simp add: pow2ceil_def clz_zero)
next
  case False
  define w where "w = value - 1"
  have u: "unat w = unat value - 1" using nz by (simp add: w_def unat_minus_one)
  have pos: "0 < unat value" using nz by (simp add: unat_gt_0)
  have "w \<noteq> 0" using False by (simp add: w_def)
  note c = clz64_le [OF this]
  have "2 ^ (63 - clz64 w) < (2 ^ 63 :: nat)" using c(2) u le pos by linarith
  then have "63 - clz64 w < 63" by (rule power_less_imp_less_exp [rotated]) simp
  then have n: "0 < clz64 w" "64 - clz64 w = Suc (63 - clz64 w)" "63 - (clz64 w - 1) = 64 - clz64 w" using c(1) by auto
  have "unat (pow2ceil value) = 2 ^ (64 - clz64 w)"
    using n(1,3) unat_drop_top [of "clz64 w - 1"] c(1) by (simp add: pow2ceil_def flip: w_def)
  moreover have "unat value \<le> 2 ^ (64 - clz64 w)" "2 ^ (64 - clz64 w) < 2 * unat value"
    using c(2,3) u pos unfolding n(2) power_Suc by linarith+
  ultimately show ?thesis by blast
qed

lemma odd_times_power:
  assumes "odd q"
  shows "(\<exists>k. q * 2 ^ c = (2::nat) ^ k) \<longleftrightarrow> q = 1"
proof
  assume "\<exists>k. q * 2 ^ c = (2::nat) ^ k"
  then obtain k where k: "q * 2 ^ c = 2 ^ k" by blast
  have "c \<le> k"
  proof (rule ccontr)
    assume "\<not> c \<le> k"
    then have "(2::nat) ^ k < 2 ^ c" by simp
    also have "\<dots> \<le> q * 2 ^ c" using assms by (cases q) auto
    finally show False using k by simp
  qed
  then have "(2::nat) ^ k = 2 ^ (k - c) * 2 ^ c" by (simp flip: power_add)
  then have "q = 2 ^ (k - c)" using k by simp
  then show "q = 1" using assms by (cases "k - c") auto
qed auto

lemma odd_and_pred: "(2 * r + 1) AND (2 * r) = 2 * r" for r :: nat
proof -
  have "bit (1 + 2 * r) n \<longleftrightarrow> bit (2 * r) n \<or> n = 0" for n by (rule even_bit_succ_iff) simp
  then have "bit (2 * r + 1) n \<longleftrightarrow> bit (2 * r) n \<or> n = 0" for n by (simp only: add.commute)
  then show ?thesis by (simp only: bit_eq_iff bit_and_iff) blast
qed

lemma nat_and_or: "a AND (b OR c) = (a AND b) OR (a AND c)" for a :: nat
  by (simp only: bit_eq_iff bit_and_iff bit_or_iff) blast

lemma is_power_of_2_spec: "is_power_of_2 value \<longleftrightarrow> (\<exists>k. unat value = 2 ^ k)"
proof (cases "value = 0")
  case False
  obtain q where q: "odd q" "unat value = q * 2 ^ ctz64 value" using ctz64_odd [OF False] by blast
  let ?c = "ctz64 value"
  obtain r where r: "q = 2 * r + 1" using q(1) by (auto elim: oddE)
  have "unat (value - 1) = (2 * r) * 2 ^ ?c + (2 ^ ?c - 1)"
    using False q(2) by (simp add: unat_minus_one r algebra_simps)
  also have "\<dots> = push_bit ?c (2 * r) + mask ?c" by (simp add: push_bit_eq_mult mask_eq_exp_minus_1)
  also have "\<dots> = push_bit ?c (2 * r) OR mask ?c" by (rule disjunctive_add) (simp add: bit_push_bit_iff bit_mask_iff)
  finally have p: "unat (value - 1) = push_bit ?c (2 * r) OR mask ?c" .
  have v: "unat value = push_bit ?c q" using q(2) by (simp add: push_bit_eq_mult)
  have "push_bit ?c q AND mask ?c = 0" by (rule bit_eqI) (simp add: bit_simps)
  then have "unat (value AND (value - 1)) = push_bit ?c (q AND 2 * r)"
    by (simp only: unsigned_and_eq p v nat_and_or push_bit_and or.right_neutral)
  then have "unat (value AND (value - 1)) = push_bit ?c (2 * r)" by (simp only: r odd_and_pred)
  then have "value AND (value - 1) = 0 \<longleftrightarrow> q = 1"
    by (simp add: r push_bit_eq_mult flip: unat_eq_0)
  then show ?thesis using False odd_times_power [OF q(1), of ?c] q(2) by (simp add: is_power_of_2_def)
qed (simp add: is_power_of_2_def)

end
