(* ===== verification/Bitmap.thy ===== *)
theory Bitmap
  imports Bit_Props
begin

text \<open>
  Bitmaps: \<open>qemu/util/bitops.c\<close>, \<open>qemu/util/bitmap.c\<close> and the inline functions of
  \<open>qemu/include/qemu/bitmap.h\<close> and \<open>bitops.h\<close>, for a host with 64-bit \<open>unsigned long\<close> and
  little-endian words.

  An array of \<open>unsigned long\<close> is a function from indices to words; an operation that writes
  returns the new array. Where the code passes the same array as source and destination of
  an element-wise operation, both arguments are the same function. Bit counts are natural
  numbers, or integers where the code asserts that they are not negative; a failed assertion
  is \<open>None\<close>. The atomic variants are modelled without concurrent writers.
\<close>

type_synonym bitmap = "nat \<Rightarrow> u64"

section \<open>Single bits\<close>

definition BIT_MASK :: "nat \<Rightarrow> u64" where
  "BIT_MASK nr = push_bit (nr mod 64) 1"

definition set_bit_ul :: "nat \<Rightarrow> bitmap \<Rightarrow> bitmap" where
  "set_bit_ul nr addr = addr(nr div 64 := addr (nr div 64) OR BIT_MASK nr)"

definition clear_bit :: "nat \<Rightarrow> bitmap \<Rightarrow> bitmap" where
  "clear_bit nr addr = addr(nr div 64 := addr (nr div 64) AND NOT (BIT_MASK nr))"

definition change_bit :: "nat \<Rightarrow> bitmap \<Rightarrow> bitmap" where
  "change_bit nr addr = addr(nr div 64 := addr (nr div 64) XOR BIT_MASK nr)"

definition test_and_set_bit :: "nat \<Rightarrow> bitmap \<Rightarrow> bool \<times> bitmap" where
  "test_and_set_bit nr addr =
     (let old = addr (nr div 64) in (old AND BIT_MASK nr \<noteq> 0, addr(nr div 64 := old OR BIT_MASK nr)))"

definition test_and_clear_bit :: "nat \<Rightarrow> bitmap \<Rightarrow> bool \<times> bitmap" where
  "test_and_clear_bit nr addr =
     (let old = addr (nr div 64) in (old AND BIT_MASK nr \<noteq> 0, addr(nr div 64 := old AND NOT (BIT_MASK nr))))"

definition test_and_change_bit :: "nat \<Rightarrow> bitmap \<Rightarrow> bool \<times> bitmap" where
  "test_and_change_bit nr addr =
     (let old = addr (nr div 64) in (old AND BIT_MASK nr \<noteq> 0, addr(nr div 64 := old XOR BIT_MASK nr)))"

definition test_bit :: "nat \<Rightarrow> bitmap \<Rightarrow> bool" where
  "test_bit nr addr = (1 AND drop_bit (nr mod 64) (addr (nr div 64)) \<noteq> 0)"

section \<open>Searching\<close>

definition found_first :: "u64 \<Rightarrow> nat \<Rightarrow> nat \<Rightarrow> nat" where
  "found_first tmp sz result =
     (let tmp = tmp AND drop_bit (64 - sz) (NOT 0)
      in if tmp = 0 then result + sz else result + ctz64 tmp)"

text \<open>The loop over single words, and the unrolled one over four words in front of it.\<close>

function find_next_words :: "bitmap \<Rightarrow> nat \<Rightarrow> nat \<Rightarrow> nat \<Rightarrow> nat" where
  "find_next_words addr p result sz =
     (if sz \<ge> 64 then
        (if addr p \<noteq> 0 then result + ctz64 (addr p)
         else find_next_words addr (p + 1) (result + 64) (sz - 64))
      else if sz = 0 then result
      else found_first (addr p) sz result)"
  by pat_completeness auto
termination by (relation "measure (\<lambda>(_, _, _, sz). sz)") auto

function find_next_quads :: "bitmap \<Rightarrow> nat \<Rightarrow> nat \<Rightarrow> nat \<Rightarrow> nat" where
  "find_next_quads addr p result sz =
     (if sz \<ge> 4 * 64 then
        (if addr p \<noteq> 0 then result + ctz64 (addr p)
         else if addr (p + 1) OR addr (p + 2) OR addr (p + 3) \<noteq> 0 then find_next_words addr p result sz
         else find_next_quads addr (p + 4) (result + 4 * 64) (sz - 4 * 64))
      else find_next_words addr p result sz)"
  by pat_completeness auto
termination by (relation "measure (\<lambda>(_, _, _, sz). sz)") auto

declare find_next_words.simps [simp del] find_next_quads.simps [simp del]

definition find_next_bit :: "bitmap \<Rightarrow> nat \<Rightarrow> nat \<Rightarrow> nat" where
  "find_next_bit addr sz offset =
     (let p = offset div 64; result = offset - offset mod 64
      in if offset \<ge> sz then sz
         else
           (let sz = sz - result; offset = offset mod 64
            in if offset \<noteq> 0 then
                 (let tmp = addr p AND push_bit offset (NOT 0)
                  in if sz < 64 then found_first tmp sz result
                     else if tmp \<noteq> 0 then result + ctz64 tmp
                     else find_next_quads addr (p + 1) (result + 64) (sz - 64))
               else find_next_quads addr p result sz))"

definition found_first_zero :: "u64 \<Rightarrow> nat \<Rightarrow> nat \<Rightarrow> nat" where
  "found_first_zero tmp sz result =
     (let tmp = tmp OR push_bit sz (NOT 0)
      in if tmp = NOT 0 then result + sz else result + ctz64 (NOT tmp))"

function find_next_zero_words :: "bitmap \<Rightarrow> nat \<Rightarrow> nat \<Rightarrow> nat \<Rightarrow> nat" where
  "find_next_zero_words addr p result sz =
     (if sz - sz mod 64 \<noteq> 0 then
        (if NOT (addr p) \<noteq> 0 then result + ctz64 (NOT (addr p))
         else find_next_zero_words addr (p + 1) (result + 64) (sz - 64))
      else if sz = 0 then result
      else found_first_zero (addr p) sz result)"
  by pat_completeness auto
termination
  by (relation "measure (\<lambda>(_, _, _, sz). sz)") (auto dest: gr0I)

declare find_next_zero_words.simps [simp del]

definition find_next_zero_bit :: "bitmap \<Rightarrow> nat \<Rightarrow> nat \<Rightarrow> nat" where
  "find_next_zero_bit addr sz offset =
     (let p = offset div 64; result = offset - offset mod 64
      in if offset \<ge> sz then sz
         else
           (let sz = sz - result; offset = offset mod 64
            in if offset \<noteq> 0 then
                 (let tmp = addr p OR drop_bit (64 - offset) (NOT 0)
                  in if sz < 64 then found_first_zero tmp sz result
                     else if NOT tmp \<noteq> 0 then result + ctz64 (NOT tmp)
                     else find_next_zero_words addr (p + 1) (result + 64) (sz - 64))
               else find_next_zero_words addr p result sz))"

fun find_last_words :: "bitmap \<Rightarrow> nat \<Rightarrow> nat \<Rightarrow> nat" where
  "find_last_words addr sz 0 = sz"
| "find_last_words addr sz (Suc words) =
     (if addr words \<noteq> 0 then words * 64 + 64 - 1 - clz64 (addr words) else find_last_words addr sz words)"

definition find_last_bit :: "bitmap \<Rightarrow> nat \<Rightarrow> nat" where
  "find_last_bit addr sz =
     (let words = sz div 64;
          tmp = addr words AND drop_bit (64 - sz mod 64) (NOT 0)
      in if sz mod 64 \<noteq> 0 \<and> tmp \<noteq> 0 then words * 64 + 64 - 1 - clz64 tmp
         else find_last_words addr sz words)"

function find_first_words :: "bitmap \<Rightarrow> nat \<Rightarrow> nat \<Rightarrow> nat \<Rightarrow> nat" where
  "find_first_words addr p result sz =
     (if result < sz then
        (if addr p \<noteq> 0 then (let r = result + ctz64 (addr p) in if r < sz then r else sz)
         else find_first_words addr (p + 1) (result + 64) sz)
      else sz)"
  by pat_completeness auto
termination by (relation "measure (\<lambda>(_, _, result, sz). sz - result)") auto

declare find_first_words.simps [simp del]

definition find_first_bit :: "bitmap \<Rightarrow> nat \<Rightarrow> nat" where
  "find_first_bit addr sz = find_first_words addr 0 0 sz"

definition find_first_zero_bit :: "bitmap \<Rightarrow> nat \<Rightarrow> nat" where
  "find_first_zero_bit addr sz = find_next_zero_bit addr sz 0"

end
