(* ===== verification/Bitmap_Search.thy ===== *)
theory Bitmap_Search
  imports Bitmap
begin

text \<open>
  The word-wise searches find the same bit as a scan of the bits one by one.
\<close>

abbreviation bm :: "bitmap \<Rightarrow> nat \<Rightarrow> bool" where
  "bm addr i \<equiv> bit (addr (i div 64)) (i mod 64)"

lemma test_bit_eq [simp]: "test_bit i addr = bm addr i"
  by (simp add: test_bit_def bit_iff_odd_drop_bit and_one_eq one_and_eq odd_iff_mod_2_eq_one)

section \<open>Zeros as bits\<close>

lemma ctz64_bits:
  assumes "w \<noteq> 0"
  shows "bit w (ctz64 w)" "\<And>j. j < ctz64 w \<Longrightarrow> \<not> bit w j" "ctz64 w < 64"
proof -
  obtain q where q: "odd q" "unat w = q * 2 ^ ctz64 w" using ctz64_odd [OF assms] by blast
  have u: "bit w j \<longleftrightarrow> bit (push_bit (ctz64 w) q) j" for j
    using q(2) by (metis bit_unsigned_iff bit_imp_possible_bit possible_bit_nat push_bit_eq_mult UNIV_I)
  show b: "bit w (ctz64 w)" using q(1) by (simp add: u bit_push_bit_iff bit_0)
  then show "ctz64 w < 64" using bit_imp_le_length [of w] by simp
  show "\<not> bit w j" if "j < ctz64 w" for j using that by (simp add: u bit_push_bit_iff)
qed

lemma clz64_bits:
  assumes "w \<noteq> 0"
  shows "clz64 w \<le> 63" "bit w (63 - clz64 w)" "\<And>j. 63 - clz64 w < j \<Longrightarrow> \<not> bit w j"
proof -
  note c = clz64_le [OF assms]
  show "clz64 w \<le> 63" by (rule c(1))
  have s: "64 - clz64 w = Suc (63 - clz64 w)" using c(1) by simp
  have u: "bit w j \<longleftrightarrow> bit (unat w) j" for j by (simp add: bit_unsigned_iff)
  show "\<not> bit w j" if "63 - clz64 w < j" for j
  proof -
    have "unat w < 2 ^ j" using c(3) that s by (metis Suc_leI less_le_trans one_le_numeral power_increasing)
    then show ?thesis by (subst u, subst bit_iff_odd) simp
  qed
  have "unat w div 2 ^ (63 - clz64 w) = 1"
    using c(2,3) unfolding s by (simp add: div_nat_eqI)
  then show "bit w (63 - clz64 w)" by (subst u, subst bit_iff_odd) simp
qed

section \<open>First hits\<close>

definition first_hit :: "(nat \<Rightarrow> bool) \<Rightarrow> nat \<Rightarrow> nat \<Rightarrow> nat \<Rightarrow> bool" where
  "first_hit P lo hi r \<longleftrightarrow> lo \<le> r \<and> r \<le> hi \<and> (\<forall>i. lo \<le> i \<and> i < r \<longrightarrow> \<not> P i) \<and> (r < hi \<longrightarrow> P r)"

lemma first_hit_find:
  assumes "first_hit P lo hi r"
  shows "r = (case find P [lo..<hi] of None \<Rightarrow> hi | Some i \<Rightarrow> i)"
proof (cases "r < hi")
  case True
  have "find P [lo..<hi] = Some r"
    unfolding find_Some_iff
    by (rule exI [of _ "r - lo"]) (use assms True in \<open>auto simp: first_hit_def\<close>)
  then show ?thesis by simp
next
  case False
  then have "find P [lo..<hi] = None" using assms by (auto simp: find_None_iff first_hit_def)
  then show ?thesis using assms False by (auto simp: first_hit_def)
qed

lemma first_hit_skip:
  "first_hit P m hi r \<Longrightarrow> lo \<le> m \<Longrightarrow> (\<And>i. lo \<le> i \<Longrightarrow> i < m \<Longrightarrow> \<not> P i) \<Longrightarrow> first_hit P lo hi r"
  unfolding first_hit_def by (metis le_trans not_le)

lemma first_hit_from: "first_hit (\<lambda>i. lo \<le> i \<and> P i) b hi r \<Longrightarrow> b \<le> lo \<Longrightarrow> lo \<le> hi \<Longrightarrow> first_hit P lo hi r"
  unfolding first_hit_def by (metis le_neq_implies_less le_trans not_le)

lemma first_hit_weaken: "first_hit P b hi r \<Longrightarrow> lo \<le> b \<Longrightarrow> first_hit (\<lambda>i. lo \<le> i \<and> P i) b hi r"
  by (auto simp: first_hit_def)

lemma first_hit_word:
  assumes "w \<noteq> 0" and "\<And>j. j < 64 \<Longrightarrow> bit w j \<longleftrightarrow> P (base + j)" and "base + 64 \<le> hi"
  shows "first_hit P base hi (base + ctz64 w)"
  unfolding first_hit_def
proof (intro conjI allI impI)
  note c = ctz64_bits [OF assms(1)]
  show "base + ctz64 w \<le> hi" using c(3) assms(3) by simp
  show "P (base + ctz64 w)" using c(1,3) assms(2) by blast
  fix i assume "base \<le> i \<and> i < base + ctz64 w"
  then have "i - base < ctz64 w" "i - base < 64" "base + (i - base) = i" using c(3) by linarith+
  then show "\<not> P i" using c(2) assms(2) by metis
qed simp

lemma first_hit_last_word:
  assumes "\<And>j. j < sz \<Longrightarrow> bit w j \<longleftrightarrow> P (base + j)" and "0 < sz" "sz < 64"
  shows "first_hit P base (base + sz) (found_first w sz base)"
proof -
  define t where "t = w AND drop_bit (64 - sz) (NOT 0)"
  have t: "bit t j \<longleftrightarrow> j < sz \<and> bit w j" for j
    using assms(2,3) by (auto simp: t_def bit_simps dest: bit_imp_le_length)
  have ff: "found_first w sz base = (if t = 0 then base + sz else base + ctz64 t)"
    by (simp only: found_first_def Let_def t_def)
  show ?thesis
  proof (cases "t = 0")
    case True
    then have "\<not> bit t j" for j by simp
    then have "\<not> P i" if "base \<le> i" "i < base + sz" for i
      using that t [of "i - base"] assms(1) [of "i - base"] by simp
    then show ?thesis using True by (simp add: ff first_hit_def)
  next
    case False
    note c = ctz64_bits [OF False]
    have "ctz64 t < sz" using c(1) by (simp add: t)
    moreover have "\<not> P i" if "base \<le> i" "i < base + ctz64 t" for i
      using that c(2) [of "i - base"] t [of "i - base"] assms(1) [of "i - base"] calculation by auto
    moreover have "P (base + ctz64 t)" using c(1) assms(1) t by blast
    ultimately show ?thesis using False by (simp add: ff first_hit_def)
  qed
qed

section \<open>Forward searches\<close>

lemma find_next_words_hit:
  "first_hit (bm addr) (64 * p) (64 * p + sz) (find_next_words addr p (64 * p) sz)"
proof (induction sz arbitrary: p rule: less_induct)
  case (less sz)
  show ?case
  proof (cases "sz \<ge> 64")
    case True
    show ?thesis
    proof (cases "addr p = 0")
      case False
      have "first_hit (bm addr) (64 * p) (64 * p + sz) (64 * p + ctz64 (addr p))"
        by (rule first_hit_word [OF False]) (use True in auto)
      then show ?thesis using True False by (subst find_next_words.simps) simp
    next
      case zero: True
      have "first_hit (bm addr) (64 * Suc p) (64 * Suc p + (sz - 64)) (find_next_words addr (Suc p) (64 * Suc p) (sz - 64))"
        using True by (intro less) auto
      then have "first_hit (bm addr) (64 * Suc p) (64 * p + sz) (find_next_words addr (Suc p) (64 * Suc p) (sz - 64))"
        using True by simp
      then have "first_hit (bm addr) (64 * p) (64 * p + sz) (find_next_words addr (Suc p) (64 * Suc p) (sz - 64))"
        by (rule first_hit_skip) (use zero in \<open>auto simp: div_nat_eqI\<close>)
      then show ?thesis using True zero by (subst find_next_words.simps) (simp add: add.commute)
    qed
  next
    case False
    then show ?thesis
      using first_hit_last_word [of sz "addr p" "bm addr" "64 * p"]
      by (subst find_next_words.simps) (auto simp: first_hit_def)
  qed
qed


lemma word_free: "(addr :: bitmap) p = 0 \<Longrightarrow> 64 * p \<le> i \<Longrightarrow> i < 64 * p + 64 \<Longrightarrow> \<not> bm addr i"
  by (simp add: div_nat_eqI)

lemma find_next_quads_hit:
  "first_hit (bm addr) (64 * p) (64 * p + sz) (find_next_quads addr p (64 * p) sz)"
proof (induction sz arbitrary: p rule: less_induct)
  case (less sz)
  show ?case
  proof (cases "sz \<ge> 4 * 64 \<and> addr p = 0 \<and> addr (p + 1) OR addr (p + 2) OR addr (p + 3) = 0")
    case True
    then have z: "addr p = 0" "addr (p + 1) = 0" "addr (p + 2) = 0" "addr (p + 3) = 0"
      by (auto simp: or_eq_0_iff)
    have "first_hit (bm addr) (64 * (p + 4)) (64 * (p + 4) + (sz - 4 * 64)) (find_next_quads addr (p + 4) (64 * (p + 4)) (sz - 4 * 64))"
      using True by (intro less) auto
    then have "first_hit (bm addr) (64 * (p + 4)) (64 * p + sz) (find_next_quads addr (p + 4) (64 * p + 4 * 64) (sz - 4 * 64))"
      using True by simp
    then have "first_hit (bm addr) (64 * p) (64 * p + sz) (find_next_quads addr (p + 4) (64 * p + 4 * 64) (sz - 4 * 64))"
    proof (rule first_hit_skip)
      fix i assume "64 * p \<le> i" "i < 64 * (p + 4)"
      then have "i < 64 * p + 64 \<or> 64 * (p + 1) \<le> i \<and> i < 64 * (p + 1) + 64
        \<or> 64 * (p + 2) \<le> i \<and> i < 64 * (p + 2) + 64 \<or> 64 * (p + 3) \<le> i \<and> i < 64 * (p + 3) + 64" by presburger
      then show "\<not> bm addr i" using z word_free [of addr _ i] \<open>64 * p \<le> i\<close> by blast
    qed simp
    then show ?thesis using True z by (subst find_next_quads.simps) simp
  next
    case False
    have "find_next_quads addr p (64 * p) sz = find_next_words addr p (64 * p) sz"
      using False by (subst find_next_quads.simps) (auto simp: find_next_words.simps)
    then show ?thesis using find_next_words_hit by simp
  qed
qed

lemma find_next_bit_hit:
  assumes "offset < sz"
  shows "first_hit (bm addr) offset sz (find_next_bit addr sz offset)"
proof -
  define p r where "p = offset div 64" and "r = offset mod 64"
  have o: "offset = 64 * p + r" "r < 64" "offset - offset mod 64 = 64 * p"
    using minus_mod_eq_mult_div [of offset 64] by (simp_all add: p_def r_def)
  show ?thesis
  proof (cases "r = 0")
    case True
    have "find_next_bit addr sz offset = find_next_quads addr p (64 * p) (sz - 64 * p)"
      using True assms o(3) by (simp add: find_next_bit_def Let_def p_def r_def)
    then show ?thesis using find_next_quads_hit [of addr p "sz - 64 * p"] True o assms by simp
  next
    case False
    define tmp where "tmp = addr p AND push_bit r (NOT 0)"
    let ?P = "\<lambda>i. offset \<le> i \<and> bm addr i"
    have t: "bit tmp j \<longleftrightarrow> ?P (64 * p + j)" if "j < 64" for j
      using that o by (auto simp: tmp_def bit_simps)
    have e: "find_next_bit addr sz offset = (if sz - 64 * p < 64 then found_first tmp (sz - 64 * p) (64 * p)
        else if tmp \<noteq> 0 then 64 * p + ctz64 tmp
        else find_next_quads addr (p + 1) (64 * p + 64) (sz - 64 * p - 64))"
      using False assms o(3) by (simp only: find_next_bit_def Let_def p_def [symmetric] r_def [symmetric] tmp_def [symmetric] if_False if_True not_le) simp
    have "first_hit ?P (64 * p) sz (find_next_bit addr sz offset)"
    proof (cases "sz - 64 * p < 64")
      case True
      have "first_hit ?P (64 * p) (64 * p + (sz - 64 * p)) (found_first tmp (sz - 64 * p) (64 * p))"
        by (rule first_hit_last_word) (use t True assms o in auto)
      then show ?thesis using True e assms o by simp
    next
      case big: False
      show ?thesis
      proof (cases "tmp = 0")
        case True
        then have z: "\<not> ?P i" if "64 * p \<le> i" "i < 64 * (p + 1)" for i
          using t [of "i - 64 * p"] that by simp
        have s: "64 * (p + 1) = 64 * p + 64" "64 * p + 64 + (sz - 64 * p - 64) = sz" using big by auto
        have "first_hit (bm addr) (64 * p + 64) sz (find_next_quads addr (p + 1) (64 * p + 64) (sz - 64 * p - 64))"
          using find_next_quads_hit [of addr "p + 1" "sz - 64 * p - 64"] unfolding s .
        then have "first_hit ?P (64 * p + 64) sz (find_next_bit addr sz offset)"
          unfolding e using True big o by (simp add: first_hit_weaken)
        then show ?thesis by (rule first_hit_skip) (use z in auto)
      next
        case nz: False
        have "first_hit ?P (64 * p) sz (64 * p + ctz64 tmp)"
          by (rule first_hit_word [OF nz]) (use t big in auto)
        then show ?thesis using e nz big by simp
      qed
    qed
    then show ?thesis by (rule first_hit_from) (use o assms in auto)
  qed
qed


section \<open>Zero bits\<close>

lemma found_first_zero_eq: "0 < sz \<Longrightarrow> sz < 64 \<Longrightarrow> found_first_zero tmp sz result = found_first (NOT tmp) sz result"
proof -
  assume "0 < sz" "sz < 64"
  then have e: "NOT (tmp OR push_bit sz (NOT 0)) = NOT tmp AND drop_bit (64 - sz) (NOT 0 :: u64)"
    by (intro bit_word_eqI) (auto simp: bit_simps)
  have "tmp OR push_bit sz (NOT 0) = NOT 0 \<longleftrightarrow> NOT (tmp OR push_bit sz (NOT 0)) = 0"
    by (metis bit.double_compl bit.compl_zero)
  then show ?thesis unfolding found_first_zero_def found_first_def Let_def e by (simp only:)
qed

lemma find_next_zero_words_hit:
  "first_hit (\<lambda>i. \<not> bm addr i) (64 * p) (64 * p + sz) (find_next_zero_words addr p (64 * p) sz)"
proof (induction sz arbitrary: p rule: less_induct)
  case (less sz)
  have c: "sz - sz mod 64 \<noteq> 0 \<longleftrightarrow> sz \<ge> 64"
    by (cases "sz < 64") (simp_all add: minus_mod_eq_mult_div div_greater_zero_iff)
  have w: "bit (NOT (addr p)) j \<longleftrightarrow> \<not> bm addr (64 * p + j)" if "j < 64" for j
    using that by (simp add: bit_not_iff)
  show ?case
  proof (cases "sz \<ge> 64")
    case True
    show ?thesis
    proof (cases "NOT (addr p) = 0")
      case False
      have "first_hit (\<lambda>i. \<not> bm addr i) (64 * p) (64 * p + sz) (64 * p + ctz64 (NOT (addr p)))"
        by (rule first_hit_word [OF False w]) (use True in auto)
      then show ?thesis using True False c by (subst find_next_zero_words.simps) simp
    next
      case full: True
      have b: "bm addr i" if "64 * p \<le> i" "i < 64 * Suc p" for i
        using w [of "i - 64 * p"] that full by simp
      have "first_hit (\<lambda>i. \<not> bm addr i) (64 * Suc p) (64 * Suc p + (sz - 64)) (find_next_zero_words addr (Suc p) (64 * Suc p) (sz - 64))"
        using True by (intro less) auto
      then have "first_hit (\<lambda>i. \<not> bm addr i) (64 * Suc p) (64 * p + sz) (find_next_zero_words addr (Suc p) (64 * Suc p) (sz - 64))"
        using True by simp
      then have "first_hit (\<lambda>i. \<not> bm addr i) (64 * p) (64 * p + sz) (find_next_zero_words addr (Suc p) (64 * Suc p) (sz - 64))"
        by (rule first_hit_skip) (use b in auto)
      then show ?thesis using True full c by (subst find_next_zero_words.simps) (simp add: add.commute)
    qed
  next
    case False
    show ?thesis
    proof (cases "sz = 0")
      case True
      then show ?thesis by (subst find_next_zero_words.simps) (auto simp: first_hit_def)
    next
      case pos: False
      have "first_hit (\<lambda>i. \<not> bm addr i) (64 * p) (64 * p + sz) (found_first (NOT (addr p)) sz (64 * p))"
        by (rule first_hit_last_word) (use w pos False in auto)
      then show ?thesis using False pos c by (subst find_next_zero_words.simps) (simp add: found_first_zero_eq)
    qed
  qed
qed

lemma find_next_zero_bit_hit:
  assumes "offset < sz"
  shows "first_hit (\<lambda>i. \<not> bm addr i) offset sz (find_next_zero_bit addr sz offset)"
proof -
  define p r where "p = offset div 64" and "r = offset mod 64"
  have o: "offset = 64 * p + r" "r < 64" "offset - offset mod 64 = 64 * p"
    using minus_mod_eq_mult_div [of offset 64] by (simp_all add: p_def r_def)
  show ?thesis
  proof (cases "r = 0")
    case True
    have "find_next_zero_bit addr sz offset = find_next_zero_words addr p (64 * p) (sz - 64 * p)"
      using True assms o(3) by (simp add: find_next_zero_bit_def Let_def p_def r_def)
    then show ?thesis using find_next_zero_words_hit [of addr p "sz - 64 * p"] True o assms by simp
  next
    case False
    define tmp where "tmp = addr p OR drop_bit (64 - r) (NOT 0)"
    let ?P = "\<lambda>i. offset \<le> i \<and> \<not> bm addr i"
    have t: "bit (NOT tmp) j \<longleftrightarrow> ?P (64 * p + j)" if "j < 64" for j
      using that o False by (auto simp: tmp_def bit_simps)
    have e: "find_next_zero_bit addr sz offset = (if sz - 64 * p < 64 then found_first_zero tmp (sz - 64 * p) (64 * p)
        else if NOT tmp \<noteq> 0 then 64 * p + ctz64 (NOT tmp)
        else find_next_zero_words addr (p + 1) (64 * p + 64) (sz - 64 * p - 64))"
      using False assms o(3) by (simp only: find_next_zero_bit_def Let_def p_def [symmetric] r_def [symmetric] tmp_def [symmetric] if_False if_True not_le) simp
    have "first_hit ?P (64 * p) sz (find_next_zero_bit addr sz offset)"
    proof (cases "sz - 64 * p < 64")
      case True
      have "first_hit ?P (64 * p) (64 * p + (sz - 64 * p)) (found_first (NOT tmp) (sz - 64 * p) (64 * p))"
        by (rule first_hit_last_word) (use t True assms o in auto)
      then show ?thesis using True e assms o by (simp add: found_first_zero_eq)
    next
      case big: False
      show ?thesis
      proof (cases "NOT tmp = 0")
        case True
        then have z: "\<not> ?P i" if "64 * p \<le> i" "i < 64 * (p + 1)" for i
          using t [of "i - 64 * p"] that by simp
        have s: "64 * (p + 1) = 64 * p + 64" "64 * p + 64 + (sz - 64 * p - 64) = sz" using big by auto
        have "first_hit (\<lambda>i. \<not> bm addr i) (64 * p + 64) sz (find_next_zero_words addr (p + 1) (64 * p + 64) (sz - 64 * p - 64))"
          using find_next_zero_words_hit [of addr "p + 1" "sz - 64 * p - 64"] unfolding s .
        then have "first_hit ?P (64 * p + 64) sz (find_next_zero_bit addr sz offset)"
          unfolding e using True big o by (simp add: first_hit_weaken)
        then show ?thesis by (rule first_hit_skip) (use z in auto)
      next
        case nz: False
        have "first_hit ?P (64 * p) sz (64 * p + ctz64 (NOT tmp))"
          by (rule first_hit_word [OF nz]) (use t big in auto)
        then show ?thesis using e nz big by simp
      qed
    qed
    then show ?thesis by (rule first_hit_from) (use o assms in auto)
  qed
qed

section \<open>First and last bit\<close>

lemma find_first_words_hit:
  "64 * p < sz \<Longrightarrow> first_hit (bm addr) (64 * p) sz (find_first_words addr p (64 * p) sz)"
proof (induction "sz - 64 * p" arbitrary: p rule: less_induct)
  case less
  show ?case
  proof (cases "addr p = 0")
    case False
    note c = ctz64_bits [OF False]
    have w: "\<not> bm addr i" if "64 * p \<le> i" "i < 64 * p + ctz64 (addr p)" for i
    proof -
      have "i - 64 * p < ctz64 (addr p)" "i div 64 = p" "i mod 64 = i - 64 * p"
        using that c(3) by (auto simp: div_nat_eqI modulo_nat_def)
      then show ?thesis using c(2) by simp
    qed
    have b: "bm addr (64 * p + ctz64 (addr p))" using c(1,3) by simp
    show ?thesis using False less.prems w b
      by (subst find_first_words.simps) (auto simp: first_hit_def Let_def)
  next
    case True
    have z: "\<not> bm addr i" if "64 * p \<le> i" "i < 64 * p + 64" for i using that True word_free by blast
    have e: "find_first_words addr p (64 * p) sz = find_first_words addr (p + 1) (64 * p + 64) sz"
      using True less.prems by (subst find_first_words.simps) simp
    show ?thesis
    proof (cases "64 * p + 64 < sz")
      case lt: True
      have s: "64 * (p + 1) = 64 * p + 64" by simp
      have "first_hit (bm addr) (64 * (p + 1)) sz (find_first_words addr (p + 1) (64 * (p + 1)) sz)"
        using less.prems lt by (intro less.hyps) auto
      then have "first_hit (bm addr) (64 * p + 64) sz (find_first_words addr (p + 1) (64 * p + 64) sz)" unfolding s .
      then show ?thesis unfolding e by (rule first_hit_skip) (use z in auto)
    next
      case False
      then have "find_first_words addr (p + 1) (64 * p + 64) sz = sz" by (subst find_first_words.simps) simp
      then show ?thesis using e z False less.prems by (auto simp: first_hit_def)
    qed
  qed
qed

definition last_hit :: "(nat \<Rightarrow> bool) \<Rightarrow> nat \<Rightarrow> nat \<Rightarrow> nat \<Rightarrow> bool" where
  "last_hit P n sz r \<longleftrightarrow>
     (r < n \<and> P r \<and> (\<forall>i. r < i \<and> i < n \<longrightarrow> \<not> P i)) \<or> (r = sz \<and> (\<forall>i<n. \<not> P i))"

lemma last_hit_find:
  assumes "last_hit P n sz r"
  shows "r = (case find P (rev [0..<n]) of None \<Rightarrow> sz | Some i \<Rightarrow> i)"
proof (cases "\<exists>i<n. P i")
  case True
  then have r: "r < n" "P r" "\<And>i. r < i \<Longrightarrow> i < n \<Longrightarrow> \<not> P i" using assms by (auto simp: last_hit_def)
  have "find P (rev [0..<n]) = Some r"
    unfolding find_Some_iff by (rule exI [of _ "n - 1 - r"]) (use r in \<open>auto simp: rev_nth\<close>)
  then show ?thesis by simp
next
  case False
  then have "find P (rev [0..<n]) = None" by (auto simp: find_None_iff)
  then show ?thesis using assms False by (auto simp: last_hit_def)
qed

lemma last_hit_word:
  assumes "w \<noteq> 0" "\<And>j. j < 64 \<Longrightarrow> bit w j \<longleftrightarrow> 64 * p + j < n \<and> P (64 * p + j)" "n \<le> 64 * p + 64"
  shows "last_hit P n sz (p * 64 + 64 - 1 - clz64 w)"
proof -
  note c = clz64_bits [OF assms(1)]
  have r: "p * 64 + 64 - 1 - clz64 w = 64 * p + (63 - clz64 w)" using c(1) by simp
  have b: "64 * p + (63 - clz64 w) < n" "P (64 * p + (63 - clz64 w))" using c(2) assms(2) [of "63 - clz64 w"] by auto
  have "\<not> P i" if "64 * p + (63 - clz64 w) < i" "i < n" for i
    using c(3) [of "i - 64 * p"] assms(2) [of "i - 64 * p"] assms(3) that by auto
  then show ?thesis using b unfolding r last_hit_def by blast
qed

lemma last_hit_shrink: "last_hit P n sz r \<Longrightarrow> n \<le> m \<Longrightarrow> (\<And>i. n \<le> i \<Longrightarrow> i < m \<Longrightarrow> \<not> P i) \<Longrightarrow> last_hit P m sz r"
  unfolding last_hit_def by (metis less_le_trans not_le)

lemma find_last_words_hit: "last_hit (bm addr) (64 * words) sz (find_last_words addr sz words)"
proof (induction words)
  case 0
  then show ?case by (simp add: last_hit_def)
next
  case (Suc words)
  show ?case
  proof (cases "addr words = 0")
    case True
    then have "\<not> bm addr i" if "64 * words \<le> i" "i < 64 * Suc words" for i using that word_free [of addr words i] by simp
    then show ?thesis using True last_hit_shrink [OF Suc, of "64 * Suc words"] by simp
  next
    case False
    have "last_hit (bm addr) (64 * Suc words) sz (words * 64 + 64 - 1 - clz64 (addr words))"
      by (rule last_hit_word [OF False]) auto
    then show ?thesis using False by simp
  qed
qed

lemma find_last_bit_hit: "last_hit (bm addr) sz sz (find_last_bit addr sz)"
proof -
  define p r tmp where "p = sz div 64" and "r = sz mod 64" and "tmp = addr p AND drop_bit (64 - r) (NOT 0)"
  have o: "sz = 64 * p + r" "r < 64" by (simp_all add: p_def r_def)
  have t: "bit tmp j \<longleftrightarrow> 64 * p + j < sz \<and> bm addr (64 * p + j)" if "j < 64" for j
    using that o by (auto simp: tmp_def bit_simps)
  have e: "find_last_bit addr sz = (if r \<noteq> 0 \<and> tmp \<noteq> 0 then p * 64 + 64 - 1 - clz64 tmp else find_last_words addr sz p)"
    by (simp only: find_last_bit_def Let_def p_def r_def tmp_def)
  show ?thesis
  proof (cases "r \<noteq> 0 \<and> tmp \<noteq> 0")
    case True
    then show ?thesis unfolding e using last_hit_word [of tmp p sz "bm addr" sz] t o by simp
  next
    case False
    have "\<not> bm addr i" if "64 * p \<le> i" "i < sz" for i
      using t [of "i - 64 * p"] that False o by auto
    then have "last_hit (bm addr) sz sz (find_last_words addr sz p)"
      using last_hit_shrink [OF find_last_words_hit [of addr p sz], of sz] o by simp
    then show ?thesis unfolding e using False by auto
  qed
qed

section \<open>Property\<close>

text \<open>
  C36. The word-wise searches agree with a scan of the bits one by one: the next set or
  clear bit from an offset on, the first and the last set bit, and the size of the bitmap
  when there is none.
\<close>

theorem bitmap_search_equiv:
  "find_next_bit addr sz offset = (case find (\<lambda>i. test_bit i addr) [offset..<sz] of None \<Rightarrow> sz | Some i \<Rightarrow> i)
   \<and> find_next_zero_bit addr sz offset = (case find (\<lambda>i. \<not> test_bit i addr) [offset..<sz] of None \<Rightarrow> sz | Some i \<Rightarrow> i)
   \<and> find_first_bit addr sz = (case find (\<lambda>i. test_bit i addr) [0..<sz] of None \<Rightarrow> sz | Some i \<Rightarrow> i)
   \<and> find_first_zero_bit addr sz = (case find (\<lambda>i. \<not> test_bit i addr) [0..<sz] of None \<Rightarrow> sz | Some i \<Rightarrow> i)
   \<and> find_last_bit addr sz = (case find (\<lambda>i. test_bit i addr) (rev [0..<sz]) of None \<Rightarrow> sz | Some i \<Rightarrow> i)"
proof -
  have n: "find_next_bit addr sz off = (case find (bm addr) [off..<sz] of None \<Rightarrow> sz | Some i \<Rightarrow> i)" for off
    using first_hit_find [OF find_next_bit_hit, of off sz addr] by (cases "off < sz") (simp_all add: find_next_bit_def)
  have z: "find_next_zero_bit addr sz off = (case find (\<lambda>i. \<not> bm addr i) [off..<sz] of None \<Rightarrow> sz | Some i \<Rightarrow> i)" for off
    using first_hit_find [OF find_next_zero_bit_hit, of off sz addr] by (cases "off < sz") (simp_all add: find_next_zero_bit_def)
  have f: "find_first_bit addr sz = (case find (bm addr) [0..<sz] of None \<Rightarrow> sz | Some i \<Rightarrow> i)"
    using first_hit_find [OF find_first_words_hit, of 0 sz addr]
    by (cases "0 < sz") (simp_all add: find_first_bit_def find_first_words.simps)
  show ?thesis using n z f last_hit_find [OF find_last_bit_hit, of addr sz] by (simp add: find_first_zero_bit_def)
qed

end
