(* ===== verification/Bitmap_Bulk.thy ===== *)
theory Bitmap_Bulk
  imports Bitmap_Search
begin

text \<open>
  Operations on whole bitmaps and ranges of bits: \<open>qemu/util/bitmap.c\<close> and \<open>bitmap.h\<close>.
\<close>

definition BITMAP_FIRST_WORD_MASK :: "nat \<Rightarrow> u64" where
  "BITMAP_FIRST_WORD_MASK start = push_bit (start mod 64) (NOT 0)"

definition BITMAP_LAST_WORD_MASK :: "nat \<Rightarrow> u64" where
  "BITMAP_LAST_WORD_MASK nbits = drop_bit ((64 - nbits mod 64) mod 64) (NOT 0)"

definition BITS_TO_LONGS :: "nat \<Rightarrow> nat" where
  "BITS_TO_LONGS nr = (nr + 63) div 64"

section \<open>Predicates\<close>

definition slow_bitmap_empty :: "bitmap \<Rightarrow> nat \<Rightarrow> bool" where
  "slow_bitmap_empty bitmap bits =
     (list_all (\<lambda>k. bitmap k = 0) [0..<bits div 64]
      \<and> (bits mod 64 \<noteq> 0 \<longrightarrow> bitmap (bits div 64) AND BITMAP_LAST_WORD_MASK bits = 0))"

definition slow_bitmap_full :: "bitmap \<Rightarrow> nat \<Rightarrow> bool" where
  "slow_bitmap_full bitmap bits =
     (list_all (\<lambda>k. NOT (bitmap k) = 0) [0..<bits div 64]
      \<and> (bits mod 64 \<noteq> 0 \<longrightarrow> NOT (bitmap (bits div 64)) AND BITMAP_LAST_WORD_MASK bits = 0))"

definition slow_bitmap_equal :: "bitmap \<Rightarrow> bitmap \<Rightarrow> nat \<Rightarrow> bool" where
  "slow_bitmap_equal bitmap1 bitmap2 bits =
     (list_all (\<lambda>k. bitmap1 k = bitmap2 k) [0..<bits div 64]
      \<and> (bits mod 64 \<noteq> 0 \<longrightarrow>
          (bitmap1 (bits div 64) XOR bitmap2 (bits div 64)) AND BITMAP_LAST_WORD_MASK bits = 0))"

definition slow_bitmap_intersects :: "bitmap \<Rightarrow> bitmap \<Rightarrow> nat \<Rightarrow> bool" where
  "slow_bitmap_intersects bitmap1 bitmap2 bits =
     (list_ex (\<lambda>k. bitmap1 k AND bitmap2 k \<noteq> 0) [0..<bits div 64]
      \<or> (bits mod 64 \<noteq> 0
         \<and> (bitmap1 (bits div 64) AND bitmap2 (bits div 64)) AND BITMAP_LAST_WORD_MASK bits \<noteq> 0))"

definition bitmap_empty :: "bitmap \<Rightarrow> nat \<Rightarrow> bool" where
  "bitmap_empty src nbits =
     (if nbits \<le> 64 then src 0 AND BITMAP_LAST_WORD_MASK nbits = 0 else slow_bitmap_empty src nbits)"

definition bitmap_full :: "bitmap \<Rightarrow> nat \<Rightarrow> bool" where
  "bitmap_full src nbits =
     (if nbits \<le> 64 then NOT (src 0) AND BITMAP_LAST_WORD_MASK nbits = 0 else slow_bitmap_full src nbits)"

definition bitmap_equal :: "bitmap \<Rightarrow> bitmap \<Rightarrow> nat \<Rightarrow> bool" where
  "bitmap_equal src1 src2 nbits =
     (if nbits \<le> 64 then (src1 0 XOR src2 0) AND BITMAP_LAST_WORD_MASK nbits = 0
      else slow_bitmap_equal src1 src2 nbits)"

definition bitmap_intersects :: "bitmap \<Rightarrow> bitmap \<Rightarrow> nat \<Rightarrow> bool" where
  "bitmap_intersects src1 src2 nbits =
     (if nbits \<le> 64 then (src1 0 AND src2 0) AND BITMAP_LAST_WORD_MASK nbits \<noteq> 0
      else slow_bitmap_intersects src1 src2 nbits)"

section \<open>Element-wise operations\<close>

text \<open>A loop \<open>dst[k] = f (k)\<close> over the first \<open>n\<close> words.\<close>

definition set_words :: "(nat \<Rightarrow> u64) \<Rightarrow> nat \<Rightarrow> bitmap \<Rightarrow> bitmap" where
  "set_words f n dst = fold (\<lambda>k d. d(k := f k)) [0..<n] dst"

definition slow_bitmap_complement :: "bitmap \<Rightarrow> bitmap \<Rightarrow> nat \<Rightarrow> bitmap" where
  "slow_bitmap_complement dst src bits =
     (let lim = bits div 64; d = set_words (\<lambda>k. NOT (src k)) lim dst
      in if bits mod 64 \<noteq> 0 then d(lim := NOT (src lim) AND BITMAP_LAST_WORD_MASK bits) else d)"

text \<open>The operations that also tell whether a word of the result is not zero.\<close>

definition set_words_any :: "(nat \<Rightarrow> u64) \<Rightarrow> nat \<Rightarrow> bitmap \<Rightarrow> bool \<times> bitmap" where
  "set_words_any f n dst =
     (let (result, d) = fold (\<lambda>k (result, d). (result OR f k, d(k := f k))) [0..<n] (0, dst)
      in (result \<noteq> 0, d))"

definition slow_bitmap_and :: "bitmap \<Rightarrow> bitmap \<Rightarrow> bitmap \<Rightarrow> nat \<Rightarrow> bool \<times> bitmap" where
  "slow_bitmap_and dst bitmap1 bitmap2 bits =
     set_words_any (\<lambda>k. bitmap1 k AND bitmap2 k) (BITS_TO_LONGS bits) dst"

definition slow_bitmap_or :: "bitmap \<Rightarrow> bitmap \<Rightarrow> bitmap \<Rightarrow> nat \<Rightarrow> bitmap" where
  "slow_bitmap_or dst bitmap1 bitmap2 bits = set_words (\<lambda>k. bitmap1 k OR bitmap2 k) (BITS_TO_LONGS bits) dst"

definition slow_bitmap_xor :: "bitmap \<Rightarrow> bitmap \<Rightarrow> bitmap \<Rightarrow> nat \<Rightarrow> bitmap" where
  "slow_bitmap_xor dst bitmap1 bitmap2 bits = set_words (\<lambda>k. bitmap1 k XOR bitmap2 k) (BITS_TO_LONGS bits) dst"

definition slow_bitmap_andnot :: "bitmap \<Rightarrow> bitmap \<Rightarrow> bitmap \<Rightarrow> nat \<Rightarrow> bool \<times> bitmap" where
  "slow_bitmap_andnot dst bitmap1 bitmap2 bits =
     set_words_any (\<lambda>k. bitmap1 k AND NOT (bitmap2 k)) (BITS_TO_LONGS bits) dst"

definition bitmap_zero :: "bitmap \<Rightarrow> nat \<Rightarrow> bitmap" where
  "bitmap_zero dst nbits = (if nbits \<le> 64 then dst(0 := 0) else set_words (\<lambda>_. 0) (BITS_TO_LONGS nbits) dst)"

text \<open>
  \<open>bitmap_fill\<close>. With \<open>nbits = 0\<close> the index \<open>nlongs - 1\<close> wraps around and the store is out of
  bounds, which is \<open>None\<close>.
\<close>

definition bitmap_fill :: "bitmap \<Rightarrow> nat \<Rightarrow> bitmap option" where
  "bitmap_fill dst nbits =
     (let nlongs = BITS_TO_LONGS nbits;
          d = (if \<not> nbits \<le> 64 then set_words (\<lambda>_. NOT 0) (nlongs - 1) dst else dst)
      in if nlongs = 0 then None else Some (d(nlongs - 1 := BITMAP_LAST_WORD_MASK nbits)))"

definition bitmap_copy :: "bitmap \<Rightarrow> bitmap \<Rightarrow> nat \<Rightarrow> bitmap" where
  "bitmap_copy dst src nbits =
     (if nbits \<le> 64 then dst(0 := src 0) else set_words src (BITS_TO_LONGS nbits) dst)"

definition bitmap_and :: "bitmap \<Rightarrow> bitmap \<Rightarrow> bitmap \<Rightarrow> nat \<Rightarrow> bool \<times> bitmap" where
  "bitmap_and dst src1 src2 nbits =
     (if nbits \<le> 64 then (src1 0 AND src2 0 \<noteq> 0, dst(0 := src1 0 AND src2 0))
      else slow_bitmap_and dst src1 src2 nbits)"

definition bitmap_or :: "bitmap \<Rightarrow> bitmap \<Rightarrow> bitmap \<Rightarrow> nat \<Rightarrow> bitmap" where
  "bitmap_or dst src1 src2 nbits =
     (if nbits \<le> 64 then dst(0 := src1 0 OR src2 0) else slow_bitmap_or dst src1 src2 nbits)"

definition bitmap_xor :: "bitmap \<Rightarrow> bitmap \<Rightarrow> bitmap \<Rightarrow> nat \<Rightarrow> bitmap" where
  "bitmap_xor dst src1 src2 nbits =
     (if nbits \<le> 64 then dst(0 := src1 0 XOR src2 0) else slow_bitmap_xor dst src1 src2 nbits)"

definition bitmap_andnot :: "bitmap \<Rightarrow> bitmap \<Rightarrow> bitmap \<Rightarrow> nat \<Rightarrow> bool \<times> bitmap" where
  "bitmap_andnot dst src1 src2 nbits =
     (if nbits \<le> 64 then (src1 0 AND NOT (src2 0) \<noteq> 0, dst(0 := src1 0 AND NOT (src2 0)))
      else slow_bitmap_andnot dst src1 src2 nbits)"

definition bitmap_complement :: "bitmap \<Rightarrow> bitmap \<Rightarrow> nat \<Rightarrow> bitmap" where
  "bitmap_complement dst src nbits =
     (if nbits \<le> 64 then dst(0 := NOT (src 0) AND BITMAP_LAST_WORD_MASK nbits)
      else slow_bitmap_complement dst src nbits)"

section \<open>Ranges\<close>

text \<open>
  The loops over the words of a range. \<open>g m w\<close> is the new value of the word \<open>w\<close> for the mask
  \<open>m\<close>: \<open>w OR m\<close> when setting and \<open>w AND NOT m\<close> when clearing. \<open>bits_to\<close> is between 1 and 64 in
  every call.
\<close>

function range_loop :: "(u64 \<Rightarrow> u64 \<Rightarrow> u64) \<Rightarrow> bitmap \<Rightarrow> nat \<Rightarrow> int \<Rightarrow> int \<Rightarrow> u64 \<Rightarrow> nat \<Rightarrow> bitmap" where
  "range_loop g mp p nr bits_to m sz =
     (if nr - bits_to \<ge> 0 \<and> 0 < bits_to then
        range_loop g (mp(p := g m (mp p))) (p + 1) (nr - bits_to) 64 (NOT 0) sz
      else if nr \<noteq> 0 then mp(p := g (m AND BITMAP_LAST_WORD_MASK sz) (mp p))
      else mp)"
  by pat_completeness auto
termination by (relation "measure (\<lambda>(_, _, _, nr, _). nat nr)") auto

declare range_loop.simps [simp del]

definition qemu_bitmap_set :: "bitmap \<Rightarrow> int \<Rightarrow> int \<Rightarrow> bitmap option" where
  "qemu_bitmap_set mp start nr =
     (if start \<ge> 0 \<and> nr \<ge> 0 then
        Some (range_loop (\<lambda>m w. w OR m) mp (nat start div 64) nr (64 - start mod 64)
          (BITMAP_FIRST_WORD_MASK (nat start)) (nat (start + nr)))
      else None)"

definition qemu_bitmap_clear :: "bitmap \<Rightarrow> int \<Rightarrow> int \<Rightarrow> bitmap option" where
  "qemu_bitmap_clear mp start nr =
     (if start \<ge> 0 \<and> nr \<ge> 0 then
        Some (range_loop (\<lambda>m w. w AND NOT m) mp (nat start div 64) nr (64 - start mod 64)
          (BITMAP_FIRST_WORD_MASK (nat start)) (nat (start + nr)))
      else None)"

text \<open>The loop over full words of \<open>bitmap_set_atomic\<close>.\<close>

fun full_words_set :: "bitmap \<Rightarrow> nat \<Rightarrow> nat \<Rightarrow> bitmap" where
  "full_words_set mp p 0 = mp"
| "full_words_set mp p (Suc n) = full_words_set (mp(p := NOT 0)) (p + 1) n"

definition bitmap_set_atomic :: "bitmap \<Rightarrow> int \<Rightarrow> int \<Rightarrow> bitmap option" where
  "bitmap_set_atomic mp start nr =
     (if start \<ge> 0 \<and> nr \<ge> 0 then
        (let p = nat start div 64; sz = nat (start + nr); bits_to_set = 64 - start mod 64;
             m = BITMAP_FIRST_WORD_MASK (nat start);
             (mp, p, nr, bits_to_set, m) =
               (if nr - bits_to_set > 0 then (mp(p := mp p OR m), p + 1, nr - bits_to_set, 64, NOT 0)
                else (mp, p, nr, bits_to_set, m));
             n = (if bits_to_set = 64 then nat nr div 64 else 0);
             mp = full_words_set mp p n; p = p + n; nr = nr - 64 * int n
         in Some (if nr \<noteq> 0 then mp(p := mp p OR (m AND BITMAP_LAST_WORD_MASK sz)) else mp))
      else None)"

text \<open>The loop over full words of \<open>bitmap_test_and_clear_atomic\<close>, which collects the old bits.\<close>

fun full_words_clear :: "bitmap \<Rightarrow> nat \<Rightarrow> u64 \<Rightarrow> nat \<Rightarrow> bitmap \<times> u64" where
  "full_words_clear mp p dirty 0 = (mp, dirty)"
| "full_words_clear mp p dirty (Suc n) =
     (if mp p \<noteq> 0 then full_words_clear (mp(p := 0)) (p + 1) (dirty OR mp p) n
      else full_words_clear mp (p + 1) dirty n)"

definition bitmap_test_and_clear_atomic :: "bitmap \<Rightarrow> int \<Rightarrow> int \<Rightarrow> (bool \<times> bitmap) option" where
  "bitmap_test_and_clear_atomic mp start nr =
     (if start \<ge> 0 \<and> nr \<ge> 0 then
        (let p = nat start div 64; sz = nat (start + nr); bits_to_clear = 64 - start mod 64;
             m = BITMAP_FIRST_WORD_MASK (nat start);
             (mp, p, nr, bits_to_clear, m, dirty) =
               (if nr - bits_to_clear > 0
                then (mp(p := mp p AND NOT m), p + 1, nr - bits_to_clear, 64, NOT 0, mp p AND m)
                else (mp, p, nr, bits_to_clear, m, 0));
             n = (if bits_to_clear = 64 then nat nr div 64 else 0);
             (mp, dirty) = full_words_clear mp p dirty n; p = p + n; nr = nr - 64 * int n;
             m = m AND BITMAP_LAST_WORD_MASK sz;
             (mp, dirty) = (if nr \<noteq> 0 then (mp(p := mp p AND NOT m), dirty OR (mp p AND m)) else (mp, dirty))
         in Some (dirty \<noteq> 0, mp))
      else None)"

function bitmap_copy_and_clear_loop :: "bitmap \<Rightarrow> bitmap \<Rightarrow> nat \<Rightarrow> int \<Rightarrow> bitmap \<times> bitmap" where
  "bitmap_copy_and_clear_loop dst src p nr =
     (if nr > 0 then bitmap_copy_and_clear_loop (dst(p := src p)) (src(p := 0)) (p + 1) (nr - 64) else (dst, src))"
  by pat_completeness auto
termination by (relation "measure (\<lambda>(_, _, _, nr). nat nr)") auto

declare bitmap_copy_and_clear_loop.simps [simp del]

definition bitmap_copy_and_clear_atomic :: "bitmap \<Rightarrow> bitmap \<Rightarrow> int \<Rightarrow> bitmap \<times> bitmap" where
  "bitmap_copy_and_clear_atomic dst src nr = bitmap_copy_and_clear_loop dst src 0 nr"

text \<open>
  \<open>bitmap_find_next_zero_area\<close>, on \<open>unsigned long\<close>s that wrap around; \<open>None\<close> is a search that
  does not end.
\<close>

definition ALIGN_MASK :: "nat \<Rightarrow> nat \<Rightarrow> nat" where
  "ALIGN_MASK x m = unat ((of_nat x + of_nat m :: u64) AND NOT (of_nat m))"

partial_function (option) bitmap_find_next_zero_area :: "bitmap \<Rightarrow> nat \<Rightarrow> nat \<Rightarrow> nat \<Rightarrow> nat \<Rightarrow> nat option" where
  "bitmap_find_next_zero_area mp sz start nr align_mask =
     (let index = ALIGN_MASK (find_next_zero_bit mp sz start) align_mask;
          e = (index + nr) mod 2 ^ 64
      in if e > sz then Some e
         else
           (let i = find_next_bit mp e index
            in if i < e then bitmap_find_next_zero_area mp sz (i + 1) nr align_mask
               else Some index))"

section \<open>Shifted copies\<close>

text \<open>The loop of \<open>bitmap_copy_with_src_offset\<close>; \<open>src\<close> starts at its first word to copy from.\<close>

fun copy_src_words :: "bitmap \<Rightarrow> bitmap \<Rightarrow> nat \<Rightarrow> nat \<Rightarrow> nat \<Rightarrow> bitmap" where
  "copy_src_words dst src shift k 0 = dst"
| "copy_src_words dst src shift k (Suc n) =
     (let right_mask = push_bit shift 1 - 1; left_mask = NOT right_mask;
          w = drop_bit shift (src k AND left_mask) OR push_bit (64 - shift) (src (k + 1) AND right_mask)
      in copy_src_words (dst(k := w)) src shift (k + 1) n)"

definition bitmap_copy_with_src_offset :: "bitmap \<Rightarrow> bitmap \<Rightarrow> nat \<Rightarrow> nat \<Rightarrow> bitmap" where
  "bitmap_copy_with_src_offset dst src shift nbits =
     (let src = (\<lambda>k. src (shift div 64 + k)); shift = shift mod 64
      in if shift = 0 then bitmap_copy dst src nbits
         else
           (let right_mask = push_bit shift 1 - 1; left_mask = NOT right_mask; k = nbits div 64;
                dst = copy_src_words dst src shift 0 k; nbits = nbits mod 64
            in if nbits > 64 - shift then
                 (let last_mask = push_bit (nbits - (64 - shift)) 1 - 1
                  in dst(k := drop_bit shift (src k AND left_mask) OR push_bit (64 - shift) (src (k + 1) AND last_mask)))
               else if nbits \<noteq> 0 then
                 (let last_mask = push_bit nbits 1 - 1 in dst(k := drop_bit shift (src k) AND last_mask))
               else dst))"

text \<open>The loop of \<open>bitmap_copy_with_dst_offset\<close>; \<open>b\<close> is the word of \<open>dst\<close> to start at.\<close>

fun copy_dst_words :: "bitmap \<Rightarrow> bitmap \<Rightarrow> nat \<Rightarrow> nat \<Rightarrow> nat \<Rightarrow> nat \<Rightarrow> bitmap" where
  "copy_dst_words dst src shift b k 0 = dst"
| "copy_dst_words dst src shift b k (Suc n) =
     (let right_mask = push_bit (64 - shift) 1 - 1; left_mask = NOT right_mask;
          dst = dst(b + k := dst (b + k) OR push_bit shift (src k AND right_mask));
          dst = dst(b + k + 1 := drop_bit (64 - shift) (src k AND left_mask))
      in copy_dst_words dst src shift b (k + 1) n)"

definition bitmap_copy_with_dst_offset :: "bitmap \<Rightarrow> bitmap \<Rightarrow> nat \<Rightarrow> nat \<Rightarrow> bitmap" where
  "bitmap_copy_with_dst_offset dst src shift nbits =
     (let b = shift div 64; shift = shift mod 64
      in if shift = 0 then (\<lambda>k. if k < b then dst k else bitmap_copy (\<lambda>k. dst (b + k)) src nbits (k - b))
         else
           (let right_mask = push_bit (64 - shift) 1 - 1; left_mask = NOT right_mask; k = nbits div 64;
                dst = dst(b := dst b AND (push_bit shift 1 - 1));
                dst = copy_dst_words dst src shift b 0 k; nbits = nbits mod 64
            in if nbits > 64 - shift then
                 (let dst = dst(b + k := dst (b + k) OR push_bit shift (src k AND right_mask));
                      last_mask = push_bit (64 - shift) (push_bit (nbits - (64 - shift)) 1 - 1)
                  in dst(b + k + 1 := drop_bit (64 - shift) (src k AND last_mask)))
               else if nbits \<noteq> 0 then
                 (let last_mask = push_bit nbits 1 - 1
                  in dst(b + k := dst (b + k) OR push_bit shift (src k AND last_mask)))
               else dst))"

end
