(* ===== verification/Bitmap_Props.thy ===== *)
theory Bitmap_Props
  imports Bitmap_Bulk
begin

text \<open>
  The operations on whole bitmaps and on ranges, described bit by bit.
\<close>

section \<open>Words and bits\<close>

lemma first_mask_bit: "bit (BITMAP_FIRST_WORD_MASK s) j \<longleftrightarrow> j < 64 \<and> s mod 64 \<le> j"
  by (auto simp: BITMAP_FIRST_WORD_MASK_def bit_simps)

lemma last_mask_bit: "bit (BITMAP_LAST_WORD_MASK n) j \<longleftrightarrow> j < 64 \<and> (n mod 64 = 0 \<or> j < n mod 64)"
proof (cases "n mod 64 = 0")
  case False
  have "n mod 64 < 64" by simp
  then have "(64 - n mod 64) mod 64 = 64 - n mod 64" using False by (intro mod_less) linarith
  then show ?thesis using False \<open>n mod 64 < 64\<close> by (auto simp: BITMAP_LAST_WORD_MASK_def bit_simps)
qed (simp add: BITMAP_LAST_WORD_MASK_def bit_simps)

lemma word_zero_iff: "w = 0 \<longleftrightarrow> (\<forall>j<64. \<not> bit w j)" for w :: u64
  by (auto simp: bit_eq_iff dest: bit_imp_le_length)

lemma last_word_zero_iff:
  assumes "n mod 64 \<noteq> 0"
  shows "w AND BITMAP_LAST_WORD_MASK n = 0 \<longleftrightarrow> (\<forall>j<n mod 64. \<not> bit w j)"
proof -
  have "bit (w AND BITMAP_LAST_WORD_MASK n) j \<longleftrightarrow> j < n mod 64 \<and> bit w j" for j
    using assms pos_mod_bound [of 64 "int n"] bit_imp_le_length [of w j] by (auto simp: bit_and_iff last_mask_bit)
  then show ?thesis unfolding bit_eq_iff by (auto dest: bit_imp_le_length)
qed

lemma all_bits_words:
  fixes n :: nat
  shows "(\<forall>i<n. Q i) \<longleftrightarrow> (\<forall>k<n div 64. \<forall>j<64. Q (64 * k + j)) \<and> (\<forall>j<n mod 64. Q (64 * (n div 64) + j))"
proof
  assume a: "\<forall>i<n. Q i"
  have "64 * k + j < n" if "k < n div 64" "j < 64" for k j
  proof -
    have "64 * k + j < 64 * Suc k" using that by simp
    also have "\<dots> \<le> 64 * (n div 64)" using that by (intro mult_le_mono2) simp
    also have "\<dots> \<le> n" by (rule times_div_less_eq_dividend)
    finally show ?thesis .
  qed
  moreover have "64 * (n div 64) + j < n" if "j < n mod 64" for j using that mult_div_mod_eq [of 64 n] by linarith
  ultimately show "(\<forall>k<n div 64. \<forall>j<64. Q (64 * k + j)) \<and> (\<forall>j<n mod 64. Q (64 * (n div 64) + j))" using a by blast
next
  assume a: "(\<forall>k<n div 64. \<forall>j<64. Q (64 * k + j)) \<and> (\<forall>j<n mod 64. Q (64 * (n div 64) + j))"
  show "\<forall>i<n. Q i"
  proof (intro allI impI)
    fix i assume i: "i < n"
    show "Q i"
    proof (cases "i div 64 < n div 64")
      case True
      then have "\<forall>j<64. Q (64 * (i div 64) + j)" using a by blast
      moreover have "i mod 64 < 64" by simp
      ultimately have "Q (64 * (i div 64) + i mod 64)" by blast
      then show ?thesis by (simp only: mult_div_mod_eq)
    next
      case False
      then have d: "i div 64 = n div 64" using i by (meson div_le_mono le_antisym less_imp_le not_le)
      then have "i mod 64 < n mod 64" using i mult_div_mod_eq [of 64 n] mult_div_mod_eq [of 64 i] by linarith
      moreover have "\<forall>j<n mod 64. Q (64 * (n div 64) + j)" using a by blast
      ultimately have "Q (64 * (n div 64) + i mod 64)" by blast
      then show ?thesis unfolding d [symmetric] by (simp only: mult_div_mod_eq)
    qed
  qed
qed

section \<open>Predicates\<close>

lemma slow_bitmap_empty_iff: "slow_bitmap_empty m n \<longleftrightarrow> (\<forall>i<n. \<not> bm m i)"
  unfolding all_bits_words [of n]
  by (auto simp: slow_bitmap_empty_def list_all_iff last_word_zero_iff word_zero_iff [of "m k" for k])

lemma slow_bitmap_full_iff: "slow_bitmap_full m n \<longleftrightarrow> (\<forall>i<n. bm m i)"
  unfolding all_bits_words [of n]
  by (auto simp: slow_bitmap_full_def list_all_iff last_word_zero_iff word_zero_iff [of "NOT _"]
      bit_not_iff_eq dest: bit_imp_le_length)

lemma slow_bitmap_equal_iff: "slow_bitmap_equal m m' n \<longleftrightarrow> (\<forall>i<n. bm m i \<longleftrightarrow> bm m' i)"
proof -
  have e: "m k = m' k \<longleftrightarrow> (\<forall>j<64. bit (m k) j \<longleftrightarrow> bit (m' k) j)" for k
    by (auto simp: bit_eq_iff dest: bit_imp_le_length)
  show ?thesis
    unfolding all_bits_words [of n]
    by (auto simp: slow_bitmap_equal_def list_all_iff last_word_zero_iff bit_xor_iff e)
qed

lemma slow_bitmap_intersects_iff: "slow_bitmap_intersects m m' n \<longleftrightarrow> (\<exists>i<n. bm m i \<and> bm m' i)"
proof -
  have "slow_bitmap_intersects m m' n \<longleftrightarrow> \<not> slow_bitmap_empty (\<lambda>k. m k AND m' k) n"
    by (auto simp: slow_bitmap_intersects_def slow_bitmap_empty_def list_all_iff list_ex_iff)
  then show ?thesis by (simp add: slow_bitmap_empty_iff bit_and_iff)
qed

text \<open>Up to one word, the short path is the slow one.\<close>

lemma small_word:
  assumes "0 < n" "n \<le> 64"
  shows "w AND BITMAP_LAST_WORD_MASK n = 0 \<longleftrightarrow> (\<forall>i<n. \<not> bit w i)"
proof -
  show ?thesis
  proof (cases "n = 64")
    case True
    then show ?thesis by (simp add: BITMAP_LAST_WORD_MASK_def word_zero_iff)
  next
    case False
    then show ?thesis using assms by (simp add: last_word_zero_iff)
  qed
qed

lemma bm_small: "n \<le> 64 \<Longrightarrow> i < n \<Longrightarrow> bm m i \<longleftrightarrow> bit (m 0) i"
  by simp

lemma bitmap_predicates_iff:
  assumes "0 < n"
  shows "bitmap_empty m n \<longleftrightarrow> (\<forall>i<n. \<not> bm m i)" "bitmap_full m n \<longleftrightarrow> (\<forall>i<n. bm m i)"
    "bitmap_equal m m' n \<longleftrightarrow> (\<forall>i<n. bm m i \<longleftrightarrow> bm m' i)"
    "bitmap_intersects m m' n \<longleftrightarrow> (\<exists>i<n. bm m i \<and> bm m' i)"
  using small_word [OF assms] bm_small [of n]
  by (auto simp: bitmap_empty_def bitmap_full_def bitmap_equal_def bitmap_intersects_def slow_bitmap_empty_iff
      slow_bitmap_full_iff slow_bitmap_equal_iff slow_bitmap_intersects_iff bit_and_iff bit_not_iff bit_xor_iff)

section \<open>Element-wise operations\<close>

lemma set_words_eq: "set_words f n d = (\<lambda>k. if k < n then f k else d k)"
  by (induction n) (auto simp: set_words_def fun_eq_iff less_Suc_eq)

lemma set_words_any_eq: "set_words_any f n d = (\<exists>k<n. f k \<noteq> 0, \<lambda>k. if k < n then f k else d k)"
proof -
  have "fold (\<lambda>k (result, d). (result OR f k, d(k := f k))) [0..<n] (0, d)
      = (fold (\<lambda>k r. r OR f k) [0..<n] 0, \<lambda>k. if k < n then f k else d k)"
    by (induction n) (auto simp: fun_eq_iff less_Suc_eq)
  moreover have "fold (\<lambda>k r. r OR f k) [0..<n] 0 \<noteq> 0 \<longleftrightarrow> (\<exists>k<n. f k \<noteq> 0)"
    by (induction n) (auto simp: or_eq_0_iff less_Suc_eq)
  ultimately show ?thesis by (simp add: set_words_any_def)
qed

lemma bits_to_longs: "i < n \<Longrightarrow> i div 64 < BITS_TO_LONGS n"
  unfolding BITS_TO_LONGS_def by (simp add: div_less_iff_less_mult)

lemma bits_to_longs_eq: "BITS_TO_LONGS n = n div 64 + (if n mod 64 = 0 then 0 else 1)"
proof -
  have m: "n mod 64 < 64" by simp
  have "n + 63 = (n mod 64 + 63) + (n div 64) * 64" by (simp only: div_mult_mod_eq ac_simps)
    (metis add.assoc add.commute mod_mult_div_eq)
  then have "(n + 63) div 64 = (n mod 64 + 63) div 64 + n div 64" by (simp only: div_mult_self3)
  moreover have "(n mod 64 + 63) div 64 = (if n mod 64 = 0 then 0 else 1)" using m by (simp add: div_nat_eqI)
  ultimately show ?thesis by (simp add: BITS_TO_LONGS_def)
qed

lemma bits_to_longs_small: "n \<le> 64 \<Longrightarrow> 0 < n \<Longrightarrow> BITS_TO_LONGS n = 1"
  unfolding BITS_TO_LONGS_def by (rule div_nat_eqI) auto

definition words_used :: "nat \<Rightarrow> nat" where
  "words_used n = (if n \<le> 64 then 1 else BITS_TO_LONGS n)"

lemma bits_words_used: "i < n \<Longrightarrow> i div 64 < words_used n"
  using bits_to_longs [of i n] by (auto simp: words_used_def)

text \<open>Every element-wise operation sets the words of the bitmap by a function of the words of the sources.\<close>

lemma elementwise_eq:
  "bitmap_or d a b n = (\<lambda>k. if k < words_used n then a k OR b k else d k)"
  "bitmap_xor d a b n = (\<lambda>k. if k < words_used n then a k XOR b k else d k)"
  "bitmap_and d a b n = (\<exists>k<words_used n. a k AND b k \<noteq> 0, \<lambda>k. if k < words_used n then a k AND b k else d k)"
  "bitmap_andnot d a b n = (\<exists>k<words_used n. a k AND NOT (b k) \<noteq> 0, \<lambda>k. if k < words_used n then a k AND NOT (b k) else d k)"
  "bitmap_copy d a n = (\<lambda>k. if k < words_used n then a k else d k)"
  "bitmap_zero d n = (\<lambda>k. if k < words_used n then 0 else d k)"
  by (auto simp: bitmap_or_def bitmap_xor_def bitmap_and_def bitmap_andnot_def bitmap_copy_def bitmap_zero_def
      slow_bitmap_or_def slow_bitmap_xor_def slow_bitmap_and_def slow_bitmap_andnot_def words_used_def
      set_words_eq set_words_any_eq fun_eq_iff)

lemma bitmap_complement_bits:
  "i < n \<Longrightarrow> bm (bitmap_complement d a n) i \<longleftrightarrow> \<not> bm a i"
  "words_used n \<le> k \<Longrightarrow> bitmap_complement d a n k = d k"
proof -
  show "bm (bitmap_complement d a n) i \<longleftrightarrow> \<not> bm a i" if i: "i < n"
  proof (cases "i div 64 < n div 64")
    case True
    then have "\<not> n \<le> 64 \<or> n = 64" by auto
    then show ?thesis using True i
      by (auto simp: bitmap_complement_def slow_bitmap_complement_def set_words_eq bit_and_iff bit_not_iff last_mask_bit Let_def)
  next
    case False
    then have d: "i div 64 = n div 64" using i by (meson div_le_mono le_antisym less_imp_le not_le)
    then have "i mod 64 < n mod 64" using i mult_div_mod_eq [of 64 n] mult_div_mod_eq [of 64 i] by linarith
    then show ?thesis using d i
      by (auto simp: bitmap_complement_def slow_bitmap_complement_def bit_and_iff bit_not_iff last_mask_bit Let_def)
  qed
  show "bitmap_complement d a n k = d k" if "words_used n \<le> k"
    using that by (cases "n \<le> 64") (auto simp: bitmap_complement_def slow_bitmap_complement_def words_used_def
        set_words_eq Let_def bits_to_longs_eq split: if_splits)
qed

lemma bitmap_fill_bits:
  assumes "0 < n"
  shows "\<exists>m. bitmap_fill d n = Some m \<and> (\<forall>i<n. bm m i) \<and> (\<forall>k\<ge>words_used n. m k = d k)"
proof -
  let ?l = "BITS_TO_LONGS n"
  have l: "0 < ?l" using bits_to_longs [OF assms] by simp
  define m where "m = (if \<not> n \<le> 64 then set_words (\<lambda>_. NOT 0) (?l - 1) d else d)(?l - 1 := BITMAP_LAST_WORD_MASK n)"
  have s: "bitmap_fill d n = Some m" using l by (simp add: bitmap_fill_def m_def Let_def)
  have "bm m i" if i: "i < n" for i
  proof (cases "i div 64 = ?l - 1")
    case True
    have "n mod 64 = 0 \<or> i mod 64 < n mod 64"
    proof (rule ccontr)
      assume a: "\<not> (n mod 64 = 0 \<or> i mod 64 < n mod 64)"
      then have "?l = n div 64 + 1" by (simp add: bits_to_longs_eq)
      then have "i div 64 = n div 64" using True by simp
      then show False using a i mult_div_mod_eq [of 64 n] mult_div_mod_eq [of 64 i] by linarith
    qed
    then show ?thesis using True by (simp add: m_def last_mask_bit)
  next
    case False
    then have "i div 64 < ?l - 1" using bits_to_longs [OF i] by simp
    moreover then have "\<not> n \<le> 64" using bits_to_longs_small [of n] assms by auto
    ultimately show ?thesis by (simp add: m_def set_words_eq)
  qed
  moreover have "m k = d k" if "words_used n \<le> k" for k
    using that l bits_to_longs_small [of n] assms by (auto simp: m_def words_used_def set_words_eq)
  ultimately show ?thesis using s by blast
qed

end
