(* ===== verification/Bitmap_Range.thy ===== *)
theory Bitmap_Range
  imports Bitmap_Props
begin

text \<open>
  Setting, clearing and testing ranges of bits, the search for a free area and the shifted
  copies.
\<close>

section \<open>Ranges\<close>

lemma div64_iff: "i div 64 = p \<longleftrightarrow> 64 * p \<le> i \<and> i < 64 * p + 64" for i :: nat
  by (auto intro: div_nat_eqI simp: dividend_less_times_div mult.commute)

text \<open>\<open>c\<close> is the absolute number of the next bit of the range.\<close>

lemma range_loop_bits:
  assumes g: "\<And>m w j. j < 64 \<Longrightarrow> bit (g m w) j \<longleftrightarrow> h (bit m j) (bit w j)" and h: "\<And>b. h False b = b"
  shows "bm (range_loop g mp (c div 64) (int nr) (64 - int (c mod 64)) (BITMAP_FIRST_WORD_MASK c) (c + nr)) i
    \<longleftrightarrow> (if c \<le> i \<and> i < c + nr then h True (bm mp i) else bm mp i)"
proof (induction nr arbitrary: mp c rule: less_induct)
  case (less nr)
  define r p where "r = c mod 64" and "p = c div 64"
  have c: "c = 64 * p + r" "r < 64" by (simp_all add: r_def p_def)
  have i: "i = 64 * (i div 64) + i mod 64" "i mod 64 < 64" by simp_all
  show ?case
  proof (cases "64 - r \<le> nr")
    case True
    define mp' where "mp' = mp(p := g (BITMAP_FIRST_WORD_MASK c) (mp p))"
    define c' where "c' = 64 * (p + 1)"
    have c': "c' div 64 = p + 1" "c' mod 64 = 0" "c' = c + (64 - r)" using c by (simp_all add: c'_def)
    have f: "BITMAP_FIRST_WORD_MASK c' = NOT 0" by (simp add: BITMAP_FIRST_WORD_MASK_def c'(2))
    have "range_loop g mp p (int nr) (64 - int r) (BITMAP_FIRST_WORD_MASK c) (c + nr)
        = range_loop g mp' (c' div 64) (int (nr - (64 - r))) (64 - int (c' mod 64)) (BITMAP_FIRST_WORD_MASK c') (c' + (nr - (64 - r)))"
    proof -
      have "int nr - (64 - int r) = int (nr - (64 - r))" "c + nr = c' + (nr - (64 - r))" "int nr - (64 - int r) \<ge> 0" "0 < 64 - int r"
        using True c by (simp_all add: c'_def)
      then show ?thesis by (subst range_loop.simps) (simp only: c'(1,2) f mp'_def, simp)
    qed
    moreover have "bm (range_loop g mp' (c' div 64) (int (nr - (64 - r))) (64 - int (c' mod 64)) (BITMAP_FIRST_WORD_MASK c') (c' + (nr - (64 - r)))) i
        \<longleftrightarrow> (if c' \<le> i \<and> i < c' + (nr - (64 - r)) then h True (bm mp' i) else bm mp' i)"
      by (rule less) (use True c in auto)
    moreover have "bm mp' i \<longleftrightarrow> (if c \<le> i \<and> i < c' then h True (bm mp i) else bm mp i)"
    proof (cases "i div 64 = p")
      case True
      then have "i = 64 * p + i mod 64" using i(1) by simp
      then have "c \<le> i \<longleftrightarrow> r \<le> i mod 64" "i < c'" using c i(2) unfolding c'_def by simp_all linarith+
      then show ?thesis using True i(2) by (auto simp: mp'_def g first_mask_bit h r_def)
    next
      case False
      then have "\<not> (c \<le> i \<and> i < c')" using c unfolding c'_def div64_iff by auto
      then have "(c \<le> i \<and> i < c') = False" by blast
      then show ?thesis using False by (simp only: mp'_def fun_upd_apply if_False)
    qed
    ultimately show ?thesis using True c' by (auto simp: r_def [symmetric] p_def [symmetric])
  next
    case False
    then have lt: "c + nr < 64 * p + 64" using c by linarith
    show ?thesis
    proof (cases "nr = 0")
      case True
      then have "(c \<le> i \<and> i < c + nr) = False" by auto
      then show ?thesis using False True by (subst range_loop.simps) (simp only: if_False, simp add: r_def)
    next
      case pos: False
      have e: "range_loop g mp p (int nr) (64 - int r) (BITMAP_FIRST_WORD_MASK c) (c + nr)
          = mp(p := g (BITMAP_FIRST_WORD_MASK c AND BITMAP_LAST_WORD_MASK (c + nr)) (mp p))"
      proof -
        have "\<not> 0 \<le> int nr - (64 - int r)" using False by linarith
        then show ?thesis using pos by (subst range_loop.simps) simp
      qed
      have m: "(c + nr) mod 64 = r + nr" 
      proof -
        have "c + nr = (r + nr) + 64 * p" "r + nr < 64" using lt c by simp_all
        then show ?thesis by (simp only: mod_mult_self2 mod_less)
      qed
      show ?thesis
      proof (cases "i div 64 = p")
        case True
        then have "i = 64 * p + i mod 64" using i(1) by simp
        then have "c \<le> i \<longleftrightarrow> r \<le> i mod 64" "i < c + nr \<longleftrightarrow> i mod 64 < r + nr" using c by simp_all linarith+
        then show ?thesis unfolding r_def [symmetric] p_def [symmetric] e
          using True i(2) m pos by (auto simp: g bit_and_iff first_mask_bit last_mask_bit h r_def [symmetric])
      next
        case other: False
        then have "\<not> (c \<le> i \<and> i < c + nr)" using c lt unfolding div64_iff by auto
        then have "(c \<le> i \<and> i < c + nr) = False" by blast
        then show ?thesis unfolding r_def [symmetric] p_def [symmetric] e using other by (simp only: fun_upd_apply if_False)
      qed
    qed
  qed
qed

lemma qemu_bitmap_set_bits:
  assumes "0 \<le> start" "0 \<le> nr"
  shows "\<exists>m. qemu_bitmap_set mp start nr = Some m \<and> (\<forall>i. bm m i \<longleftrightarrow> bm mp i \<or> start \<le> int i \<and> int i < start + nr)"
proof -
  let ?m = "range_loop (\<lambda>m w. w OR m) mp (nat start div 64) nr (64 - start mod 64) (BITMAP_FIRST_WORD_MASK (nat start)) (nat (start + nr))"
  have "bm ?m i \<longleftrightarrow> bm mp i \<or> start \<le> int i \<and> int i < start + nr" for i
    using range_loop_bits [of "\<lambda>m w. w OR m" "\<lambda>a b. b \<or> a" mp "nat start" "nat nr" i] assms
    by (auto simp: bit_or_iff zmod_int nat_add_distrib split: if_splits)
  then show ?thesis using assms by (simp add: qemu_bitmap_set_def)
qed

lemma qemu_bitmap_clear_bits:
  assumes "0 \<le> start" "0 \<le> nr"
  shows "\<exists>m. qemu_bitmap_clear mp start nr = Some m \<and> (\<forall>i. bm m i \<longleftrightarrow> bm mp i \<and> \<not> (start \<le> int i \<and> int i < start + nr))"
proof -
  let ?m = "range_loop (\<lambda>m w. w AND NOT m) mp (nat start div 64) nr (64 - start mod 64) (BITMAP_FIRST_WORD_MASK (nat start)) (nat (start + nr))"
  have "bm ?m i \<longleftrightarrow> bm mp i \<and> \<not> (start \<le> int i \<and> int i < start + nr)" for i
    using range_loop_bits [of "\<lambda>m w. w AND NOT m" "\<lambda>a b. b \<and> \<not> a" mp "nat start" "nat nr" i] assms
    by (auto simp: bit_and_iff bit_not_iff zmod_int nat_add_distrib split: if_splits)
  then show ?thesis using assms by (simp add: qemu_bitmap_clear_def)
qed

section \<open>The atomic variants\<close>

lemma range_loop_aligned:
  assumes "0 \<le> nr"
  shows "range_loop g mp p nr 64 (NOT 0) sz =
    (let n = nat nr div 64; mp' = (\<lambda>k. if p \<le> k \<and> k < p + n then g (NOT 0) (mp k) else mp k)
     in if nr mod 64 \<noteq> 0 then mp'(p + n := g (BITMAP_LAST_WORD_MASK sz) (mp (p + n))) else mp')"
  using assms
proof (induction "nat nr" arbitrary: mp p nr rule: less_induct)
  case less
  show ?case
  proof (cases "64 \<le> nr")
    case True
    have "nat nr = nat (nr - 64) + 64" using True by simp
    then have n: "nat nr div 64 = Suc (nat (nr - 64) div 64)" by simp
    have m: "(nr - 64) mod 64 = nr mod 64" by simp
    have "range_loop g mp p nr 64 (NOT 0) sz = range_loop g (mp(p := g (NOT 0) (mp p))) (p + 1) (nr - 64) 64 (NOT 0) sz"
      using True by (subst range_loop.simps) simp
    also have "\<dots> = (let n = nat (nr - 64) div 64; mp' = (\<lambda>k. if p + 1 \<le> k \<and> k < p + 1 + n then g (NOT 0) ((mp(p := g (NOT 0) (mp p))) k) else (mp(p := g (NOT 0) (mp p))) k)
     in if (nr - 64) mod 64 \<noteq> 0 then mp'(p + 1 + n := g (BITMAP_LAST_WORD_MASK sz) ((mp(p := g (NOT 0) (mp p))) (p + 1 + n))) else mp')"
      by (rule less.hyps) (use True in auto)
    finally show ?thesis unfolding n m Let_def by (auto simp: fun_eq_iff Suc_le_eq order_le_less)
  next
    case False
    then have n: "nat nr div 64 = 0" "nr mod 64 = nr" using less.prems by auto
    show ?thesis using False less.prems by (subst range_loop.simps) (auto simp: n fun_eq_iff)
  qed
qed

lemma full_words_set_eq: "full_words_set mp p n = (\<lambda>k. if p \<le> k \<and> k < p + n then NOT 0 else mp k)"
  by (induction n arbitrary: mp p) (auto simp: fun_eq_iff)

lemma full_words_clear_fst: "fst (full_words_clear mp p d n) = (\<lambda>k. if p \<le> k \<and> k < p + n then 0 else mp k)"
proof (induction n arbitrary: mp p d)
  case 0
  show ?case by (auto simp: fun_eq_iff)
next
  case (Suc n)
  have k: "p \<le> k \<and> k < p + Suc n \<longleftrightarrow> k = p \<or> p + 1 \<le> k \<and> k < p + 1 + n" for k by auto
  show ?case unfolding k by (cases "mp p = 0") (simp_all add: Suc fun_eq_iff)
qed

lemma full_words_clear_snd:
  "snd (full_words_clear mp p d n) \<noteq> 0 \<longleftrightarrow> d \<noteq> 0 \<or> (\<exists>k. (p \<le> k \<and> k < p + n) \<and> mp k \<noteq> 0)"
proof (induction n arbitrary: mp p d)
  case (Suc n)
  have k: "p \<le> k \<and> k < p + Suc n \<longleftrightarrow> k = p \<or> p + 1 \<le> k \<and> k < p + 1 + n" for k by auto
  show ?case
  proof (cases "mp p = 0")
    case True
    then have "(\<exists>k. (k = p \<or> p + 1 \<le> k \<and> k < p + 1 + n) \<and> mp k \<noteq> 0) \<longleftrightarrow> (\<exists>k. (p + 1 \<le> k \<and> k < p + 1 + n) \<and> mp k \<noteq> 0)" by blast
    then show ?thesis using True unfolding k by (simp only: full_words_clear.simps Suc if_False simp_thms)
  next
    case False
    then have "d OR mp p \<noteq> 0" by (simp add: or_eq_0_iff)
    then show ?thesis using False unfolding k by (simp only: full_words_clear.simps Suc if_True simp_thms) blast
  qed
qed auto

lemma last_mask_full: "n mod 64 = 0 \<Longrightarrow> BITMAP_LAST_WORD_MASK n = NOT 0"
  by (simp add: BITMAP_LAST_WORD_MASK_def)

lemma first_mask_aligned: "s mod 64 = 0 \<Longrightarrow> BITMAP_FIRST_WORD_MASK s = NOT 0"
  by (simp add: BITMAP_FIRST_WORD_MASK_def)

lemma nat_mod64: "0 \<le> x \<Longrightarrow> nat x mod 64 = nat (x mod 64)"
  by (simp add: nat_mod_distrib)

text \<open>The number of bits before the next word boundary, as the atomic operations count them.\<close>

lemma first_word_masks:
  assumes "0 \<le> start" "0 \<le> nr" "nr \<le> 64 - start mod 64" "64 - start mod 64 \<noteq> 64" "nr \<noteq> 0"
  shows "range_loop g mp p nr (64 - start mod 64) m (nat (start + nr))
    = mp(p := g (m AND BITMAP_LAST_WORD_MASK (nat (start + nr))) (mp p))"
proof (cases "nr = 64 - start mod 64")
  case True
  have "start + nr = 64 * (start div 64 + 1)" 
    unfolding True using minus_mod_eq_mult_div [of start 64] by (simp add: algebra_simps)
  then have "(start + nr) mod 64 = 0" by (simp only: mod_mult_self1_is_0)
  then have "nat (start + nr) mod 64 = 0" using assms(1,2) by (subst nat_mod64) simp_all
  then have "BITMAP_LAST_WORD_MASK (nat (start + nr)) = NOT 0" by (rule last_mask_full)
  moreover have "range_loop g mp p nr (64 - start mod 64) m (nat (start + nr)) = range_loop g (mp(p := g m (mp p))) (p + 1) 0 64 (NOT 0) (nat (start + nr))"
    unfolding True by (subst range_loop.simps) simp
  ultimately show ?thesis by (subst (asm) (2) range_loop.simps) simp
next
  case False
  then show ?thesis using assms by (subst range_loop.simps) auto
qed

lemma range_loop_set:
  assumes "0 \<le> nr"
  shows "range_loop (\<lambda>m w. w OR m) mp p nr 64 (- 1) sz =
    (if nr - 64 * int (nat nr div 64) \<noteq> 0
     then (full_words_set mp p (nat nr div 64))(p + nat nr div 64 :=
       full_words_set mp p (nat nr div 64) (p + nat nr div 64) OR BITMAP_LAST_WORD_MASK sz)
     else full_words_set mp p (nat nr div 64))"
proof -
  have "nr - 64 * int (nat nr div 64) = nr mod 64" using assms by (simp add: zdiv_int minus_mult_div_eq_mod)
  moreover have "w OR NOT 0 = NOT 0" for w :: u64 by simp
  ultimately show ?thesis using range_loop_aligned [OF assms, of "\<lambda>m w. w OR m" mp p sz]
    by (simp only: full_words_set_eq Let_def) simp
qed

lemma bitmap_set_atomic_eq: "bitmap_set_atomic mp start nr = qemu_bitmap_set mp start nr"
proof (cases "start \<ge> 0 \<and> nr \<ge> 0")
  case True
  let ?b = "64 - start mod 64" and ?p = "nat start div 64" and ?m = "BITMAP_FIRST_WORD_MASK (nat start)" and ?sz = "nat (start + nr)"
    and ?g = "\<lambda>m w :: u64. w OR m"
  consider (more) "nr - ?b > 0" | (word) "\<not> nr - ?b > 0" "?b = 64" | (part) "\<not> nr - ?b > 0" "?b \<noteq> 64" by blast
  then show ?thesis
  proof cases
    case more
    then have "range_loop ?g mp ?p nr ?b ?m ?sz = range_loop ?g (mp(?p := mp ?p OR ?m)) (?p + 1) (nr - ?b) 64 (- 1) ?sz"
      by (subst range_loop.simps) simp
    also note range_loop_set
    finally show ?thesis using True more by (simp add: bitmap_set_atomic_def qemu_bitmap_set_def Let_def)
  next
    case word
    then have "nat start mod 64 = 0" using True by (subst nat_mod64) simp_all
    then show ?thesis using True word
      by (simp add: bitmap_set_atomic_def qemu_bitmap_set_def first_mask_aligned range_loop_set Let_def)
  next
    case part
    moreover have "start mod 64 \<noteq> 64" using pos_mod_bound [of 64 start] by linarith
    ultimately show ?thesis using True first_word_masks [of start nr ?g mp ?p ?m]
      by (cases "nr = 0") (simp_all add: bitmap_set_atomic_def qemu_bitmap_set_def Let_def range_loop.simps)
  qed
next
  case False
  then show ?thesis by (simp only: bitmap_set_atomic_def qemu_bitmap_set_def if_False)
qed

lemma and_not_eq_iff: "x AND NOT m = x \<longleftrightarrow> x AND m = 0" for x :: "'a::len word"
  by (auto simp: bit_eq_iff bit_and_iff bit_not_iff dest: bit_imp_le_length)

text \<open>The last two steps of \<open>bitmap_test_and_clear_atomic\<close>.\<close>

lemma range_loop_clear:
  fixes mp :: bitmap and p sz :: nat and d :: u64 and nr :: int
  assumes "0 \<le> nr"
  defines "n \<equiv> nat nr div 64"
  defines "c \<equiv> full_words_clear mp p d n" and "r \<equiv> range_loop (\<lambda>m w. w AND NOT m) mp p nr 64 (- 1) sz"
  shows "(if nr - 64 * int n \<noteq> 0
     then (fst c)(p + n := fst c (p + n) AND NOT (BITMAP_LAST_WORD_MASK sz)) else fst c) = r" (is "?m = r")
    and "(if nr - 64 * int n \<noteq> 0 then snd c OR (fst c (p + n) AND BITMAP_LAST_WORD_MASK sz) else snd c) \<noteq> 0
      \<longleftrightarrow> d \<noteq> 0 \<or> r \<noteq> mp" (is "?d \<noteq> 0 \<longleftrightarrow> _")
    and "k < p \<Longrightarrow> r k = mp k"
proof -
  have e: "nr - 64 * int n = nr mod 64" using assms by (simp add: zdiv_int minus_mult_div_eq_mod)
  have z: "w AND NOT (NOT 0) = 0" for w :: u64 by simp
  show r: "?m = r" using range_loop_aligned [OF assms(1), of "\<lambda>m w. w AND NOT m" mp p sz]
    unfolding r_def c_def e full_words_clear_fst n_def [symmetric] by (simp only: Let_def z) simp
  have pn: "\<not> p + n < p + n" by simp
  have "r \<noteq> mp \<longleftrightarrow> (\<exists>k. (p \<le> k \<and> k < p + n) \<and> mp k \<noteq> 0)
      \<or> nr mod 64 \<noteq> 0 \<and> mp (p + n) AND BITMAP_LAST_WORD_MASK sz \<noteq> 0"
    unfolding r [symmetric] e c_def full_words_clear_fst
    by (auto simp: fun_eq_iff and_not_eq_iff)
  then show "?d \<noteq> 0 \<longleftrightarrow> d \<noteq> 0 \<or> r \<noteq> mp"
    unfolding e c_def full_words_clear_fst using full_words_clear_snd [of mp p d n] by (auto simp: or_eq_0_iff)
  show "k < p \<Longrightarrow> r k = mp k"
    unfolding r [symmetric] c_def full_words_clear_fst by simp
qed

lemma bitmap_test_and_clear_atomic_eq:
  "bitmap_test_and_clear_atomic mp start nr = map_option (\<lambda>m. (m \<noteq> mp, m)) (qemu_bitmap_clear mp start nr)"
proof (cases "start \<ge> 0 \<and> nr \<ge> 0")
  case True
  let ?b = "64 - start mod 64" and ?p = "nat start div 64" and ?m = "BITMAP_FIRST_WORD_MASK (nat start)" and ?sz = "nat (start + nr)"
    and ?g = "\<lambda>m w :: u64. w AND NOT m"
  consider (more) "nr - ?b > 0" | (word) "\<not> nr - ?b > 0" "?b = 64" | (part) "\<not> nr - ?b > 0" "?b \<noteq> 64" by blast
  then show ?thesis
  proof cases
    case more
    define mp1 where "mp1 = mp(?p := mp ?p AND NOT ?m)"
    define r where "r = range_loop ?g mp1 (?p + 1) (nr - ?b) 64 (- 1) ?sz"
    have e: "range_loop ?g mp ?p nr ?b ?m ?sz = r"
      unfolding r_def mp1_def using more by (subst range_loop.simps) simp
    have n: "0 \<le> nr - ?b" using more by simp
    note l = range_loop_clear(1,2) [OF n, where p = "?p + 1" and mp = mp1 and d = "mp ?p AND ?m" and sz = ?sz, folded r_def]
    have "r ?p = mp ?p AND NOT ?m"
      using range_loop_clear(3) [OF n, of ?p "?p + 1" mp1 ?sz] by (simp add: mp1_def r_def)
    then have "r \<noteq> mp \<longleftrightarrow> mp ?p AND ?m \<noteq> 0 \<or> r \<noteq> mp1"
      by (metis and_not_eq_iff fun_upd_triv mp1_def)
    then show ?thesis using True more l
      by (cases "nr - ?b = 64 * int (nat (nr - ?b) div 64)")
        (simp_all add: bitmap_test_and_clear_atomic_def qemu_bitmap_clear_def Let_def e mp1_def [symmetric] case_prod_unfold)
  next
    case word
    then have "nat start mod 64 = 0" using True by (subst nat_mod64) simp_all
    then show ?thesis using True word range_loop_clear(1,2) [of nr mp ?p 0 ?sz]
      by (cases "nr = 64 * int (nat nr div 64)")
        (simp_all add: bitmap_test_and_clear_atomic_def qemu_bitmap_clear_def first_mask_aligned Let_def case_prod_unfold)
  next
    case part
    moreover have "start mod 64 \<noteq> 64" using pos_mod_bound [of 64 start] by linarith
    moreover have "mp ?p = mp ?p AND NOT (?m AND BITMAP_LAST_WORD_MASK ?sz) \<longleftrightarrow> mp ?p AND (?m AND BITMAP_LAST_WORD_MASK ?sz) = 0"
      by (metis and_not_eq_iff)
    ultimately show ?thesis using True first_word_masks [of start nr ?g mp ?p ?m]
      by (cases "nr = 0") (simp_all add: bitmap_test_and_clear_atomic_def qemu_bitmap_clear_def Let_def range_loop.simps
          fun_upd_idem_iff)
  qed
next
  case False
  then show ?thesis by (simp only: bitmap_test_and_clear_atomic_def qemu_bitmap_clear_def if_False option.map)
qed

lemma bitmap_ext: "m = mp \<longleftrightarrow> (\<forall>i. bm m i \<longleftrightarrow> bm mp i)"
proof -
  have "bit (m k) j \<longleftrightarrow> bit (mp k) j" if "\<forall>i. bm m i \<longleftrightarrow> bm mp i" for k j
  proof (cases "j < 64")
    case True
    then show ?thesis using that [rule_format, of "64 * k + j"] by simp
  next
    case False
    then show ?thesis by (auto dest: bit_imp_le_length)
  qed
  then show ?thesis by (auto simp: fun_eq_iff bit_eq_iff)
qed

lemma bitmap_copy_and_clear_atomic_eq:
  "bitmap_copy_and_clear_atomic dst src nr =
     (let n = BITS_TO_LONGS (nat nr) in (\<lambda>k. if k < n then src k else dst k, \<lambda>k. if k < n then 0 else src k))"
proof -
  have "bitmap_copy_and_clear_loop dst src p nr =
     (let n = BITS_TO_LONGS (nat nr) in (\<lambda>k. if p \<le> k \<and> k < p + n then src k else dst k, \<lambda>k. if p \<le> k \<and> k < p + n then 0 else src k))" for p
  proof (induction dst src p nr rule: bitmap_copy_and_clear_loop.induct)
    case (1 dst src p nr)
    show ?case
    proof (cases "nr > 0")
      case True
      have "BITS_TO_LONGS (nat nr) = Suc (BITS_TO_LONGS (nat (nr - 64)))"
      proof (cases "nr \<ge> 64")
        case True
        then have "nat nr + 63 = nat (nr - 64) + 63 + 64" by simp
        then show ?thesis by (simp add: BITS_TO_LONGS_def)
      next
        case False
        then show ?thesis using True by (simp add: bits_to_longs_small BITS_TO_LONGS_def)
      qed
      moreover have "(k = p \<or> p + 1 \<le> k \<and> k < p + 1 + n) = (p \<le> k \<and> k < p + Suc n)" for k n by auto
      moreover have "bitmap_copy_and_clear_loop dst src p nr = bitmap_copy_and_clear_loop (dst(p := src p)) (src(p := 0)) (p + 1) (nr - 64)"
        using True by (subst bitmap_copy_and_clear_loop.simps) simp
      ultimately show ?thesis unfolding 1 [OF True] Let_def by (auto simp: fun_eq_iff)
    next
      case False
      then show ?thesis by (subst bitmap_copy_and_clear_loop.simps) (auto simp: BITS_TO_LONGS_def Let_def fun_eq_iff)
    qed
  qed
  then show ?thesis by (simp add: bitmap_copy_and_clear_atomic_def)
qed

text \<open>
  C35. On a valid range \<open>qemu_bitmap_set\<close> sets the bits of the range and changes no other,
  \<open>bitmap_set_atomic\<close> gives the same bitmap, \<open>qemu_bitmap_clear\<close> clears them and no other, and
  \<open>bitmap_test_and_clear_atomic\<close> gives that bitmap together with whether a bit of the range was set.
\<close>

theorem bitmap_range_ops:
  assumes "0 \<le> start" "0 \<le> nr"
  shows "(\<exists>m. qemu_bitmap_set mp start nr = Some m \<and> bitmap_set_atomic mp start nr = Some m
      \<and> (\<forall>i. test_bit i m \<longleftrightarrow> test_bit i mp \<or> start \<le> int i \<and> int i < start + nr))
    \<and> (\<exists>m. qemu_bitmap_clear mp start nr = Some m
      \<and> bitmap_test_and_clear_atomic mp start nr
        = Some (\<exists>i. start \<le> int i \<and> int i < start + nr \<and> test_bit i mp, m)
      \<and> (\<forall>i. test_bit i m \<longleftrightarrow> test_bit i mp \<and> \<not> (start \<le> int i \<and> int i < start + nr)))"
proof
  show "\<exists>m. qemu_bitmap_set mp start nr = Some m \<and> bitmap_set_atomic mp start nr = Some m
      \<and> (\<forall>i. test_bit i m \<longleftrightarrow> test_bit i mp \<or> start \<le> int i \<and> int i < start + nr)"
    using qemu_bitmap_set_bits [OF assms, of mp] by (auto simp: bitmap_set_atomic_eq)
  obtain m where m: "qemu_bitmap_clear mp start nr = Some m" "\<And>i. bm m i \<longleftrightarrow> bm mp i \<and> \<not> (start \<le> int i \<and> int i < start + nr)"
    using qemu_bitmap_clear_bits [OF assms, of mp] by blast
  have "m \<noteq> mp \<longleftrightarrow> (\<exists>i. start \<le> int i \<and> int i < start + nr \<and> bm mp i)"
    unfolding bitmap_ext m(2) by blast
  then show "\<exists>m. qemu_bitmap_clear mp start nr = Some m
      \<and> bitmap_test_and_clear_atomic mp start nr
        = Some (\<exists>i. start \<le> int i \<and> int i < start + nr \<and> test_bit i mp, m)
      \<and> (\<forall>i. test_bit i m \<longleftrightarrow> test_bit i mp \<and> \<not> (start \<le> int i \<and> int i < start + nr))"
    using m by (simp add: bitmap_test_and_clear_atomic_eq)
qed

theorem bitmap_range_ops_witness:
  "bitmap_set_atomic (\<lambda>_. 0) 60 70 = qemu_bitmap_set (\<lambda>_. 0) 60 70
    \<and> (\<exists>m. bitmap_test_and_clear_atomic (\<lambda>_. 1) 60 70 = Some (True, m) \<and> \<not> test_bit 64 m)"
proof
  have p: "(0::int) \<le> 60" "(0::int) \<le> 70" by simp_all
  show "bitmap_set_atomic (\<lambda>_. 0) 60 70 = qemu_bitmap_set (\<lambda>_. 0) 60 70"
    using conjunct1 [OF bitmap_range_ops [OF p, of "\<lambda>_. 0"]] by (elim exE) (simp only:)
  let ?e = "\<exists>i. (60::int) \<le> int i \<and> int i < 60 + 70 \<and> test_bit i (\<lambda>_. 1)"
  obtain m where m: "bitmap_test_and_clear_atomic (\<lambda>_. 1) 60 70 = Some (?e, m)"
      "\<And>i. test_bit i m \<longleftrightarrow> test_bit i (\<lambda>_. 1) \<and> \<not> ((60::int) \<le> int i \<and> int i < 60 + 70)"
    using conjunct2 [OF bitmap_range_ops [OF p, of "\<lambda>_. 1"]] by (elim exE conjE) (rule that, assumption, blast)
  have e: "?e = True" by (rule eqTrueI, rule exI [of _ 64]) simp
  have "\<not> test_bit 64 m" unfolding m(2) by simp
  then show "\<exists>m. bitmap_test_and_clear_atomic (\<lambda>_. 1) 60 70 = Some (True, m) \<and> \<not> test_bit 64 m"
    using m(1) unfolding e by blast
qed

end
