(* ===== verification/Bitmap_Area.thy ===== *)
theory Bitmap_Area
  imports Bitmap_Range
begin

text \<open>
  The search for a free, aligned area of a bitmap and the copies of a bitmap at an offset.
\<close>

section \<open>Free areas\<close>

text \<open>
  An area of \<open>nr\<close> clear bits within the first \<open>sz\<close> bits, at or after \<open>start\<close>, at a multiple of
  \<open>align_mask + 1\<close>.
\<close>

definition free_area :: "bitmap \<Rightarrow> nat \<Rightarrow> nat \<Rightarrow> nat \<Rightarrow> nat \<Rightarrow> nat \<Rightarrow> bool" where
  "free_area mp sz start nr align_mask idx \<longleftrightarrow>
     start \<le> idx \<and> idx mod (align_mask + 1) = 0 \<and> idx + nr \<le> sz \<and> list_all (\<lambda>i. \<not> test_bit i mp) [idx..<idx + nr]"

lemma free_area_bits: "free_area mp sz start nr am idx \<longleftrightarrow>
    start \<le> idx \<and> idx mod (am + 1) = 0 \<and> idx + nr \<le> sz \<and> (\<forall>i. idx \<le> i \<and> i < idx + nr \<longrightarrow> \<not> bm mp i)"
  by (auto simp: free_area_def list_all_iff)

lemma ALIGN_MASK_eq:
  assumes "x + m < 2 ^ 64" "m = 2 ^ a - 1"
  shows "ALIGN_MASK x m = ((x + m) div (m + 1)) * (m + 1)"
proof -
  let ?w = "of_nat (x + m) :: u64"
  have m: "m + 1 = 2 ^ a" "m = mask a" using assms(2) by (simp_all add: mask_eq_exp_minus_1)
  have u: "unat ?w = x + m" using assms(1) by (simp add: unat_of_nat take_bit_nat_eq_self del: of_nat_add)
  have w: "of_nat x + of_nat m = ?w" by simp
  have mw: "of_nat m = (mask a :: u64)" unfolding m(2) by (rule of_nat_mask_eq)
  have a: "v AND NOT (mask a) = push_bit a (drop_bit a v)" for v :: u64
    by (auto simp: bit_eq_iff bit_simps)
  have "ALIGN_MASK x m = unat (push_bit a (drop_bit a ?w))"
    unfolding ALIGN_MASK_def w by (subst mw) (simp only: a)
  also have "\<dots> = take_bit 64 (push_bit a (drop_bit a (x + m)))"
    by (subst unsigned_push_bit_eq, subst unat_drop_bit_eq) (simp only: u, simp)
  also have "\<dots> = (x + m) div (m + 1) * (m + 1)"
    unfolding m(1) push_bit_eq_mult drop_bit_eq_div
    by (rule take_bit_nat_eq_self) (use assms(1) div_times_less_eq_dividend [of "x + m" "2 ^ a"] in linarith)
  finally show ?thesis .
qed

lemma align_least:
  assumes "x + m < 2 ^ 64" "m = 2 ^ a - 1"
  shows "x \<le> ALIGN_MASK x m" "ALIGN_MASK x m \<le> x + m" "ALIGN_MASK x m mod (m + 1) = 0" "x \<le> y \<Longrightarrow> y mod (m + 1) = 0 \<Longrightarrow> ALIGN_MASK x m \<le> y"
proof -
  let ?q = "(x + m) div (m + 1)"
  note e = ALIGN_MASK_eq [OF assms]
  have s: "x + m = ?q * (m + 1) + (x + m) mod (m + 1)" by (rule div_mult_mod_eq [symmetric])
  have r: "(x + m) mod (m + 1) < m + 1" by simp
  show "x \<le> ALIGN_MASK x m" unfolding e using s r by linarith
  show "ALIGN_MASK x m \<le> x + m" unfolding e by (rule div_times_less_eq_dividend)
  show "ALIGN_MASK x m mod (m + 1) = 0" unfolding e by (rule mod_mult_self2_is_0)
  show "ALIGN_MASK x m \<le> y" if y: "x \<le> y" "y mod (m + 1) = 0"
  proof -
    obtain c where c: "y = (m + 1) * c" using y(2) by (metis mod_0_imp_dvd dvd_def)
    have "x + m < (m + 1) * c + (m + 1)" using y(1) c by simp
    then have "?q < c + 1" by (intro less_mult_imp_div_less) (simp add: algebra_simps)
    then have "?q * (m + 1) \<le> c * (m + 1)" by (intro mult_right_mono) simp_all
    then show ?thesis unfolding e c by (simp only: mult.commute)
  qed
qed

lemma zero_area_index:
  assumes "0 < nr" "free_area mp sz start nr am idx" "sz + am < 2 ^ 64" "am = 2 ^ a - 1"
  shows "ALIGN_MASK (find_next_zero_bit mp sz start) am \<le> idx"
proof -
  have i: "start \<le> idx" "idx mod (am + 1) = 0" "idx < sz" "\<not> bm mp idx" using assms(1,2) by (auto simp: free_area_bits)
  have h: "first_hit (\<lambda>i. \<not> bm mp i) start sz (find_next_zero_bit mp sz start)"
    using i by (intro find_next_zero_bit_hit) simp
  then have "find_next_zero_bit mp sz start \<le> idx" using i unfolding first_hit_def by (meson not_le)
  then show ?thesis using align_least(4) [of "find_next_zero_bit mp sz start" am a idx] i(2) assms(3,4) h
    by (auto simp: first_hit_def)
qed

lemma find_next_zero_bit_bounds: "find_next_zero_bit mp sz start \<le> sz" "start \<le> sz \<Longrightarrow> start \<le> find_next_zero_bit mp sz start"
  using find_next_zero_bit_hit [of start sz mp] by (cases "start < sz"; auto simp: first_hit_def find_next_zero_bit_def)+

text \<open>After a set bit within the candidate, the areas that start beyond it are the only ones left.\<close>

lemma free_area_resume:
  assumes "bm mp i" "index \<le> i" "i < index + nr" "start \<le> index" "\<And>idx. free_area mp sz start nr am idx \<Longrightarrow> index \<le> idx"
  shows "free_area mp sz start nr am idx \<longleftrightarrow> free_area mp sz (i + 1) nr am idx"
proof
  assume f: "free_area mp sz start nr am idx"
  then have "\<not> (idx \<le> i \<and> i < idx + nr)" using assms(1) by (auto simp: free_area_bits)
  then have "i < idx" using assms(3) assms(5) [OF f] by linarith
  then show "free_area mp sz (i + 1) nr am idx" using f by (simp add: free_area_bits)
next
  assume "free_area mp sz (i + 1) nr am idx"
  then show "free_area mp sz start nr am idx" using assms(2,4) by (simp add: free_area_bits)
qed

text \<open>When the candidate ends beyond the bitmap there is no area.\<close>

lemma no_free_area:
  assumes "\<And>idx. free_area mp sz start nr am idx \<Longrightarrow> index \<le> idx" "sz < index + nr"
  shows "\<not> free_area mp sz start nr am idx"
proof
  assume f: "free_area mp sz start nr am idx"
  then have "idx + nr \<le> sz" by (simp add: free_area_bits)
  then show False using assms(1) [OF f] assms(2) by simp
qed

text \<open>
  C33. When the bitmap, the alignment and the area together stay below the width of an
  \<open>unsigned long\<close>, the alignment is a power of two and the area is not empty,
  \<open>bitmap_find_next_zero_area\<close> ends: it gives the first aligned free area at or after \<open>start\<close> when
  there is one, and a number beyond the bitmap when there is none.
\<close>

theorem bitmap_find_next_zero_area_terminates:
  assumes "0 < nr" "sz + am + nr < 2 ^ 64" "am = 2 ^ a - 1"
  shows "\<exists>r. bitmap_find_next_zero_area mp sz start nr am = Some r
    \<and> (if \<exists>idx. free_area mp sz start nr am idx
       then free_area mp sz start nr am r \<and> (\<forall>idx. free_area mp sz start nr am idx \<longrightarrow> r \<le> idx) else sz < r)"
proof (induction "sz + 1 - start" arbitrary: start rule: less_induct)
  case less
  define z where "z = find_next_zero_bit mp sz start"
  define index where "index = ALIGN_MASK z am"
  define e where "e = index + nr"
  have z: "z \<le> sz" "start \<le> sz \<Longrightarrow> start \<le> z" by (simp_all add: z_def find_next_zero_bit_bounds)
  then have zam: "z + am < 2 ^ 64" using assms(2) by simp
  note al = align_least [OF zam assms(3), folded index_def]
  have least: "index \<le> idx" if "free_area mp sz start nr am idx" for idx
    unfolding index_def z_def by (rule zero_area_index [OF assms(1) that _ assms(3)]) (use assms(2) in simp)
  have "(index + nr) mod 2 ^ 64 = e" using al(2) z(1) assms(2) by (simp add: e_def)
  then have step: "bitmap_find_next_zero_area mp sz start nr am = (if e > sz then Some e
      else if find_next_bit mp e index < e then bitmap_find_next_zero_area mp sz (find_next_bit mp e index + 1) nr am else Some index)"
    by (subst bitmap_find_next_zero_area.simps) (simp only: Let_def z_def [symmetric] index_def [symmetric])
  show ?case
  proof (cases "e > sz")
    case True
    then have "\<not> free_area mp sz start nr am idx" for idx by (intro no_free_area [OF least]) (simp_all add: e_def)
    then show ?thesis using True step by simp
  next
    case False
    have "z \<noteq> sz" using False al(1) assms(1) by (auto simp: e_def)
    then have "start \<le> sz" by (rule contrapos_np) (simp add: z_def find_next_zero_bit_def)
    then have st: "start \<le> index" using z al(1) by simp
    define i where "i = find_next_bit mp e index"
    have h: "first_hit (bm mp) index e i" unfolding i_def by (rule find_next_bit_hit) (use assms(1) in \<open>simp add: e_def\<close>)
    show ?thesis
    proof (cases "i < e")
      case True
      then have b: "bm mp i" "index \<le> i" using h by (auto simp: first_hit_def)
      have eq: "free_area mp sz start nr am idx \<longleftrightarrow> free_area mp sz (i + 1) nr am idx" for idx
        using free_area_resume [of mp i index nr start sz am idx, OF b _ st] least True by (simp add: e_def)
      have "sz + 1 - (i + 1) < sz + 1 - start" using True False b st by simp
      from less [OF this] show ?thesis unfolding eq using step True False by (simp add: i_def [symmetric])
    next
      case no: False
      then have "\<not> bm mp j" if "index \<le> j" "j < index + nr" for j using h that by (auto simp: first_hit_def e_def)
      then have "free_area mp sz start nr am index" using st al(3) False by (auto simp: free_area_bits e_def)
      then show ?thesis using least step no False by (auto simp: i_def [symmetric])
    qed
  qed
qed

theorem bitmap_find_next_zero_area_terminates_witness: "bitmap_find_next_zero_area (\<lambda>_. 1) 128 0 4 3 = Some 4"
proof -
  have f: "free_area (\<lambda>_. 1) 128 0 4 3 4" by (simp add: free_area_def upt_start)
  have n: "\<not> free_area (\<lambda>_. 1) 128 0 4 3 0" by (simp add: free_area_def upt_start)
  have p: "(0::nat) < 4" "(128::nat) + 3 + 4 < 2 ^ 64" "(3::nat) = 2 ^ 2 - 1" by simp_all
  obtain r where r: "bitmap_find_next_zero_area (\<lambda>_. 1) 128 0 4 3 = Some r" "free_area (\<lambda>_. 1) 128 0 4 3 r" "r \<le> 4"
    using bitmap_find_next_zero_area_terminates [OF p, of "\<lambda>_. 1" 0] f by metis
  have "r \<noteq> 0" using r(2) n by metis
  moreover have "r mod (3 + 1) = 0" using r(2) unfolding free_area_def by (elim conjE)
  ultimately have "r = 4" using r(3) by presburger
  then show ?thesis using r(1) by simp
qed


section \<open>Copies at an offset\<close>

lemma low_mask: "push_bit s 1 - 1 = (mask s :: u64)"
  by (simp add: mask_eq_exp_minus_1 push_bit_eq_mult)

lemma bm_shift:
  assumes "s < 64" "j < 64"
  shows "bm m (64 * b + s + (64 * k + j)) = (if s + j < 64 then bit (m (b + k)) (s + j) else bit (m (b + k + 1)) (s + j - 64))"
proof (cases "s + j < 64")
  case True
  then have "(64 * b + s + (64 * k + j)) div 64 = b + k" by (intro div_nat_eqI) auto
  moreover have "64 * b + s + (64 * k + j) = 64 * (b + k) + (s + j)" by simp
  ultimately show ?thesis using True by (simp only: mod_mult_self4) (simp add: mod_less)
next
  case False
  then have "(64 * b + s + (64 * k + j)) div 64 = b + k + 1" using assms by (intro div_nat_eqI) auto
  moreover have "64 * b + s + (64 * k + j) = 64 * (b + k + 1) + (s + j - 64)" using False by simp
  ultimately show ?thesis using False assms by (simp only: mod_mult_self4) (simp add: mod_less)
qed

section \<open>Copy from an offset\<close>

definition src_word :: "bitmap \<Rightarrow> nat \<Rightarrow> nat \<Rightarrow> u64" where
  "src_word src shift k = drop_bit shift (src k AND NOT (mask shift)) OR push_bit (64 - shift) (src (k + 1) AND mask shift)"

lemma src_word_bit:
  assumes "0 < s" "s < 64" "j < 64"
  shows "bit (src_word src s k) j = (if s + j < 64 then bit (src k) (s + j) else bit (src (k + 1)) (s + j - 64))"
  using assms by (auto simp: src_word_def bit_simps add.commute dest: bit_imp_le_length)

lemma copy_src_words_eq:
  "copy_src_words dst src s k n = (\<lambda>k'. if k \<le> k' \<and> k' < k + n then src_word src s k' else dst k')"
proof (induction n arbitrary: dst k)
  case 0
  show ?case by (auto simp: fun_eq_iff)
next
  case (Suc n)
  have "(k \<le> k' \<and> k' < k + Suc n) \<longleftrightarrow> k' = k \<or> k + 1 \<le> k' \<and> k' < k + 1 + n" for k' by auto
  then show ?case unfolding copy_src_words.simps Let_def Suc low_mask
    by (simp only: src_word_def [symmetric]) (auto simp: fun_eq_iff)
qed

lemma bitmap_copy_with_src_offset_bits:
  assumes "i < nbits"
  shows "bm (bitmap_copy_with_src_offset dst src shift nbits) i = bm src (shift + i)"
proof -
  define b s k j where "b = shift div 64" and "s = shift mod 64" and "k = i div 64" and "j = i mod 64"
  have sh: "shift = 64 * b + s" "s < 64" and i: "i = 64 * k + j" "j < 64" by (simp_all add: b_def s_def k_def j_def)
  have e: "bm src (shift + i) = (if s + j < 64 then bit (src (b + k)) (s + j) else bit (src (b + k + 1)) (s + j - 64))"
    unfolding sh(1) i(1) by (rule bm_shift) (simp_all add: sh i)
  define src' where "src' = (\<lambda>k. src (b + k))"
  show ?thesis
  proof (cases "s = 0")
    case True
    then have "bitmap_copy_with_src_offset dst src shift nbits = bitmap_copy dst src' nbits"
      by (simp add: bitmap_copy_with_src_offset_def src'_def b_def s_def Let_def)
    then show ?thesis using True i e bits_words_used [OF assms] by (simp add: elementwise_eq k_def [symmetric] j_def [symmetric] src'_def)
  next
    case False
    define n r where "n = nbits div 64" and "r = nbits mod 64"
    let ?d = "copy_src_words dst src' s 0 n"
    let ?l = "if r > 64 - s then ?d(n := drop_bit s (src' n AND NOT (mask s)) OR push_bit (64 - s) (src' (n + 1) AND mask (r - (64 - s))))
         else if r \<noteq> 0 then ?d(n := drop_bit s (src' n) AND mask r) else ?d"
    have l: "bitmap_copy_with_src_offset dst src shift nbits = ?l"
      using False by (simp only: bitmap_copy_with_src_offset_def src'_def b_def s_def n_def r_def Let_def if_False low_mask)
    have nb: "nbits = 64 * n + r" "r < 64" by (simp_all add: n_def r_def)
    show ?thesis
    proof (cases "k < n")
      case True
      then have "?l k = src_word src' s k" by (simp add: copy_src_words_eq)
      then show ?thesis unfolding l e k_def [symmetric] j_def [symmetric] using False sh(2) i(2)
        by (simp only: src_word_bit) (simp add: src'_def)
    next
      case no: False
      then have kn: "k = n" "j < r" using nb i assms by auto
      show ?thesis unfolding l e k_def [symmetric] j_def [symmetric] kn(1) using kn(2) nb(2) False sh(2)
        by (auto simp: bit_simps src'_def add.commute dest: bit_imp_le_length)
    qed
  qed
qed

section \<open>Copy to an offset\<close>

definition dst_step :: "bitmap \<Rightarrow> bitmap \<Rightarrow> nat \<Rightarrow> nat \<Rightarrow> nat \<Rightarrow> bitmap" where
  "dst_step dst src s b k = dst(b + k := dst (b + k) OR push_bit s (src k AND mask (64 - s)),
     b + k + 1 := drop_bit (64 - s) (src k AND NOT (mask (64 - s))))"

lemma dst_step_bits:
  assumes s: "0 < s" "s < 64" and z: "\<forall>j\<ge>s. \<not> bit (dst (b + k)) j"
  shows "p < 64 * (b + k) + s \<Longrightarrow> bm (dst_step dst src s b k) p = bm dst p"
    and "j < 64 \<Longrightarrow> bm (dst_step dst src s b k) (64 * b + s + (64 * k + j)) = bit (src k) j"
    and "s \<le> j \<Longrightarrow> \<not> bit (dst_step dst src s b k (b + k + 1)) j"
proof -
  show "bm (dst_step dst src s b k) p = bm dst p" if p: "p < 64 * (b + k) + s"
  proof (cases "p div 64 = b + k")
    case True
    then have "p mod 64 < s" using p mult_div_mod_eq [of 64 p] by simp
    then show ?thesis using True by (auto simp: dst_step_def bit_simps)
  next
    case False
    then have "p div 64 \<noteq> b + k + 1" using p s by (auto simp: div64_iff)
    then show ?thesis using False by (simp add: dst_step_def)
  qed
  show "bm (dst_step dst src s b k) (64 * b + s + (64 * k + j)) = bit (src k) j" if "j < 64"
    unfolding bm_shift [OF s(2) that] using that s z
    by (auto simp: dst_step_def bit_simps add.commute dest: bit_imp_le_length)
  show "\<not> bit (dst_step dst src s b k (b + k + 1)) j" if "s \<le> j"
    using that s by (auto simp: dst_step_def bit_simps dest: bit_imp_le_length)
qed

lemma copy_dst_words_bits:
  fixes src :: bitmap and n :: nat
  assumes s: "0 < s" "s < 64" and "\<forall>j\<ge>s. \<not> bit (dst (b + k)) j"
  defines "R \<equiv> copy_dst_words dst src s b k n"
  shows "(\<forall>p < 64 * (b + k) + s. bm R p = bm dst p)
    \<and> (\<forall>k' j. k \<le> k' \<and> k' < k + n \<and> j < 64 \<longrightarrow> bm R (64 * b + s + (64 * k' + j)) = bit (src k') j)
    \<and> (\<forall>j\<ge>s. \<not> bit (R (b + k + n)) j)"
  using assms(3) unfolding R_def
proof (induction n arbitrary: dst k)
  case (Suc n)
  define d where "d = dst_step dst src s b k"
  note st = dst_step_bits [where dst = dst and src = src and b = b and k = k, OF s Suc.prems, folded d_def]
  have e: "copy_dst_words dst src s b k (Suc n) = copy_dst_words d src s b (k + 1) n"
    by (simp only: copy_dst_words.simps Let_def low_mask d_def dst_step_def)
  have "\<forall>j\<ge>s. \<not> bit (d (b + (k + 1))) j" using st(3) by simp
  from Suc.IH [where dst = d and k = "k + 1", OF this] have ih: "\<And>p. p < 64 * (b + (k + 1)) + s \<Longrightarrow> bm (copy_dst_words d src s b (k + 1) n) p = bm d p"
    "\<And>k' j. k + 1 \<le> k' \<Longrightarrow> k' < k + 1 + n \<Longrightarrow> j < 64 \<Longrightarrow> bm (copy_dst_words d src s b (k + 1) n) (64 * b + s + (64 * k' + j)) = bit (src k') j"
    "\<And>j. s \<le> j \<Longrightarrow> \<not> bit (copy_dst_words d src s b (k + 1) n (b + (k + 1) + n)) j" by blast+
  show ?case unfolding e
  proof (intro conjI allI impI)
    fix p assume p: "p < 64 * (b + k) + s"
    then have "p < 64 * (b + (k + 1)) + s" by simp
    then show "bm (copy_dst_words d src s b (k + 1) n) p = bm dst p" by (simp only: ih(1) st(1) [OF p])
  next
    fix k' j :: nat assume a: "k \<le> k' \<and> k' < k + Suc n \<and> j < 64"
    show "bm (copy_dst_words d src s b (k + 1) n) (64 * b + s + (64 * k' + j)) = bit (src k') j"
    proof (cases "k' = k")
      case True
      have "64 * b + s + (64 * k + j) < 64 * (b + (k + 1)) + s" using a by simp
      then show ?thesis unfolding True using a by (simp only: ih(1) st(2))
    next
      case False
      then show ?thesis using a by (intro ih(2)) auto
    qed
  next
    fix j assume "s \<le> j"
    then show "\<not> bit (copy_dst_words d src s b (k + 1) n (b + k + Suc n)) j" using ih(3) [of j] by simp
  qed
qed auto

lemma copy_dst_last:
  fixes src :: bitmap
  assumes s: "0 < s" "s < 64" and z: "\<forall>j\<ge>s. \<not> bit (d (b + n)) j" and r: "r < 64"
  defines "l \<equiv> if r > 64 - s
      then d(b + n := d (b + n) OR push_bit s (src n AND mask (64 - s)),
             b + n + 1 := drop_bit (64 - s) (src n AND push_bit (64 - s) (mask (r - (64 - s)))))
      else if r \<noteq> 0 then d(b + n := d (b + n) OR push_bit s (src n AND mask r)) else d"
  shows "p < 64 * (b + n) + s \<Longrightarrow> bm l p = bm d p" and "j < r \<Longrightarrow> bm l (64 * b + s + (64 * n + j)) = bit (src n) j"
proof -
  show "bm l p = bm d p" if p: "p < 64 * (b + n) + s"
  proof (cases "p div 64 = b + n")
    case True
    then have "p mod 64 < s" using p mult_div_mod_eq [of 64 p] by simp
    then show ?thesis using True by (auto simp: l_def bit_simps)
  next
    case False
    then have "p div 64 \<noteq> b + n + 1" using p s by (auto simp: div64_iff)
    then show ?thesis using False by (simp add: l_def)
  qed
  show "bm l (64 * b + s + (64 * n + j)) = bit (src n) j" if j: "j < r"
  proof -
    have "j < 64" using j r by simp
    show ?thesis unfolding bm_shift [OF s(2) \<open>j < 64\<close>]
    proof (cases "64 - s < r")
      case True
      then show "(if s + j < 64 then bit (l (b + n)) (s + j) else bit (l (b + n + 1)) (s + j - 64)) = bit (src n) j"
        using j s z r by (auto simp: l_def bit_simps add.commute dest: bit_imp_le_length)
    next
      case False
      then show "(if s + j < 64 then bit (l (b + n)) (s + j) else bit (l (b + n + 1)) (s + j - 64)) = bit (src n) j"
        using j s z r by (auto simp: l_def bit_simps dest: bit_imp_le_length)
    qed
  qed
qed

lemma dst_offset_aligned:
  assumes "shift = 64 * b"
  shows "p < shift \<Longrightarrow> bm (bitmap_copy_with_dst_offset dst src shift nbits) p = bm dst p"
    and "i < nbits \<Longrightarrow> bm (bitmap_copy_with_dst_offset dst src shift nbits) (shift + i) = bm src i"
proof -
  let ?R = "bitmap_copy_with_dst_offset dst src shift nbits"
  have e: "?R = (\<lambda>k. if k < b then dst k else bitmap_copy (\<lambda>k. dst (b + k)) src nbits (k - b))"
    by (simp add: bitmap_copy_with_dst_offset_def Let_def assms)
  have "p div 64 < b" if "p < shift" using that assms by (simp add: div_less_iff_less_mult mult.commute)
  then show "p < shift \<Longrightarrow> bm ?R p = bm dst p" by (simp add: e)
  have "(shift + i) div 64 = b + i div 64" "(shift + i) mod 64 = i mod 64" by (simp_all add: assms)
  then show "i < nbits \<Longrightarrow> bm ?R (shift + i) = bm src i"
    using bits_words_used [of i nbits] by (simp only: e) (simp add: elementwise_eq)
qed

lemma dst_offset_shifted:
  assumes sh: "shift = 64 * b + s" and s: "0 < s" "s < 64"
  shows "p < shift \<Longrightarrow> bm (bitmap_copy_with_dst_offset dst src shift nbits) p = bm dst p"
    and "i < nbits \<Longrightarrow> bm (bitmap_copy_with_dst_offset dst src shift nbits) (shift + i) = bm src i"
proof -
  define n r where "n = nbits div 64" and "r = nbits mod 64"
  have nb: "nbits = 64 * n + r" "r < 64" by (simp_all add: n_def r_def)
  have bs: "shift div 64 = b" "shift mod 64 = s" using s by (simp_all add: sh)
  have ne: "(s = 0) = False" using s by simp
  have ne: "(s = 0) = False" using s by simp
  have ne: "(s = 0) = False" using s by simp
  let ?R = "bitmap_copy_with_dst_offset dst src shift nbits"
  define d0 where "d0 = dst(b := dst b AND mask s)"
  define d where "d = copy_dst_words d0 src s b 0 n"
  have z: "\<forall>j\<ge>s. \<not> bit (d0 (b + 0)) j" by (simp add: d0_def bit_simps)
  note c = copy_dst_words_bits [where src = src and n = n and dst = d0 and b = b and k = 0, OF s z, folded d_def, simplified add_0_right add_0]
  have z': "\<forall>j\<ge>s. \<not> bit (d (b + n)) j" using c by blast
  note l = copy_dst_last [where d = d and b = b and n = n and src = src, OF s z' nb(2)]
  have e: "?R = (if r > 64 - s
      then d(b + n := d (b + n) OR push_bit s (src n AND mask (64 - s)),
             b + n + 1 := drop_bit (64 - s) (src n AND push_bit (64 - s) (mask (r - (64 - s)))))
      else if r \<noteq> 0 then d(b + n := d (b + n) OR push_bit s (src n AND mask r)) else d)"
    by (simp only: bitmap_copy_with_dst_offset_def ne bs d_def d0_def n_def r_def Let_def if_False low_mask)
  show "bm ?R p = bm dst p" if p: "p < shift"
  proof -
    have "p < 64 * (b + n) + s" "p < 64 * b + s" using p sh by simp_all
    then have "bm ?R p = bm d0 p" unfolding e using l(1) c by metis
    moreover have "p div 64 = b \<Longrightarrow> p mod 64 < s" using p sh mult_div_mod_eq [of 64 p] by simp
    ultimately show ?thesis by (auto simp: d0_def bit_simps)
  qed
  show "bm ?R (shift + i) = bm src i" if i: "i < nbits"
  proof (cases "i div 64 < n")
    case True
    then have "64 * (i div 64) + i mod 64 < 64 * n" by (simp add: div_less_iff_less_mult)
    then have "64 * b + s + (64 * (i div 64) + i mod 64) < 64 * (b + n) + s" by (simp only: distrib_left)
    then have "bm ?R (64 * b + s + (64 * (i div 64) + i mod 64)) = bm d (64 * b + s + (64 * (i div 64) + i mod 64))"
      unfolding e by (rule l(1))
    also have "\<dots> = bm src i" by (rule c [THEN conjunct2, THEN conjunct1, rule_format]) (use True in simp)
    finally show ?thesis unfolding sh by (simp only: mult_div_mod_eq)
  next
    case False
    then have "64 * n \<le> i" by (simp add: not_less less_eq_div_iff_mult_less_eq mult.commute)
    then have n: "i div 64 = n" using i nb by (simp add: div64_iff)
    then have "i mod 64 < r" using i nb(1) mult_div_mod_eq [of 64 i] by linarith
    then have "bm ?R (64 * b + s + (64 * n + i mod 64)) = bit (src n) (i mod 64)" unfolding e by (rule l(2))
    then show ?thesis unfolding sh n [symmetric] by (simp only: mult_div_mod_eq)
  qed
qed

lemma bitmap_copy_with_dst_offset_bits:
  "p < shift \<Longrightarrow> bm (bitmap_copy_with_dst_offset dst src shift nbits) p = bm dst p"
  "i < nbits \<Longrightarrow> bm (bitmap_copy_with_dst_offset dst src shift nbits) (shift + i) = bm src i"
  using dst_offset_aligned [of shift "shift div 64"] dst_offset_shifted [of shift "shift div 64" "shift mod 64"]
  by (cases "shift mod 64 = 0"; simp add: minus_mod_eq_mult_div [symmetric])+

text \<open>
  \<open>bitmap_copy_with_dst_offset\<close> stores the first \<open>nbits\<close> bits of the source at \<open>shift\<close> and keeps
  every bit before, \<open>bitmap_copy_with_src_offset\<close> reads \<open>nbits\<close> bits from \<open>shift\<close> on, and reading back
  what was stored gives the source.
\<close>

theorem bitmap_offset_copies:
  shows "(p < shift \<longrightarrow> test_bit p (bitmap_copy_with_dst_offset dst src shift nbits) = test_bit p dst)
    \<and> (i < nbits \<longrightarrow> test_bit (shift + i) (bitmap_copy_with_dst_offset dst src shift nbits) = test_bit i src)
    \<and> (i < nbits \<longrightarrow> test_bit i (bitmap_copy_with_src_offset dst src shift nbits) = test_bit (shift + i) src)
    \<and> (i < nbits \<longrightarrow> test_bit i (bitmap_copy_with_src_offset d (bitmap_copy_with_dst_offset dst src shift nbits) shift nbits)
        = test_bit i src)"
  by (intro conjI impI)
    (simp_all only: test_bit_eq bitmap_copy_with_dst_offset_bits bitmap_copy_with_src_offset_bits)

theorem bitmap_offset_copies_witness:
  "test_bit 69 (bitmap_copy_with_dst_offset (\<lambda>_. 0) (\<lambda>_. 1) 69 70)
    \<and> test_bit 64 (bitmap_copy_with_src_offset (\<lambda>_. 0) (bitmap_copy_with_dst_offset (\<lambda>_. 0) (\<lambda>_. 1) 69 70) 69 70)"
proof -
  have t: "test_bit 0 (\<lambda>_. 1)" "test_bit 64 (\<lambda>_. 1)" by simp_all
  note c = bitmap_offset_copies [where shift = 69 and nbits = 70 and dst = "\<lambda>_. 0" and src = "\<lambda>_. 1" and d = "\<lambda>_. 0" and p = 0]
  have "test_bit (69 + 0) (bitmap_copy_with_dst_offset (\<lambda>_. 0) (\<lambda>_. 1) 69 70)"
    using c [of 0] t(1) by (simp only: zero_less_numeral simp_thms)
  moreover have "test_bit 64 (bitmap_copy_with_src_offset (\<lambda>_. 0) (bitmap_copy_with_dst_offset (\<lambda>_. 0) (\<lambda>_. 1) 69 70) 69 70)"
  proof -
    have "(64::nat) < 70" by simp
    then show ?thesis using c [of 64] t(2) by (simp only: simp_thms)
  qed
  ultimately show ?thesis by (simp only: add_0_right simp_thms)
qed

end
