(* ===== verification/Bit_Api.thy ===== *)
theory Bit_Api
  imports Bitmap_Area
begin

text \<open>
  What the bit field, counting and rounding routines and the bitmap operations promise to their callers.
\<close>

section \<open>Bit fields\<close>

text \<open>
  C37. On a valid field, depositing a value and extracting the field gives the value cut to the
  width of the field, zero- or sign-extended; every field disjoint from it keeps its contents; depositing
  what a field holds changes nothing. On an invalid field the routines abort.
\<close>

theorem bitfield_roundtrip:
  fixes v f :: u64
  shows "(\<not> (0 \<le> s \<and> 0 < l \<and> l \<le> 64 - s) \<longrightarrow> deposit64 v s l f = None \<and> extract64 v s l = None \<and> sextract64 v s l = None)
    \<and> (0 \<le> s \<and> 0 < l \<and> l \<le> 64 - s \<longrightarrow>
        (\<exists>w. deposit64 v s l f = Some w \<and> extract64 w s l = Some (take_bit (nat l) f)
          \<and> sextract64 w s l = Some (signed_take_bit (nat l - 1) f)
          \<and> (t + k \<le> s \<or> s + l \<le> t \<longrightarrow> extract64 w t k = extract64 v t k))
        \<and> (\<exists>g. extract64 v s l = Some g \<and> deposit64 v s l g = Some v))"
proof (cases "0 \<le> s \<and> 0 < l \<and> l \<le> 64 - s")
  case True
  define w where "w = field_set (nat s) (nat l) f v"
  have b: "nat s + nat l \<le> LENGTH(64)" "0 < nat l" using True by auto
  have "extract64 w t k = extract64 v t k" if "t + k \<le> s \<or> s + l \<le> t"
  proof (cases "0 \<le> t \<and> 0 < k \<and> k \<le> 64 - t")
    case valid: True
    then have "nat t + nat k \<le> nat s \<or> nat s + nat l \<le> nat t" using that True by linarith
    then show ?thesis using valid by (simp add: extract_eq w_def take_drop_other)
  qed (simp only: extract_eq if_False)
  moreover have "extract64 w s l = Some (take_bit (nat l) f)" "sextract64 w s l = Some (signed_take_bit (nat l - 1) f)"
    using True b signed_field_set [OF b(2,1), of f v] by (simp_all add: extract_eq sextract_eq w_def take_drop_field)
  ultimately show ?thesis using True
    by (simp add: deposit_eq w_def [symmetric]) (simp add: extract_eq deposit_eq field_set_same)
qed (simp only: extract_eq sextract_eq deposit_eq if_False simp_thms)

theorem bitfield_roundtrip_witness:
  "\<exists>w. deposit64 0 8 4 0xFF = Some w \<and> extract64 w 8 4 = Some 15 \<and> extract64 w 0 8 = extract64 0 0 8"
  using bitfield_roundtrip [of 8 4 0 "0xFF" 0 8] by auto

section \<open>Permutations of bits\<close>

lemmas shuffle_bits = half_shuffle32_bits [THEN all_bits] half_shuffle64_bits [THEN all_bits]
  half_unshuffle32_bits [THEN all_bits] half_unshuffle64_bits [THEN all_bits]
lemmas revbit_bits = revbit8_bits [THEN all_bits] revbit16_bits [THEN all_bits] revbit32_bits [THEN all_bits]
  revbit64_bits [THEN all_bits]

lemma bswap_index: "8 * (n - (8 * (n - i div 8) + i mod 8) div 8) + (8 * (n - i div 8) + i mod 8) mod 8 = i"
  "8 * (n - i div 8) + i mod 8 < 8 * n + 8" if "i < 8 * n + 8" for i :: nat
proof -
  have d: "(8 * (n - i div 8) + i mod 8) div 8 = n - i div 8" "(8 * (n - i div 8) + i mod 8) mod 8 = i mod 8" by simp_all
  have "i div 8 \<le> n" using that by (simp add: less_Suc_eq_le [symmetric] div_less_iff_less_mult)
  then show "8 * (n - (8 * (n - i div 8) + i mod 8) div 8) + (8 * (n - i div 8) + i mod 8) mod 8 = i"
    unfolding d by simp
  have "i mod 8 < 8" by simp
  then show "8 * (n - i div 8) + i mod 8 < 8 * n + 8" by linarith
qed

text \<open>
  Reversing the bits or the bytes of a word twice gives the word, bit \<open>i\<close> of the reversed word is
  the bit as far from the other end, and unshuffling a shuffled word gives its lower half.
\<close>

theorem bit_permutations:
  "revbit8 (revbit8 a) = a \<and> revbit16 (revbit16 b) = b \<and> revbit32 (revbit32 c) = c \<and> revbit64 (revbit64 d) = d
   \<and> bswap16 (bswap16 b) = b \<and> bswap32 (bswap32 c) = c \<and> bswap64 (bswap64 d) = d
   \<and> half_unshuffle32 (half_shuffle32 c) = take_bit 16 c \<and> half_unshuffle64 (half_shuffle64 d) = take_bit 32 d
   \<and> (bit (revbit64 d) i = (i < 64 \<and> bit d (63 - i)))"
proof (intro conjI)
  show "revbit8 (revbit8 a) = a" by (rule bit_word_eqI) (simp add: revbit_bits)
  show "revbit16 (revbit16 b) = b" by (rule bit_word_eqI) (simp add: revbit_bits)
  show "revbit32 (revbit32 c) = c" by (rule bit_word_eqI) (simp add: revbit_bits)
  show "revbit64 (revbit64 d) = d" by (rule bit_word_eqI) (simp add: revbit_bits)
  show "bswap16 (bswap16 b) = b"
    by (rule bit_word_eqI) (use bswap_index [of _ 1] in \<open>simp add: bswap_bit\<close>)
  show "bswap32 (bswap32 c) = c"
    by (rule bit_word_eqI) (use bswap_index [of _ 3] in \<open>simp add: bswap_bit\<close>)
  show "bswap64 (bswap64 d) = d"
    by (rule bit_word_eqI) (use bswap_index [of _ 7] in \<open>simp add: bswap_bit\<close>)
  show "half_unshuffle32 (half_shuffle32 c) = take_bit 16 c"
    by (rule bit_word_eqI) (auto simp: shuffle_bits bit_simps)
  show "half_unshuffle64 (half_shuffle64 d) = take_bit 32 d"
    by (rule bit_word_eqI) (auto simp: shuffle_bits bit_simps)
  show "bit (revbit64 d) i = (i < 64 \<and> bit d (63 - i))"
    using bit_imp_le_length [of "revbit64 d" i] by (auto simp: revbit_bits)
qed


section \<open>Counting and rounding\<close>

text \<open>
  The leading zeros of a nonzero value are the shift that brings its highest bit to the top,
  the trailing zeros those of the power of two in it; a zero counts the width. The leading ones and the
  trailing ones are the zeros of the complement.
\<close>

theorem count_zeros_bounds:
  fixes v :: u32 and w :: u64
  shows "(v \<noteq> 0 \<longrightarrow> 2 ^ 31 \<le> unat v * 2 ^ clz32 v \<and> unat v * 2 ^ clz32 v < 2 ^ 32
      \<and> (\<exists>q. odd q \<and> unat v = q * 2 ^ ctz32 v))
    \<and> (w \<noteq> 0 \<longrightarrow> 2 ^ 63 \<le> unat w * 2 ^ clz64 w \<and> unat w * 2 ^ clz64 w < 2 ^ 64
      \<and> (\<exists>q. odd q \<and> unat w = q * 2 ^ ctz64 w))
    \<and> clz32 0 = 32 \<and> ctz32 0 = 32 \<and> clz64 0 = 64 \<and> ctz64 0 = 64
    \<and> clo32 (NOT v) = clz32 v \<and> cto32 (NOT v) = ctz32 v \<and> clo64 (NOT w) = clz64 w \<and> cto64 (NOT w) = ctz64 w"
  using clz32_bounds [of v] ctz32_odd [of v] clz64_bounds [of w] ctz64_odd [of w]
  by (simp add: clz_zero clo32_def clo64_def cto32_def cto64_def)

theorem count_zeros_bounds_witness:
  "2 ^ 63 \<le> unat (12 :: u64) * 2 ^ clz64 12 \<and> (\<exists>q. odd q \<and> unat (12 :: u64) = q * 2 ^ ctz64 12)"
  using count_zeros_bounds [of 1 12] by simp

lemma pow2roundup32_smear:
  "list_all (\<lambda>i. bit (pow2roundup32 x - 1) i \<longleftrightarrow> list_ex (\<lambda>j. bit x (i + j)) [0..<32]) [0..<32]"
  unfolding pow2roundup32_def Let_def by (simp only: bit_ops add_diff_cancel_right') (simp add: upt_start flip: numeral_2_eq_2)


lemma pow2roundup32_spec:
  assumes x: "2 ^ h \<le> unat x" "unat x < 2 ^ Suc h"
  shows "pow2roundup32 x = 2 ^ Suc h"
proof -
  have u: "bit x j \<longleftrightarrow> bit (unat x) j" for j by (simp add: bit_unsigned_iff)
  have "unat x div 2 ^ h = 1" using x by (simp add: div_nat_eqI)
  then have top: "bit x h" by (subst u, subst bit_iff_odd) simp
  then have h: "h < 32" using bit_imp_le_length [of x h] by simp
  have above: "\<not> bit x j" if "h < j" for j
  proof -
    have "unat x < 2 ^ j" using x(2) that by (metis Suc_leI less_le_trans one_le_numeral power_increasing)
    then show ?thesis by (subst u, subst bit_iff_odd) simp
  qed
  have "pow2roundup32 x - 1 = mask (Suc h)"
  proof (rule bit_word_eqI)
    fix i assume "i < LENGTH(32)"
    then have i: "i < 32" by simp
    have "list_ex (\<lambda>j. bit x (i + j)) [0..<32] \<longleftrightarrow> i \<le> h"
    proof
      assume "list_ex (\<lambda>j. bit x (i + j)) [0..<32]"
      then obtain j where "bit x (i + j)" by (auto simp: list_ex_iff)
      then show "i \<le> h" using above [of "i + j"] by (cases "h < i + j") auto
    next
      assume "i \<le> h"
      then have "bit x (i + (h - i))" "h - i < 32" using top h by simp_all
      then show "list_ex (\<lambda>j. bit x (i + j)) [0..<32]" by (auto simp: list_ex_iff)
    qed
    then show "bit (pow2roundup32 x - 1) i = bit (mask (Suc h) :: u32) i"
      using all_bits [OF pow2roundup32_smear i, of x] i by (simp add: bit_mask_iff less_Suc_eq_le)
  qed
  then have "pow2roundup32 x = mask (Suc h) + 1" by (metis diff_add_cancel)
  then show ?thesis by (simp add: mask_eq_exp_minus_1)
qed

lemma highest_bit: "0 < n \<Longrightarrow> \<exists>h. 2 ^ h \<le> n \<and> n < 2 ^ Suc h" for n :: nat
  using ex_power_ivl1 [of 2 n] by auto

text \<open>
  \<open>pow2floor\<close> gives the largest power of two not above a nonzero value, \<open>pow2ceil\<close> the smallest
  one not below it and 0 above \<open>2\<^sup>6\<^sup>3\<close>, \<open>pow2roundup32\<close> the smallest one strictly above its argument and
  0 when that one has no 32-bit representation; \<open>is_power_of_2\<close> recognises the powers of two.
\<close>

theorem pow2_rounding:
  fixes v :: u64 and x :: u32
  shows "is_power_of_2 v = (\<exists>k. unat v = 2 ^ k)
    \<and> (v \<noteq> 0 \<longrightarrow> (\<exists>k. unat (pow2floor v) = 2 ^ k \<and> 2 ^ k \<le> unat v \<and> unat v < 2 * 2 ^ k))
    \<and> (v \<noteq> 0 \<and> unat v \<le> 2 ^ 63 \<longrightarrow> (\<exists>k. unat (pow2ceil v) = 2 ^ k \<and> unat v \<le> 2 ^ k \<and> 2 ^ k < 2 * unat v))
    \<and> (2 ^ 63 < unat v \<longrightarrow> pow2ceil v = 0) \<and> pow2ceil 0 = 1
    \<and> (0 < unat x \<and> unat x < 2 ^ 31 \<longrightarrow> (\<exists>k. unat (pow2roundup32 x) = 2 ^ k \<and> unat x < 2 ^ k \<and> 2 ^ k \<le> 2 * unat x))
    \<and> (2 ^ 31 \<le> unat x \<longrightarrow> pow2roundup32 x = 0) \<and> pow2roundup32 0 = 1"
proof (intro conjI impI)
  show "pow2roundup32 0 = 1" by (simp add: pow2roundup32_def)
  show "\<exists>k. unat (pow2roundup32 x) = 2 ^ k \<and> unat x < 2 ^ k \<and> 2 ^ k \<le> 2 * unat x" if a: "0 < unat x \<and> unat x < 2 ^ 31"
  proof -
    obtain h where h: "2 ^ h \<le> unat x" "unat x < 2 ^ Suc h" using highest_bit a by blast
    have "(2::nat) ^ h < 2 ^ 31" using h(1) a by linarith
    then have "h < 31" by (rule power_less_imp_less_exp [rotated]) simp
    moreover then have "(1::nat) < 2 ^ (32 - Suc h)" by (intro one_less_power) simp_all
    ultimately have "unat (2 ^ Suc h :: u32) = 2 ^ Suc h" using unat_push_bit [of "1 :: u32" "Suc h"] by (simp add: push_bit_eq_mult)
    then show ?thesis using pow2roundup32_spec [OF h] h by (intro exI [of _ "Suc h"]) simp
  qed
  show "pow2roundup32 x = 0" if a: "2 ^ 31 \<le> unat x"
  proof -
    have "unat x < 2 ^ Suc 31" using unsigned_less [of x] by simp
    from pow2roundup32_spec [OF a this] show ?thesis by simp
  qed
qed (simp_all add: is_power_of_2_spec pow2floor_spec pow2ceil_spec pow2ceil_overflow pow2ceil_0)

theorem pow2_rounding_witness:
  "(\<exists>k. unat (pow2ceil 5) = 2 ^ k \<and> 5 \<le> (2::nat) ^ k \<and> 2 ^ k < (10::nat)) \<and> pow2roundup32 0xFFFFFFFF = 0"
  using pow2_rounding [of 5 "0xFFFFFFFF"] by simp


section \<open>Bitmaps as sets\<close>

text \<open>The set a bitmap of \<open>n\<close> bits stands for.\<close>

definition bits_set :: "nat \<Rightarrow> bitmap \<Rightarrow> nat set" where
  "bits_set n m = {i. i < n \<and> test_bit i m}"

lemma bits_set_iff: "i \<in> bits_set n m \<longleftrightarrow> i < n \<and> bm m i"
  by (simp add: bits_set_def)

text \<open>
  C34. Bitmaps with at least one bit implement finite sets: union, symmetric difference,
  intersection, difference, complement, copy, the empty and the full set, and the tests for emptiness,
  fullness, equality and a common element.
\<close>

theorem bitmap_refines_set:
  assumes "0 < n"
  shows "bits_set n (bitmap_or d a b n) = bits_set n a \<union> bits_set n b
    \<and> bits_set n (bitmap_xor d a b n) = (bits_set n a - bits_set n b) \<union> (bits_set n b - bits_set n a)
    \<and> bits_set n (snd (bitmap_and d a b n)) = bits_set n a \<inter> bits_set n b
    \<and> bits_set n (snd (bitmap_andnot d a b n)) = bits_set n a - bits_set n b
    \<and> bits_set n (bitmap_complement d a n) = {..<n} - bits_set n a
    \<and> bits_set n (bitmap_copy d a n) = bits_set n a \<and> bits_set n (bitmap_zero d n) = {}
    \<and> (\<exists>m. bitmap_fill d n = Some m \<and> bits_set n m = {..<n})
    \<and> bitmap_empty a n = (bits_set n a = {}) \<and> bitmap_full a n = (bits_set n a = {..<n})
    \<and> bitmap_equal a b n = (bits_set n a = bits_set n b)
    \<and> bitmap_intersects a b n = (bits_set n a \<inter> bits_set n b \<noteq> {})"
proof -
  have u: "i div 64 < words_used n" if "i < n" for i using that by (rule bits_words_used)
  have ops: "bits_set n (bitmap_or d a b n) = bits_set n a \<union> bits_set n b"
    "bits_set n (bitmap_xor d a b n) = (bits_set n a - bits_set n b) \<union> (bits_set n b - bits_set n a)"
    "bits_set n (snd (bitmap_and d a b n)) = bits_set n a \<inter> bits_set n b"
    "bits_set n (snd (bitmap_andnot d a b n)) = bits_set n a - bits_set n b"
    "bits_set n (bitmap_complement d a n) = {..<n} - bits_set n a"
    "bits_set n (bitmap_copy d a n) = bits_set n a" "bits_set n (bitmap_zero d n) = {}"
    by (auto simp: set_eq_iff bits_set_iff elementwise_eq u bit_or_iff bit_xor_iff bit_and_iff bit_not_iff bitmap_complement_bits)
  have fill: "\<exists>m. bitmap_fill d n = Some m \<and> bits_set n m = {..<n}"
    using bitmap_fill_bits [OF assms, of d] by (auto simp: set_eq_iff bits_set_iff)
  have "bitmap_empty a n = (bits_set n a = {})" "bitmap_full a n = (bits_set n a = {..<n})"
    "bitmap_equal a b n = (bits_set n a = bits_set n b)" "bitmap_intersects a b n = (bits_set n a \<inter> bits_set n b \<noteq> {})"
    unfolding bitmap_predicates_iff [OF assms] by (auto simp: set_eq_iff bits_set_iff)
  with ops fill show ?thesis by blast
qed

theorem bitmap_refines_set_witness:
  "bits_set 70 (bitmap_or (\<lambda>_. 0) (\<lambda>_. 1) (\<lambda>_. 2) 70) = bits_set 70 (\<lambda>_. 1) \<union> bits_set 70 (\<lambda>_. 2)"
  using bitmap_refines_set [of 70 "\<lambda>_. 0" "\<lambda>_. 1" "\<lambda>_. 2"] by simp

text \<open>
  The truth value of \<open>bitmap_and\<close> depends on the unused bits of the last word: two bitmaps of one
  bit, both empty, whose unused bits meet are reported to have a common bit, which \<open>bitmap_intersects\<close> denies.
\<close>

theorem bitmap_and_unused_bits:
  "fst (bitmap_and d (\<lambda>_. 2) (\<lambda>_. 2) 1) \<and> \<not> bitmap_intersects (\<lambda>_. 2) (\<lambda>_. 2) 1
    \<and> bits_set 1 (snd (bitmap_and d (\<lambda>_. 2) (\<lambda>_. 2) 1)) = {}"
proof -
  have "\<not> bit (2 :: u64) 0" by simp
  then show ?thesis
    by (auto simp: elementwise_eq words_used_def bits_set_iff set_eq_iff bitmap_predicates_iff)
qed

end
