(* ===== verification/Gvec.thy ===== *)
theory Gvec
  imports Bitops "HOL-Library.Monad_Syntax"
begin

text \<open>
  The run-time helpers of generic vector operations, \<open>qemu/accel/tcg/tcg-runtime-gvec.c\<close>, and the
  descriptors of \<open>qemu/include/tcg/tcg-gvec-desc.h\<close> and \<open>qemu/tcg/tcg-op-gvec.c\<close>.

  The vectors of the guest lie in the memory of the host, a function from addresses to bytes; pointers
  are addresses. \<open>load_le\<close> and \<open>store_le\<close> are the loads and stores through typed pointers on a little-endian host;
  the width is that of the type. \<open>None\<close> is a failed assertion or undefined behaviour. Signed lanes wrap around.
\<close>

type_synonym host_mem = "nat \<Rightarrow> u8"

section \<open>Typed loads and stores\<close>

definition load_le :: "host_mem \<Rightarrow> nat \<Rightarrow> 'a::len word" where
  "load_le m p = foldr (\<lambda>k w. push_bit (8 * k) (ucast (m (p + k))) OR w) [0..<LENGTH('a) div 8] 0"

definition store_le :: "'a::len word \<Rightarrow> nat \<Rightarrow> host_mem \<Rightarrow> host_mem" where
  "store_le v p m = (\<lambda>x. if p \<le> x \<and> x < p + LENGTH('a) div 8 then ucast (drop_bit (8 * (x - p)) v) else m x)"

section \<open>Descriptors\<close>

definition simd_oprsz :: "u32 \<Rightarrow> nat option" where
  "simd_oprsz desc = map_option (\<lambda>x. unat ((x + 1) * 8)) (extract32 desc 0 5)"

definition simd_maxsz :: "u32 \<Rightarrow> nat option" where
  "simd_maxsz desc = map_option (\<lambda>x. unat ((x + 1) * 8)) (extract32 desc 5 5)"

definition simd_data :: "u32 \<Rightarrow> int option" where
  "simd_data desc = map_option sint (sextract32 desc 10 22)"

definition simd_desc :: "u32 \<Rightarrow> u32 \<Rightarrow> u32 \<Rightarrow> u32 option" where
  "simd_desc oprsz maxsz data =
     (if oprsz mod 8 = 0 \<and> oprsz \<le> push_bit 5 8 \<and> maxsz mod 8 = 0 \<and> maxsz \<le> push_bit 5 8
         \<and> sextract32 data 0 22 = Some data then
        do { let oprsz = oprsz div 8 - 1; let maxsz = maxsz div 8 - 1;
             desc \<leftarrow> deposit32 0 0 5 oprsz;
             desc \<leftarrow> deposit32 desc 5 5 maxsz;
             deposit32 desc 10 22 data }
      else None)"

text \<open>The debug assertions on the operands, whose offsets are \<open>uint32_t\<close>.\<close>

definition check_size_align :: "u32 \<Rightarrow> u32 \<Rightarrow> u32 \<Rightarrow> bool" where
  "check_size_align oprsz maxsz ofs \<longleftrightarrow>
     (let opr_align = (if oprsz \<ge> 16 then 15 else 7); max_align = (if maxsz \<ge> 16 \<or> oprsz \<ge> 16 then 15 else 7)
      in oprsz > 0 \<and> oprsz \<le> maxsz \<and> oprsz AND opr_align = 0 \<and> maxsz AND max_align = 0 \<and> ofs AND max_align = 0)"

definition check_overlap_2 :: "u32 \<Rightarrow> u32 \<Rightarrow> u32 \<Rightarrow> bool" where
  "check_overlap_2 d a s \<longleftrightarrow> d = a \<or> d + s \<le> a \<or> a + s \<le> d"

definition check_overlap_3 :: "u32 \<Rightarrow> u32 \<Rightarrow> u32 \<Rightarrow> u32 \<Rightarrow> bool" where
  "check_overlap_3 d a b s \<longleftrightarrow> check_overlap_2 d a s \<and> check_overlap_2 d b s \<and> check_overlap_2 a b s"

definition check_overlap_4 :: "u32 \<Rightarrow> u32 \<Rightarrow> u32 \<Rightarrow> u32 \<Rightarrow> u32 \<Rightarrow> bool" where
  "check_overlap_4 d a b c s \<longleftrightarrow> check_overlap_2 d a s \<and> check_overlap_2 d b s \<and> check_overlap_2 d c s
     \<and> check_overlap_2 a b s \<and> check_overlap_2 a c s \<and> check_overlap_2 b c s"

section \<open>The loops of the helpers\<close>

text \<open>\<open>for (i = start; i < lim; i += w)\<close>.\<close>

function vec_loop :: "nat \<Rightarrow> (nat \<Rightarrow> host_mem \<Rightarrow> host_mem) \<Rightarrow> nat \<Rightarrow> nat \<Rightarrow> host_mem \<Rightarrow> host_mem" where
  "vec_loop w body i lim m = (if i < lim \<and> 0 < w then vec_loop w body (i + w) lim (body i m) else m)"
  by pat_completeness auto
termination by (relation "measure (\<lambda>(w, body, i, lim, m). lim - i)") auto

declare vec_loop.simps [simp del]

definition clear_high :: "nat \<Rightarrow> nat \<Rightarrow> u32 \<Rightarrow> host_mem \<Rightarrow> host_mem option" where
  "clear_high d oprsz desc m =
     do { maxsz \<leftarrow> simd_maxsz desc;
          Some (if maxsz > oprsz then vec_loop 8 (\<lambda>i m. store_le (0 :: u64) (d + i) m) oprsz maxsz m else m) }"

text \<open>
  The helpers share one form: a loop over the lanes of the destination, each computed from the
  lanes of the sources, and the clearing of the rest of the vector.
\<close>

type_synonym vec2 = "nat \<Rightarrow> nat \<Rightarrow> u32 \<Rightarrow> host_mem \<Rightarrow> host_mem option"
type_synonym vec2s = "nat \<Rightarrow> nat \<Rightarrow> u64 \<Rightarrow> u32 \<Rightarrow> host_mem \<Rightarrow> host_mem option"
type_synonym vec3 = "nat \<Rightarrow> nat \<Rightarrow> nat \<Rightarrow> u32 \<Rightarrow> host_mem \<Rightarrow> host_mem option"

definition gvec2 :: "('a::len word \<Rightarrow> 'a word) \<Rightarrow> vec2" where
  "gvec2 f d a desc m =
     do { oprsz \<leftarrow> simd_oprsz desc;
          let m = vec_loop (LENGTH('a) div 8) (\<lambda>i m. store_le (f (load_le m (a + i))) (d + i) m) 0 oprsz m;
          clear_high d oprsz desc m }"

definition gvec3 :: "('a::len word \<Rightarrow> 'a word \<Rightarrow> 'a word) \<Rightarrow> vec3" where
  "gvec3 f d a b desc m =
     do { oprsz \<leftarrow> simd_oprsz desc;
          let m = vec_loop (LENGTH('a) div 8) (\<lambda>i m. store_le (f (load_le m (a + i)) (load_le m (b + i))) (d + i) m) 0 oprsz m;
          clear_high d oprsz desc m }"

definition gvec_shift :: "int \<Rightarrow> (nat \<Rightarrow> 'a::len word \<Rightarrow> 'a word) \<Rightarrow> vec2" where
  "gvec_shift lim f d a desc m =
     do { shift \<leftarrow> simd_data desc;
          if 0 \<le> shift \<and> shift < lim then gvec2 (f (nat shift)) d a desc m else None }"

section \<open>Addition, subtraction, multiplication\<close>

definition helper_gvec_add8 :: vec3 where
  "helper_gvec_add8 = gvec3 (\<lambda>x y :: u8. x + y)"

definition helper_gvec_add16 :: vec3 where
  "helper_gvec_add16 = gvec3 (\<lambda>x y :: u16. x + y)"

definition helper_gvec_add32 :: vec3 where
  "helper_gvec_add32 = gvec3 (\<lambda>x y :: u32. x + y)"

definition helper_gvec_add64 :: vec3 where
  "helper_gvec_add64 = gvec3 (\<lambda>x y :: u64. x + y)"

definition helper_gvec_adds8 :: vec2s where
  "helper_gvec_adds8 d a b = gvec2 (\<lambda>x :: u8. x + ucast b) d a"

definition helper_gvec_adds16 :: vec2s where
  "helper_gvec_adds16 d a b = gvec2 (\<lambda>x :: u16. x + ucast b) d a"

definition helper_gvec_adds32 :: vec2s where
  "helper_gvec_adds32 d a b = gvec2 (\<lambda>x :: u32. x + ucast b) d a"

definition helper_gvec_adds64 :: vec2s where
  "helper_gvec_adds64 d a b = gvec2 (\<lambda>x :: u64. x + b) d a"

definition helper_gvec_sub8 :: vec3 where
  "helper_gvec_sub8 = gvec3 (\<lambda>x y :: u8. x - y)"

definition helper_gvec_sub16 :: vec3 where
  "helper_gvec_sub16 = gvec3 (\<lambda>x y :: u16. x - y)"

definition helper_gvec_sub32 :: vec3 where
  "helper_gvec_sub32 = gvec3 (\<lambda>x y :: u32. x - y)"

definition helper_gvec_sub64 :: vec3 where
  "helper_gvec_sub64 = gvec3 (\<lambda>x y :: u64. x - y)"

definition helper_gvec_subs8 :: vec2s where
  "helper_gvec_subs8 d a b = gvec2 (\<lambda>x :: u8. x - ucast b) d a"

definition helper_gvec_subs16 :: vec2s where
  "helper_gvec_subs16 d a b = gvec2 (\<lambda>x :: u16. x - ucast b) d a"

definition helper_gvec_subs32 :: vec2s where
  "helper_gvec_subs32 d a b = gvec2 (\<lambda>x :: u32. x - ucast b) d a"

definition helper_gvec_subs64 :: vec2s where
  "helper_gvec_subs64 d a b = gvec2 (\<lambda>x :: u64. x - b) d a"

definition helper_gvec_mul8 :: vec3 where
  "helper_gvec_mul8 = gvec3 (\<lambda>x y :: u8. x * y)"

definition helper_gvec_mul16 :: vec3 where
  "helper_gvec_mul16 = gvec3 (\<lambda>x y :: u16. x * y)"

definition helper_gvec_mul32 :: vec3 where
  "helper_gvec_mul32 = gvec3 (\<lambda>x y :: u32. x * y)"

definition helper_gvec_mul64 :: vec3 where
  "helper_gvec_mul64 = gvec3 (\<lambda>x y :: u64. x * y)"

definition helper_gvec_muls8 :: vec2s where
  "helper_gvec_muls8 d a b = gvec2 (\<lambda>x :: u8. x * ucast b) d a"

definition helper_gvec_muls16 :: vec2s where
  "helper_gvec_muls16 d a b = gvec2 (\<lambda>x :: u16. x * ucast b) d a"

definition helper_gvec_muls32 :: vec2s where
  "helper_gvec_muls32 d a b = gvec2 (\<lambda>x :: u32. x * ucast b) d a"

definition helper_gvec_muls64 :: vec2s where
  "helper_gvec_muls64 d a b = gvec2 (\<lambda>x :: u64. x * b) d a"

section \<open>Negation and absolute value\<close>

definition helper_gvec_neg8 :: vec2 where
  "helper_gvec_neg8 = gvec2 (\<lambda>x :: u8. - x)"

definition helper_gvec_neg16 :: vec2 where
  "helper_gvec_neg16 = gvec2 (\<lambda>x :: u16. - x)"

definition helper_gvec_neg32 :: vec2 where
  "helper_gvec_neg32 = gvec2 (\<lambda>x :: u32. - x)"

definition helper_gvec_neg64 :: vec2 where
  "helper_gvec_neg64 = gvec2 (\<lambda>x :: u64. - x)"

definition helper_gvec_abs8 :: vec2 where
  "helper_gvec_abs8 = gvec2 (\<lambda>aa :: u8. if sint aa < 0 then - aa else aa)"

definition helper_gvec_abs16 :: vec2 where
  "helper_gvec_abs16 = gvec2 (\<lambda>aa :: u16. if sint aa < 0 then - aa else aa)"

definition helper_gvec_abs32 :: vec2 where
  "helper_gvec_abs32 = gvec2 (\<lambda>aa :: u32. if sint aa < 0 then - aa else aa)"

definition helper_gvec_abs64 :: vec2 where
  "helper_gvec_abs64 = gvec2 (\<lambda>aa :: u64. if sint aa < 0 then - aa else aa)"

section \<open>Moves and duplication\<close>

text \<open>\<open>memcpy\<close> on overlapping areas is undefined.\<close>

definition memcpy :: "nat \<Rightarrow> nat \<Rightarrow> nat \<Rightarrow> host_mem \<Rightarrow> host_mem option" where
  "memcpy d a n m =
     (if d + n \<le> a \<or> a + n \<le> d \<or> n = 0 then Some (\<lambda>x. if d \<le> x \<and> x < d + n then m (a + (x - d)) else m x) else None)"

definition helper_gvec_mov :: vec2 where
  "helper_gvec_mov d a desc m =
     do { oprsz \<leftarrow> simd_oprsz desc; m \<leftarrow> memcpy d a oprsz m; clear_high d oprsz desc m }"

definition helper_gvec_dup64 :: "nat \<Rightarrow> u32 \<Rightarrow> u64 \<Rightarrow> host_mem \<Rightarrow> host_mem option" where
  "helper_gvec_dup64 d desc c m =
     do { oprsz \<leftarrow> simd_oprsz desc;
          let (oprsz, m) = (if c = 0 then (0, m) else (oprsz, vec_loop 8 (\<lambda>i m. store_le c (d + i) m) 0 oprsz m));
          clear_high d oprsz desc m }"

definition helper_gvec_dup32 :: "nat \<Rightarrow> u32 \<Rightarrow> u32 \<Rightarrow> host_mem \<Rightarrow> host_mem option" where
  "helper_gvec_dup32 d desc c m =
     do { oprsz \<leftarrow> simd_oprsz desc;
          let (oprsz, m) = (if c = 0 then (0, m) else (oprsz, vec_loop 4 (\<lambda>i m. store_le c (d + i) m) 0 oprsz m));
          clear_high d oprsz desc m }"

definition helper_gvec_dup16 :: "nat \<Rightarrow> u32 \<Rightarrow> u32 \<Rightarrow> host_mem \<Rightarrow> host_mem option" where
  "helper_gvec_dup16 d desc c = helper_gvec_dup32 d desc (0x00010001 * (c AND 0xffff))"

definition helper_gvec_dup8 :: "nat \<Rightarrow> u32 \<Rightarrow> u32 \<Rightarrow> host_mem \<Rightarrow> host_mem option" where
  "helper_gvec_dup8 d desc c = helper_gvec_dup32 d desc (0x01010101 * (c AND 0xff))"

section \<open>Bitwise operations\<close>

definition helper_gvec_not :: vec2 where
  "helper_gvec_not = gvec2 (\<lambda>x :: u64. NOT x)"

definition helper_gvec_and :: vec3 where
  "helper_gvec_and = gvec3 (\<lambda>x y :: u64. x AND y)"

definition helper_gvec_or :: vec3 where
  "helper_gvec_or = gvec3 (\<lambda>x y :: u64. x OR y)"

definition helper_gvec_xor :: vec3 where
  "helper_gvec_xor = gvec3 (\<lambda>x y :: u64. x XOR y)"

definition helper_gvec_andc :: vec3 where
  "helper_gvec_andc = gvec3 (\<lambda>x y :: u64. x AND NOT y)"

definition helper_gvec_orc :: vec3 where
  "helper_gvec_orc = gvec3 (\<lambda>x y :: u64. x OR NOT y)"

definition helper_gvec_nand :: vec3 where
  "helper_gvec_nand = gvec3 (\<lambda>x y :: u64. NOT (x AND y))"

definition helper_gvec_nor :: vec3 where
  "helper_gvec_nor = gvec3 (\<lambda>x y :: u64. NOT (x OR y))"

definition helper_gvec_eqv :: vec3 where
  "helper_gvec_eqv = gvec3 (\<lambda>x y :: u64. NOT (x XOR y))"

definition helper_gvec_ands :: vec2s where
  "helper_gvec_ands d a b = gvec2 (\<lambda>x :: u64. x AND b) d a"

definition helper_gvec_xors :: vec2s where
  "helper_gvec_xors d a b = gvec2 (\<lambda>x :: u64. x XOR b) d a"

definition helper_gvec_ors :: vec2s where
  "helper_gvec_ors d a b = gvec2 (\<lambda>x :: u64. x OR b) d a"

section \<open>Shifts\<close>

text \<open>Shifts by the immediate of the descriptor, an \<open>int\<close>. Operands narrower than \<open>int\<close> are
  promoted, so an amount is defined below 32, and below 64 for 64-bit lanes.\<close>

definition helper_gvec_shl8i :: vec2 where
  "helper_gvec_shl8i = gvec_shift 32 (\<lambda>shift (x :: u8). push_bit shift x)"

definition helper_gvec_shl16i :: vec2 where
  "helper_gvec_shl16i = gvec_shift 32 (\<lambda>shift (x :: u16). push_bit shift x)"

definition helper_gvec_shl32i :: vec2 where
  "helper_gvec_shl32i = gvec_shift 32 (\<lambda>shift (x :: u32). push_bit shift x)"

definition helper_gvec_shl64i :: vec2 where
  "helper_gvec_shl64i = gvec_shift 64 (\<lambda>shift (x :: u64). push_bit shift x)"

definition helper_gvec_shr8i :: vec2 where
  "helper_gvec_shr8i = gvec_shift 32 (\<lambda>shift (x :: u8). drop_bit shift x)"

definition helper_gvec_shr16i :: vec2 where
  "helper_gvec_shr16i = gvec_shift 32 (\<lambda>shift (x :: u16). drop_bit shift x)"

definition helper_gvec_shr32i :: vec2 where
  "helper_gvec_shr32i = gvec_shift 32 (\<lambda>shift (x :: u32). drop_bit shift x)"

definition helper_gvec_shr64i :: vec2 where
  "helper_gvec_shr64i = gvec_shift 64 (\<lambda>shift (x :: u64). drop_bit shift x)"

definition helper_gvec_sar8i :: vec2 where
  "helper_gvec_sar8i = gvec_shift 32 (\<lambda>shift (x :: u8). signed_drop_bit shift x)"

definition helper_gvec_sar16i :: vec2 where
  "helper_gvec_sar16i = gvec_shift 32 (\<lambda>shift (x :: u16). signed_drop_bit shift x)"

definition helper_gvec_sar32i :: vec2 where
  "helper_gvec_sar32i = gvec_shift 32 (\<lambda>shift (x :: u32). signed_drop_bit shift x)"

definition helper_gvec_sar64i :: vec2 where
  "helper_gvec_sar64i = gvec_shift 64 (\<lambda>shift (x :: u64). signed_drop_bit shift x)"

text \<open>Shifts by the lanes of a vector, masked to the width of a lane.\<close>

definition helper_gvec_shl8v :: vec3 where
  "helper_gvec_shl8v = gvec3 (\<lambda>x y :: u8. let sh = unat (y AND 7) in push_bit sh x)"

definition helper_gvec_shl16v :: vec3 where
  "helper_gvec_shl16v = gvec3 (\<lambda>x y :: u16. let sh = unat (y AND 15) in push_bit sh x)"

definition helper_gvec_shl32v :: vec3 where
  "helper_gvec_shl32v = gvec3 (\<lambda>x y :: u32. let sh = unat (y AND 31) in push_bit sh x)"

definition helper_gvec_shl64v :: vec3 where
  "helper_gvec_shl64v = gvec3 (\<lambda>x y :: u64. let sh = unat (y AND 63) in push_bit sh x)"

definition helper_gvec_shr8v :: vec3 where
  "helper_gvec_shr8v = gvec3 (\<lambda>x y :: u8. let sh = unat (y AND 7) in drop_bit sh x)"

definition helper_gvec_shr16v :: vec3 where
  "helper_gvec_shr16v = gvec3 (\<lambda>x y :: u16. let sh = unat (y AND 15) in drop_bit sh x)"

definition helper_gvec_shr32v :: vec3 where
  "helper_gvec_shr32v = gvec3 (\<lambda>x y :: u32. let sh = unat (y AND 31) in drop_bit sh x)"

definition helper_gvec_shr64v :: vec3 where
  "helper_gvec_shr64v = gvec3 (\<lambda>x y :: u64. let sh = unat (y AND 63) in drop_bit sh x)"

definition helper_gvec_sar8v :: vec3 where
  "helper_gvec_sar8v = gvec3 (\<lambda>x y :: u8. let sh = unat (y AND 7) in signed_drop_bit sh x)"

definition helper_gvec_sar16v :: vec3 where
  "helper_gvec_sar16v = gvec3 (\<lambda>x y :: u16. let sh = unat (y AND 15) in signed_drop_bit sh x)"

definition helper_gvec_sar32v :: vec3 where
  "helper_gvec_sar32v = gvec3 (\<lambda>x y :: u32. let sh = unat (y AND 31) in signed_drop_bit sh x)"

definition helper_gvec_sar64v :: vec3 where
  "helper_gvec_sar64v = gvec3 (\<lambda>x y :: u64. let sh = unat (y AND 63) in signed_drop_bit sh x)"

section \<open>Comparisons\<close>

text \<open>The macro \<open>DO_CMP1\<close>: minus the truth value of the comparison.\<close>

definition cmp_lane :: "('a::len word \<Rightarrow> 'a word \<Rightarrow> bool) \<Rightarrow> 'a word \<Rightarrow> 'a word \<Rightarrow> 'a word" where
  "cmp_lane c x y = - of_bool (c x y)"

definition helper_gvec_eq8 :: vec3 where
  "helper_gvec_eq8 = gvec3 (cmp_lane (\<lambda>x y :: u8. x = y))"

definition helper_gvec_eq16 :: vec3 where
  "helper_gvec_eq16 = gvec3 (cmp_lane (\<lambda>x y :: u16. x = y))"

definition helper_gvec_eq32 :: vec3 where
  "helper_gvec_eq32 = gvec3 (cmp_lane (\<lambda>x y :: u32. x = y))"

definition helper_gvec_eq64 :: vec3 where
  "helper_gvec_eq64 = gvec3 (cmp_lane (\<lambda>x y :: u64. x = y))"

definition helper_gvec_ne8 :: vec3 where
  "helper_gvec_ne8 = gvec3 (cmp_lane (\<lambda>x y :: u8. x \<noteq> y))"

definition helper_gvec_ne16 :: vec3 where
  "helper_gvec_ne16 = gvec3 (cmp_lane (\<lambda>x y :: u16. x \<noteq> y))"

definition helper_gvec_ne32 :: vec3 where
  "helper_gvec_ne32 = gvec3 (cmp_lane (\<lambda>x y :: u32. x \<noteq> y))"

definition helper_gvec_ne64 :: vec3 where
  "helper_gvec_ne64 = gvec3 (cmp_lane (\<lambda>x y :: u64. x \<noteq> y))"

definition helper_gvec_lt8 :: vec3 where
  "helper_gvec_lt8 = gvec3 (cmp_lane (\<lambda>x y :: u8. sint x < sint y))"

definition helper_gvec_lt16 :: vec3 where
  "helper_gvec_lt16 = gvec3 (cmp_lane (\<lambda>x y :: u16. sint x < sint y))"

definition helper_gvec_lt32 :: vec3 where
  "helper_gvec_lt32 = gvec3 (cmp_lane (\<lambda>x y :: u32. sint x < sint y))"

definition helper_gvec_lt64 :: vec3 where
  "helper_gvec_lt64 = gvec3 (cmp_lane (\<lambda>x y :: u64. sint x < sint y))"

definition helper_gvec_le8 :: vec3 where
  "helper_gvec_le8 = gvec3 (cmp_lane (\<lambda>x y :: u8. sint x \<le> sint y))"

definition helper_gvec_le16 :: vec3 where
  "helper_gvec_le16 = gvec3 (cmp_lane (\<lambda>x y :: u16. sint x \<le> sint y))"

definition helper_gvec_le32 :: vec3 where
  "helper_gvec_le32 = gvec3 (cmp_lane (\<lambda>x y :: u32. sint x \<le> sint y))"

definition helper_gvec_le64 :: vec3 where
  "helper_gvec_le64 = gvec3 (cmp_lane (\<lambda>x y :: u64. sint x \<le> sint y))"

definition helper_gvec_ltu8 :: vec3 where
  "helper_gvec_ltu8 = gvec3 (cmp_lane (\<lambda>x y :: u8. x < y))"

definition helper_gvec_ltu16 :: vec3 where
  "helper_gvec_ltu16 = gvec3 (cmp_lane (\<lambda>x y :: u16. x < y))"

definition helper_gvec_ltu32 :: vec3 where
  "helper_gvec_ltu32 = gvec3 (cmp_lane (\<lambda>x y :: u32. x < y))"

definition helper_gvec_ltu64 :: vec3 where
  "helper_gvec_ltu64 = gvec3 (cmp_lane (\<lambda>x y :: u64. x < y))"

definition helper_gvec_leu8 :: vec3 where
  "helper_gvec_leu8 = gvec3 (cmp_lane (\<lambda>x y :: u8. x \<le> y))"

definition helper_gvec_leu16 :: vec3 where
  "helper_gvec_leu16 = gvec3 (cmp_lane (\<lambda>x y :: u16. x \<le> y))"

definition helper_gvec_leu32 :: vec3 where
  "helper_gvec_leu32 = gvec3 (cmp_lane (\<lambda>x y :: u32. x \<le> y))"

definition helper_gvec_leu64 :: vec3 where
  "helper_gvec_leu64 = gvec3 (cmp_lane (\<lambda>x y :: u64. x \<le> y))"

section \<open>Saturating arithmetic\<close>

text \<open>8- and 16-bit lanes are clamped as \<open>int\<close>s; 32- and 64-bit lanes test the wrapped result for
  overflow.\<close>

definition helper_gvec_ssadd8 :: vec3 where
  "helper_gvec_ssadd8 = gvec3 (\<lambda>x y :: u8.
     let r = sint x + sint y;
         r = (if r > 127 then 127 else if r < - 128 then - 128 else r)
     in word_of_int r)"

definition helper_gvec_ssadd16 :: vec3 where
  "helper_gvec_ssadd16 = gvec3 (\<lambda>x y :: u16.
     let r = sint x + sint y;
         r = (if r > 32767 then 32767 else if r < - 32768 then - 32768 else r)
     in word_of_int r)"

definition helper_gvec_ssadd32 :: vec3 where
  "helper_gvec_ssadd32 = gvec3 (\<lambda>ai bi :: u32.
     let di = ai + bi
     in if sint ((di XOR ai) AND NOT (ai XOR bi)) < 0 then (if sint di < 0 then 0x7fffffff else 0x80000000) else di)"

definition helper_gvec_ssadd64 :: vec3 where
  "helper_gvec_ssadd64 = gvec3 (\<lambda>ai bi :: u64.
     let di = ai + bi
     in if sint ((di XOR ai) AND NOT (ai XOR bi)) < 0 then (if sint di < 0 then 0x7fffffffffffffff else 0x8000000000000000) else di)"

definition helper_gvec_sssub8 :: vec3 where
  "helper_gvec_sssub8 = gvec3 (\<lambda>x y :: u8.
     let r = sint x - sint y;
         r = (if r > 127 then 127 else if r < - 128 then - 128 else r)
     in word_of_int r)"

definition helper_gvec_sssub16 :: vec3 where
  "helper_gvec_sssub16 = gvec3 (\<lambda>x y :: u16.
     let r = sint x - sint y;
         r = (if r > 32767 then 32767 else if r < - 32768 then - 32768 else r)
     in word_of_int r)"

definition helper_gvec_sssub32 :: vec3 where
  "helper_gvec_sssub32 = gvec3 (\<lambda>ai bi :: u32.
     let di = ai - bi
     in if sint ((di XOR ai) AND (ai XOR bi)) < 0 then (if sint di < 0 then 0x7fffffff else 0x80000000) else di)"

definition helper_gvec_sssub64 :: vec3 where
  "helper_gvec_sssub64 = gvec3 (\<lambda>ai bi :: u64.
     let di = ai - bi
     in if sint ((di XOR ai) AND (ai XOR bi)) < 0 then (if sint di < 0 then 0x7fffffffffffffff else 0x8000000000000000) else di)"

definition helper_gvec_usadd8 :: vec3 where
  "helper_gvec_usadd8 = gvec3 (\<lambda>x y :: u8.
     let r = uint x + uint y; r = (if r > 255 then 255 else r) in word_of_int r)"

definition helper_gvec_usadd16 :: vec3 where
  "helper_gvec_usadd16 = gvec3 (\<lambda>x y :: u16.
     let r = uint x + uint y; r = (if r > 65535 then 65535 else r) in word_of_int r)"

definition helper_gvec_usadd32 :: vec3 where
  "helper_gvec_usadd32 = gvec3 (\<lambda>ai bi :: u32. let di = ai + bi in if di < ai then 0xffffffff else di)"

definition helper_gvec_usadd64 :: vec3 where
  "helper_gvec_usadd64 = gvec3 (\<lambda>ai bi :: u64. let di = ai + bi in if di < ai then 0xffffffffffffffff else di)"

definition helper_gvec_ussub8 :: vec3 where
  "helper_gvec_ussub8 = gvec3 (\<lambda>x y :: u8.
     let r = uint x - uint y; r = (if r < 0 then 0 else r) in word_of_int r)"

definition helper_gvec_ussub16 :: vec3 where
  "helper_gvec_ussub16 = gvec3 (\<lambda>x y :: u16.
     let r = uint x - uint y; r = (if r < 0 then 0 else r) in word_of_int r)"

definition helper_gvec_ussub32 :: vec3 where
  "helper_gvec_ussub32 = gvec3 (\<lambda>ai bi :: u32. let di = ai - bi in if ai < bi then 0 else di)"

definition helper_gvec_ussub64 :: vec3 where
  "helper_gvec_ussub64 = gvec3 (\<lambda>ai bi :: u64. let di = ai - bi in if ai < bi then 0 else di)"

section \<open>Minimum and maximum\<close>

definition helper_gvec_smin8 :: vec3 where
  "helper_gvec_smin8 = gvec3 (\<lambda>aa bb :: u8. if sint aa < sint bb then aa else bb)"

definition helper_gvec_smin16 :: vec3 where
  "helper_gvec_smin16 = gvec3 (\<lambda>aa bb :: u16. if sint aa < sint bb then aa else bb)"

definition helper_gvec_smin32 :: vec3 where
  "helper_gvec_smin32 = gvec3 (\<lambda>aa bb :: u32. if sint aa < sint bb then aa else bb)"

definition helper_gvec_smin64 :: vec3 where
  "helper_gvec_smin64 = gvec3 (\<lambda>aa bb :: u64. if sint aa < sint bb then aa else bb)"

definition helper_gvec_smax8 :: vec3 where
  "helper_gvec_smax8 = gvec3 (\<lambda>aa bb :: u8. if sint aa > sint bb then aa else bb)"

definition helper_gvec_smax16 :: vec3 where
  "helper_gvec_smax16 = gvec3 (\<lambda>aa bb :: u16. if sint aa > sint bb then aa else bb)"

definition helper_gvec_smax32 :: vec3 where
  "helper_gvec_smax32 = gvec3 (\<lambda>aa bb :: u32. if sint aa > sint bb then aa else bb)"

definition helper_gvec_smax64 :: vec3 where
  "helper_gvec_smax64 = gvec3 (\<lambda>aa bb :: u64. if sint aa > sint bb then aa else bb)"

definition helper_gvec_umin8 :: vec3 where
  "helper_gvec_umin8 = gvec3 (\<lambda>aa bb :: u8. if aa < bb then aa else bb)"

definition helper_gvec_umin16 :: vec3 where
  "helper_gvec_umin16 = gvec3 (\<lambda>aa bb :: u16. if aa < bb then aa else bb)"

definition helper_gvec_umin32 :: vec3 where
  "helper_gvec_umin32 = gvec3 (\<lambda>aa bb :: u32. if aa < bb then aa else bb)"

definition helper_gvec_umin64 :: vec3 where
  "helper_gvec_umin64 = gvec3 (\<lambda>aa bb :: u64. if aa < bb then aa else bb)"

definition helper_gvec_umax8 :: vec3 where
  "helper_gvec_umax8 = gvec3 (\<lambda>aa bb :: u8. if aa > bb then aa else bb)"

definition helper_gvec_umax16 :: vec3 where
  "helper_gvec_umax16 = gvec3 (\<lambda>aa bb :: u16. if aa > bb then aa else bb)"

definition helper_gvec_umax32 :: vec3 where
  "helper_gvec_umax32 = gvec3 (\<lambda>aa bb :: u32. if aa > bb then aa else bb)"

definition helper_gvec_umax64 :: vec3 where
  "helper_gvec_umax64 = gvec3 (\<lambda>aa bb :: u64. if aa > bb then aa else bb)"

section \<open>Selection\<close>

definition helper_gvec_bitsel :: "nat \<Rightarrow> nat \<Rightarrow> nat \<Rightarrow> nat \<Rightarrow> u32 \<Rightarrow> host_mem \<Rightarrow> host_mem option" where
  "helper_gvec_bitsel d a b c desc m =
     do { oprsz \<leftarrow> simd_oprsz desc;
          let m = vec_loop 8 (\<lambda>i m.
              let aa = load_le m (a + i); bb = load_le m (b + i); cc = load_le m (c + i)
              in store_le ((bb AND aa) OR (cc AND NOT aa) :: u64) (d + i) m) 0 oprsz m;
          clear_high d oprsz desc m }"

end
