(* ===== verification/Gvec_Props.thy ===== *)
theory Gvec_Props
  imports Gvec Bit_Props
begin

text \<open>
  The helpers of generic vector operations compute their results lane by lane.
\<close>

section \<open>Loads and stores\<close>

text \<open>Memory is accessed in whole bytes.\<close>

abbreviation bytes :: "'a::len itself \<Rightarrow> nat" where
  "bytes t \<equiv> LENGTH('a) div 8"

lemma load_le_bit:
  "bit (load_le m p :: 'a::len word) i \<longleftrightarrow> i < LENGTH('a) \<and> i div 8 < bytes TYPE('a) \<and> bit (m (p + i div 8)) (i mod 8)"
proof -
  have "bit (foldr (\<lambda>k w. push_bit (8 * k) (ucast (m (p + k))) OR w) ks 0 :: 'a word) i
      \<longleftrightarrow> i < LENGTH('a) \<and> (\<exists>k\<in>set ks. 8 * k \<le> i \<and> bit (m (p + k)) (i - 8 * k))" for ks
    by (induction ks) (auto simp: bit_simps)
  moreover have "8 * k \<le> i \<and> bit (m (p + k)) (i - 8 * k) \<longleftrightarrow> k = i div 8 \<and> bit (m (p + k)) (i mod 8)" for k
  proof
    assume a: "8 * k \<le> i \<and> bit (m (p + k)) (i - 8 * k)"
    then have l: "i - 8 * k < 8" using bit_imp_le_length by fastforce
    then have "i div 8 = k" using a by (intro div_nat_eqI) auto
    then show "k = i div 8 \<and> bit (m (p + k)) (i mod 8)" using a by (simp add: minus_mult_div_eq_mod [symmetric])
  next
    assume "k = i div 8 \<and> bit (m (p + k)) (i mod 8)"
    then show "8 * k \<le> i \<and> bit (m (p + k)) (i - 8 * k)" by (auto simp: minus_mult_div_eq_mod)
  qed
  ultimately show ?thesis by (auto simp: load_le_def)
qed

lemma load_le_cong: "(\<And>x. p \<le> x \<Longrightarrow> x < p + bytes TYPE('a) \<Longrightarrow> m x = m' x) \<Longrightarrow> load_le m p = (load_le m' p :: 'a::len word)"
  by (rule bit_word_eqI) (auto simp: load_le_bit)

lemma store_le_byte: "p \<le> x \<Longrightarrow> x < p + bytes TYPE('a) \<Longrightarrow> store_le v p m x = ucast (drop_bit (8 * (x - p)) v)" for v :: "'a::len word"
  by (simp add: store_le_def)

lemma store_le_other: "x < p \<or> p + bytes TYPE('a) \<le> x \<Longrightarrow> store_le v p m x = m x" for v :: "'a::len word"
  by (auto simp: store_le_def)

lemma load_store: "8 dvd LENGTH('a) \<Longrightarrow> load_le (store_le v p m) p = v" for v :: "'a::len word"
proof (rule bit_word_eqI)
  fix i assume d: "8 dvd LENGTH('a)" and i: "i < LENGTH('a)"
  then have "i div 8 < bytes TYPE('a)" by (auto elim!: dvdE simp: div_less_iff_less_mult)
  then show "bit (load_le (store_le v p m) p :: 'a word) i = bit v i"
    using i by (simp add: load_le_bit store_le_byte bit_simps)
qed

text \<open>A byte of memory is a byte of the lane it lies in.\<close>

lemma byte_of_load:
  assumes "8 dvd LENGTH('a::len)" "j < bytes TYPE('a)"
  shows "m (p + j) = ucast (drop_bit (8 * j) (load_le m p :: 'a word))"
proof (rule bit_word_eqI)
  fix i assume "i < LENGTH(8)"
  then have i: "i < 8" by simp
  have "8 * j + i < LENGTH('a)" "(8 * j + i) div 8 = j" "(8 * j + i) mod 8 = i" using assms i by (auto elim!: dvdE)
  then show "bit (m (p + j)) i = bit (ucast (drop_bit (8 * j) (load_le m p :: 'a word)) :: u8) i"
    using i assms(2) by (simp add: bit_simps load_le_bit)
qed

section \<open>Loops over lanes\<close>

lemma vec_loop_fold: "0 < w \<Longrightarrow> vec_loop w body (w * i) (w * n) m = fold (\<lambda>k. body (w * k)) [i..<n] m"
proof (induction "n - i" arbitrary: i m)
  case 0
  then show ?case by (subst vec_loop.simps) simp
next
  case (Suc x)
  then have "vec_loop w body (w * Suc i) (w * n) (body (w * i) m) = fold (\<lambda>k. body (w * k)) [Suc i..<n] (body (w * i) m)"
    by (intro Suc.hyps) auto
  moreover have "i < n" using Suc.hyps(2) by simp
  ultimately show ?case using Suc.prems by (subst vec_loop.simps) (simp add: upt_conv_Cons add.commute)
qed

text \<open>
  When lane \<open>k\<close> is computed from memory that the lanes before it do not overwrite, every lane is computed from
  the memory before the loop.
\<close>

lemma lanes_fold:
  fixes g :: "nat \<Rightarrow> host_mem \<Rightarrow> 'a::len word" and d :: nat and m :: host_mem
  defines "w \<equiv> bytes TYPE('a)"
  defines "R \<equiv> \<lambda>n. fold (\<lambda>k m. store_le (g k m) (d + w * k) m) [0..<n] m"
  assumes dvd: "8 dvd LENGTH('a)"
    and g: "\<forall>k<n. \<forall>m'. (\<forall>x. x < d \<or> d + w * k \<le> x \<longrightarrow> m' x = m x) \<longrightarrow> g k m' = g k m"
  shows "(\<forall>k<n. load_le (R n) (d + w * k) = g k m) \<and> (\<forall>x. x < d \<or> d + w * n \<le> x \<longrightarrow> R n x = m x)"
  using g
proof (induction n)
  case 0
  then show ?case by (simp add: R_def)
next
  case (Suc n)
  have p: "\<forall>k<n. \<forall>m'. (\<forall>x. x < d \<or> d + w * k \<le> x \<longrightarrow> m' x = m x) \<longrightarrow> g k m' = g k m" using Suc.prems less_SucI by blast
  note i = Suc.IH [OF p]
  have ih: "load_le (R n) (d + w * k) = g k m" if "k < n" for k using i that by blast
  have fr: "R n x = m x" if "x < d \<or> d + w * n \<le> x" for x using i that by blast
  have gn: "g n (R n) = g n m" using Suc.prems fr by blast
  then have e: "R (Suc n) = store_le (g n m) (d + w * n) (R n)" by (simp add: R_def)
  have "load_le (R (Suc n)) (d + w * k) = g k m" if k: "k < Suc n" for k
  proof (cases "k = n")
    case True
    then show ?thesis unfolding e by (simp add: load_store [OF dvd])
  next
    case False
    then have "w * Suc k \<le> w * n" using k by (intro mult_le_mono2) simp
    then have "load_le (R (Suc n)) (d + w * k) = (load_le (R n) (d + w * k) :: 'a word)"
      unfolding e by (intro load_le_cong store_le_other) (simp add: w_def)
    then show ?thesis using ih [of k] k False by simp
  qed
  moreover have "R (Suc n) x = m x" if "x < d \<or> d + w * Suc n \<le> x" for x
    using that fr [of x] unfolding e by (subst store_le_other) (auto simp: w_def)
  ultimately show ?case by blast
qed

lemma zero_fold:
  fixes d p :: nat and m :: host_mem
  defines "Z \<equiv> \<lambda>q. fold (\<lambda>k m. store_le (0 :: u64) (d + 8 * k) m) [p..<q] m"
  shows "p \<le> q \<Longrightarrow> Z q x = (if d + 8 * p \<le> x \<and> x < d + 8 * q then 0 else m x)"
proof (induction q)
  case 0
  then have "Z 0 = m" "\<not> (d + 8 * p \<le> x \<and> x < d + 8 * 0)" by (simp_all add: Z_def)
  then show ?case by (simp only: if_False)
next
  case (Suc q)
  show ?case
  proof (cases "p = Suc q")
    case True
    then have "Z (Suc q) = m" "\<not> (d + 8 * p \<le> x \<and> x < d + 8 * Suc q)" by (simp_all add: Z_def)
    then show ?thesis by (simp only: if_False)
  next
    case False
    then have le: "p \<le> q" using Suc.prems by simp
    have e: "Z (Suc q) x = (if d + 8 * q \<le> x \<and> x < d + 8 * q + 8 then 0 else Z q x)"
      using le by (simp add: Z_def store_le_def)
    have c: "d + 8 * p \<le> x \<and> x < d + 8 * Suc q \<longleftrightarrow> d + 8 * q \<le> x \<and> x < d + 8 * q + 8 \<or> d + 8 * p \<le> x \<and> x < d + 8 * q"
      using le by auto
    show ?thesis unfolding e Suc.IH [OF le] c by simp
  qed
qed

section \<open>Descriptors\<close>

definition oprsz_of :: "u32 \<Rightarrow> nat" where "oprsz_of desc = 8 * (unat (take_bit 5 desc) + 1)"
definition maxsz_of :: "u32 \<Rightarrow> nat" where "maxsz_of desc = 8 * (unat (take_bit 5 (drop_bit 5 desc)) + 1)"

lemma field_size: "unat (take_bit 5 v * 8 + 8) = 8 + 8 * unat (take_bit 5 v)" for v :: u32
proof -
  have "unat (take_bit 5 v) < 2 ^ 5" using take_bit_nat_less_exp [of 5 "unat v"] by (simp add: unsigned_take_bit_eq)
  then show ?thesis by (simp add: unat_word_ariths del: unsigned_take_bit_eq)
qed

lemma simd_sizes: "simd_oprsz desc = Some (oprsz_of desc)" "simd_maxsz desc = Some (maxsz_of desc)"
  by (simp_all add: simd_oprsz_def simd_maxsz_def extract_eq oprsz_of_def maxsz_of_def field_size)

lemma clear_high_eq: "\<exists>m'. clear_high d (8 * p) desc m = Some m' \<and>
    (\<forall>x. m' x = (if d + 8 * p \<le> x \<and> x < d + maxsz_of desc then 0 else m x))"
proof -
  define q where "q = unat (take_bit 5 (drop_bit 5 desc)) + 1"
  have q: "simd_maxsz desc = Some (8 * q)" "maxsz_of desc = 8 * q" by (simp_all only: simd_sizes maxsz_of_def q_def)
  show ?thesis
  proof (cases "p < q")
    case True
    let ?Z = "fold (\<lambda>k m. store_le (0 :: u64) (d + 8 * k) m) [p..<q] m"
    have l: "vec_loop 8 (\<lambda>i m. store_le (0 :: u64) (d + i) m) (8 * p) (8 * q) m = ?Z"
      by (rule vec_loop_fold [of 8 "\<lambda>i m. store_le (0 :: u64) (d + i) m" p q m]) simp
    have "clear_high d (8 * p) desc m = Some ?Z" using True by (simp add: clear_high_def q(1) l)
    then show ?thesis unfolding q(2) using zero_fold [OF less_imp_le [OF True], of d m] by blast
  next
    case False
    then have "clear_high d (8 * p) desc m = Some m" by (simp add: clear_high_def q(1))
    then show ?thesis using False unfolding q(2) by (intro exI [of _ m]) auto
  qed
qed

text \<open>
  The result of a helper: the lanes of the operation, zeros up to the size of the vector, and nothing else changed.
\<close>

definition vec_result :: "nat \<Rightarrow> u32 \<Rightarrow> host_mem \<Rightarrow> (nat \<Rightarrow> 'a::len word) \<Rightarrow> host_mem option \<Rightarrow> bool" where
  "vec_result d desc m g r \<longleftrightarrow>
     (\<exists>m'. r = Some m'
       \<and> (\<forall>k < oprsz_of desc div bytes TYPE('a). load_le m' (d + bytes TYPE('a) * k) = g k)
       \<and> (\<forall>x. d + oprsz_of desc \<le> x \<and> x < d + maxsz_of desc \<longrightarrow> m' x = 0)
       \<and> (\<forall>x. x < d \<or> d + max (oprsz_of desc) (maxsz_of desc) \<le> x \<longrightarrow> m' x = m x))"


text \<open>The widths of lanes.\<close>

lemma bytes_pos:
  assumes "8 dvd LENGTH('a::len)"
  shows "0 < bytes TYPE('a)"
proof -
  obtain w where w: "LENGTH('a) = 8 * w" using assms by (auto elim: dvdE)
  have "0 < w" using len_gt_0 [where 'a = 'a] unfolding w by simp
  then show ?thesis unfolding w by simp
qed

lemma lane_width:
  assumes "8 dvd LENGTH('a::len)" "LENGTH('a) dvd 64"
  shows "0 < bytes TYPE('a)" "bytes TYPE('a) * (oprsz_of desc div bytes TYPE('a)) = oprsz_of desc"
proof -
  obtain w where w: "LENGTH('a) = 8 * w" using assms(1) by (auto elim: dvdE)
  show "0 < bytes TYPE('a)" by (rule bytes_pos [OF assms(1)])
  obtain c where "64 = 8 * w * c" using assms(2) unfolding w by (rule dvdE)
  then have "8 = w * c" by (simp add: mult.commute)
  then have "w dvd 8" by (rule dvdI)
  then have "w dvd oprsz_of desc" unfolding oprsz_of_def by (rule dvd_mult2)
  then show "bytes TYPE('a) * (oprsz_of desc div bytes TYPE('a)) = oprsz_of desc" by (simp add: w)
qed

lemma vec_result_loop:
  fixes h :: "nat \<Rightarrow> host_mem \<Rightarrow> 'a::len word"
  assumes lw: "8 dvd LENGTH('a)" "LENGTH('a) dvd 64"
    and g: "\<forall>k<oprsz_of desc div bytes TYPE('a). \<forall>m'. (\<forall>x. x < d \<or> d + bytes TYPE('a) * k \<le> x \<longrightarrow> m' x = m x)
      \<longrightarrow> h (bytes TYPE('a) * k) m' = h (bytes TYPE('a) * k) m"
  shows "vec_result d desc m (\<lambda>k. h (bytes TYPE('a) * k) m)
    (clear_high d (oprsz_of desc) desc (vec_loop (bytes TYPE('a)) (\<lambda>i m. store_le (h i m) (d + i) m) 0 (oprsz_of desc) m))"
proof -
  let ?w = "bytes TYPE('a)" let ?n = "oprsz_of desc div ?w"
  note w = lane_width(1) [OF lw] lane_width(2) [OF lw, of desc]
  define R where "R = fold (\<lambda>k m. store_le (h (?w * k) m) (d + ?w * k) m) [0..<?n] m"
  have l: "vec_loop ?w (\<lambda>i m. store_le (h i m) (d + i) m) 0 (oprsz_of desc) m = R"
    using vec_loop_fold [OF w(1), of "\<lambda>i m. store_le (h i m) (d + i) m" 0 ?n m] unfolding w(2) R_def by simp
  have r: "\<forall>k<?n. load_le R (d + ?w * k) = h (?w * k) m" "\<forall>x. x < d \<or> d + oprsz_of desc \<le> x \<longrightarrow> R x = m x"
    using lanes_fold [OF lw(1) g] unfolding R_def w(2) by blast+
  obtain p where p: "oprsz_of desc = 8 * p" unfolding oprsz_of_def by blast
  obtain m' where m': "clear_high d (8 * p) desc R = Some m'"
    "\<And>x. m' x = (if d + 8 * p \<le> x \<and> x < d + maxsz_of desc then 0 else R x)"
    using clear_high_eq by blast
  have "load_le m' (d + ?w * k) = (load_le R (d + ?w * k) :: 'a word)" if k: "k < ?n" for k
  proof (rule load_le_cong)
    fix x assume x: "d + ?w * k \<le> x" "x < d + ?w * k + ?w"
    have "?w * Suc k \<le> ?w * ?n" using k by (intro mult_le_mono2) simp
    then show "m' x = R x" using x w(2) p unfolding m'(2) by simp
  qed
  then show ?thesis unfolding vec_result_def l using r m'
    by (intro exI [of _ m']) (simp add: p [symmetric])
qed


section \<open>The forms of the helpers\<close>

text \<open>Two vectors are the same or do not meet, the rule of \<open>check_overlap_2\<close>.\<close>

definition apart :: "nat \<Rightarrow> nat \<Rightarrow> nat \<Rightarrow> bool" where
  "apart d a s \<longleftrightarrow> d = a \<or> d + s \<le> a \<or> a + s \<le> d"

lemma check_overlap_2_apart:
  assumes "check_overlap_2 d a s" "unat d + unat s < 2 ^ 32" "unat a + unat s < 2 ^ 32"
  shows "apart (env + unat d) (env + unat a) (unat s)"
proof -
  have "unat (d + s) = unat d + unat s" "unat (a + s) = unat a + unat s" using assms(2,3) by (simp_all add: unat_word_ariths)
  then show ?thesis using assms(1) by (auto simp: check_overlap_2_def apart_def word_le_nat_alt)
qed

lemma load_unwritten:
  assumes "apart d a s" "n + bytes TYPE('a::len) \<le> s" "\<forall>x. x < d \<or> d + n \<le> x \<longrightarrow> m' x = m x"
  shows "load_le m' (a + n) = (load_le m (a + n) :: 'a word)"
  by (rule load_le_cong) (use assms in \<open>auto simp: apart_def\<close>)

text \<open>The contract between the destination and a source of a helper.\<close>

abbreviation source_ok :: "u32 \<Rightarrow> nat \<Rightarrow> nat \<Rightarrow> bool" where
  "source_ok desc d a \<equiv> apart d a (oprsz_of desc)"

lemma lane_inside: "8 dvd LENGTH('a::len) \<Longrightarrow> LENGTH('a) dvd 64 \<Longrightarrow> k < oprsz_of desc div bytes TYPE('a)
    \<Longrightarrow> bytes TYPE('a) * k + bytes TYPE('a) \<le> oprsz_of desc"
  using lane_width(2) [where 'a = 'a, of desc] mult_le_mono2 [of "Suc k" "oprsz_of desc div bytes TYPE('a)" "bytes TYPE('a)"]
  by simp

lemma gvec2_result:
  fixes f :: "'a::len word \<Rightarrow> 'a word"
  assumes "8 dvd LENGTH('a)" "LENGTH('a) dvd 64" "source_ok desc d a"
  shows "vec_result d desc m (\<lambda>k. f (load_le m (a + bytes TYPE('a) * k))) (gvec2 f d a desc m)"
proof -
  have "vec_result d desc m (\<lambda>k. f (load_le m (a + bytes TYPE('a) * k)))
      (clear_high d (oprsz_of desc) desc
        (vec_loop (bytes TYPE('a)) (\<lambda>i m. store_le (f (load_le m (a + i))) (d + i) m) 0 (oprsz_of desc) m))"
  proof (rule vec_result_loop [OF assms(1,2), where h = "\<lambda>i m. f (load_le m (a + i))"], intro allI impI)
    fix k m' assume k: "k < oprsz_of desc div bytes TYPE('a)" "\<forall>x. x < d \<or> d + bytes TYPE('a) * k \<le> x \<longrightarrow> m' x = m x"
    show "f (load_le m' (a + bytes TYPE('a) * k)) = f (load_le m (a + bytes TYPE('a) * k))"
      by (simp only: load_unwritten [OF assms(3) lane_inside [OF assms(1,2) k(1)] k(2)])
  qed
  then show ?thesis by (simp only: gvec2_def simd_sizes Option.bind.bind_lunit Let_def)
qed

lemma gvec3_result:
  fixes f :: "'a::len word \<Rightarrow> 'a word \<Rightarrow> 'a word"
  assumes "8 dvd LENGTH('a)" "LENGTH('a) dvd 64" "source_ok desc d a" "source_ok desc d b"
  shows "vec_result d desc m (\<lambda>k. f (load_le m (a + bytes TYPE('a) * k)) (load_le m (b + bytes TYPE('a) * k))) (gvec3 f d a b desc m)"
proof -
  have "vec_result d desc m (\<lambda>k. f (load_le m (a + bytes TYPE('a) * k)) (load_le m (b + bytes TYPE('a) * k)))
      (clear_high d (oprsz_of desc) desc
        (vec_loop (bytes TYPE('a)) (\<lambda>i m. store_le (f (load_le m (a + i)) (load_le m (b + i))) (d + i) m) 0 (oprsz_of desc) m))"
  proof (rule vec_result_loop [OF assms(1,2), where h = "\<lambda>i m. f (load_le m (a + i)) (load_le m (b + i))"], intro allI impI)
    fix k m' assume k: "k < oprsz_of desc div bytes TYPE('a)" "\<forall>x. x < d \<or> d + bytes TYPE('a) * k \<le> x \<longrightarrow> m' x = m x"
    show "f (load_le m' (a + bytes TYPE('a) * k)) (load_le m' (b + bytes TYPE('a) * k))
        = f (load_le m (a + bytes TYPE('a) * k)) (load_le m (b + bytes TYPE('a) * k))"
      by (simp only: load_unwritten [OF assms(3) lane_inside [OF assms(1,2) k(1)] k(2)]
          load_unwritten [OF assms(4) lane_inside [OF assms(1,2) k(1)] k(2)])
  qed
  then show ?thesis by (simp only: gvec3_def simd_sizes Option.bind.bind_lunit Let_def)
qed


section \<open>Results byte by byte\<close>

text \<open>The same result, described by the bytes of the operation instead of its lanes.\<close>

definition vec_bytes :: "nat \<Rightarrow> u32 \<Rightarrow> host_mem \<Rightarrow> (nat \<Rightarrow> u8) \<Rightarrow> host_mem option \<Rightarrow> bool" where
  "vec_bytes d desc m f r \<longleftrightarrow>
     (\<exists>m'. r = Some m'
       \<and> (\<forall>i < oprsz_of desc. m' (d + i) = f i)
       \<and> (\<forall>x. d + oprsz_of desc \<le> x \<and> x < d + maxsz_of desc \<longrightarrow> m' x = 0)
       \<and> (\<forall>x. x < d \<or> d + max (oprsz_of desc) (maxsz_of desc) \<le> x \<longrightarrow> m' x = m x))"

definition byte_of :: "(nat \<Rightarrow> 'a::len word) \<Rightarrow> nat \<Rightarrow> u8" where
  "byte_of g i = ucast (drop_bit (8 * (i mod bytes TYPE('a))) (g (i div bytes TYPE('a))))"

lemma byte_of_lanes:
  assumes "8 dvd LENGTH('a::len)"
  shows "byte_of (\<lambda>k. load_le m (d + bytes TYPE('a) * k) :: 'a word) i = m (d + i)"
proof -
  have "0 < bytes TYPE('a)" by (rule bytes_pos [OF assms])
  then have "i mod bytes TYPE('a) < bytes TYPE('a)" by simp
  from byte_of_load [OF assms this, of m "d + bytes TYPE('a) * (i div bytes TYPE('a))"]
  show ?thesis by (simp add: byte_of_def add.assoc)
qed

lemma load_eq_bytes:
  assumes "8 dvd LENGTH('a::len)" "\<And>j. j < bytes TYPE('a) \<Longrightarrow> m (p + j) = ucast (drop_bit (8 * j) (v :: 'a word))"
  shows "load_le m p = v"
proof (rule bit_word_eqI)
  fix i assume i: "i < LENGTH('a)"
  then have j: "i div 8 < bytes TYPE('a)" using assms(1) by (auto elim!: dvdE simp: div_less_iff_less_mult)
  then show "bit (load_le m p :: 'a word) i = bit v i"
    using i assms(2) [OF j] by (simp add: load_le_bit bit_simps)
qed

lemma vec_result_bytes:
  fixes g :: "nat \<Rightarrow> 'a::len word"
  assumes lw: "8 dvd LENGTH('a)" "LENGTH('a) dvd 64"
  shows "vec_result d desc m g r \<longleftrightarrow> vec_bytes d desc m (byte_of g) r"
proof -
  let ?w = "bytes TYPE('a)" let ?n = "oprsz_of desc div ?w"
  note w = lane_width(1) [OF lw] lane_width(2) [OF lw, of desc]
  have "(\<forall>k<?n. load_le m' (d + ?w * k) = g k) \<longleftrightarrow> (\<forall>i<oprsz_of desc. m' (d + i) = byte_of g i)" (is "?L \<longleftrightarrow> ?R") for m'
  proof
    assume l: ?L
    show ?R
    proof (intro allI impI)
      fix i assume "i < oprsz_of desc"
      then have "i div ?w < ?n" using w by (simp add: div_less_iff_less_mult mult.commute)
      then have "byte_of g i = byte_of (\<lambda>k. load_le m' (d + ?w * k) :: 'a word) i" using l by (simp add: byte_of_def)
      then show "m' (d + i) = byte_of g i" by (simp only: byte_of_lanes [OF lw(1)])
    qed
  next
    assume r: ?R
    show ?L
    proof (intro allI impI, rule load_eq_bytes [OF lw(1)])
      fix k j assume k: "k < ?n" and j: "j < ?w"
      have "?w * k + j < oprsz_of desc" using lane_inside [OF lw k] j by simp
      then have "m' (d + (?w * k + j)) = byte_of g (?w * k + j)" using r by blast
      also have "\<dots> = ucast (drop_bit (8 * j) (g k))" using j by (simp add: byte_of_def)
      finally show "m' (d + ?w * k + j) = ucast (drop_bit (8 * j) (g k))" by (simp only: add.assoc)
    qed
  qed
  then show ?thesis unfolding vec_result_def vec_bytes_def by (simp only:)
qed

lemma vec_bytes_agree:
  assumes "vec_bytes d desc m f (Some m1)" "vec_bytes d desc m' f' (Some m2)" "\<And>i. i < oprsz_of desc \<Longrightarrow> f i = f' i"
    and "d \<le> x" "x < d + max (oprsz_of desc) (maxsz_of desc)"
  shows "m1 x = m2 x"
proof (cases "x < d + oprsz_of desc")
  case True
  then have "x = d + (x - d)" "x - d < oprsz_of desc" using assms(4) by auto
  then show ?thesis using assms(1-3) unfolding vec_bytes_def by (metis option.inject)
next
  case False
  then have "d + oprsz_of desc \<le> x" "x < d + maxsz_of desc" using assms(5) by auto
  then show ?thesis using assms(1,2) unfolding vec_bytes_def by (metis option.inject)
qed

text \<open>Vectors that share no byte.\<close>

definition disjoint_vecs :: "u32 \<Rightarrow> nat \<Rightarrow> nat \<Rightarrow> bool" where
  "disjoint_vecs desc a b \<longleftrightarrow> (let s = max (oprsz_of desc) (maxsz_of desc) in a + s \<le> b \<or> b + s \<le> a)"

lemma vec_bytes_other:
  assumes "vec_bytes t desc m f (Some m1)" "disjoint_vecs desc t a" "i < oprsz_of desc"
  shows "m1 (a + i) = m (a + i)"
proof -
  have "a + i < t \<or> t + max (oprsz_of desc) (maxsz_of desc) \<le> a + i"
    using assms(2,3) by (auto simp: disjoint_vecs_def Let_def)
  then show ?thesis using assms(1) unfolding vec_bytes_def by (metis option.inject)
qed

end
