(* ===== verification/Gvec_Api.thy ===== *)
theory Gvec_Api
  imports Gvec_Props
begin

text \<open>
  What the vector helpers promise: saturating arithmetic, shifts, minima as selections by comparisons, scalar operands
  as duplicated vectors, and the round trip of descriptors.
\<close>

abbreviation lane :: "host_mem \<Rightarrow> nat \<Rightarrow> nat \<Rightarrow> 'a::len word" where
  "lane m a k \<equiv> load_le m (a + bytes TYPE('a) * k)"

lemma widths: "8 dvd LENGTH(8)" "8 dvd LENGTH(16)" "8 dvd LENGTH(32)" "8 dvd LENGTH(64)"
  "LENGTH(8) dvd 64" "LENGTH(16) dvd 64" "LENGTH(32) dvd 64" "LENGTH(64) dvd 64"
  by simp_all

lemma gvec3_resultI:
  fixes f :: "'a::len word \<Rightarrow> 'a word \<Rightarrow> 'a word"
  assumes "g = (\<lambda>k. f (lane m a k) (lane m b k))" "source_ok desc d a" "source_ok desc d b" "8 dvd LENGTH('a)" "LENGTH('a) dvd 64"
  shows "vec_result d desc m g (gvec3 f d a b desc m)"
  unfolding assms(1) by (rule gvec3_result) (rule assms)+

section \<open>Saturating arithmetic\<close>

definition sat_signed :: "int \<Rightarrow> 'a::len word" where
  "sat_signed r = word_of_int (max (- (2 ^ (LENGTH('a) - 1))) (min (2 ^ (LENGTH('a) - 1) - 1) r))"

definition sat_unsigned :: "int \<Rightarrow> 'a::len word" where
  "sat_unsigned r = word_of_int (max 0 (min (2 ^ LENGTH('a) - 1) r))"

lemma sint_wrap:
  fixes r :: int
  assumes "- (2 ^ LENGTH('a)) \<le> r" "r < 2 ^ LENGTH('a)"
  shows "sint (word_of_int r :: 'a::len word) =
    (if r \<ge> 2 ^ (LENGTH('a) - 1) then r - 2 ^ LENGTH('a) else if r < - (2 ^ (LENGTH('a) - 1)) then r + 2 ^ LENGTH('a) else r)"
proof -
  define n where "n = LENGTH('a) - 1"
  have n: "LENGTH('a) = Suc n" using len_gt_0 [where 'a = 'a] by (simp add: n_def)
  have s: "sint (word_of_int r :: 'a word) = (r + 2 ^ n) mod 2 ^ Suc n - 2 ^ n"
    by (simp add: sint_sbintrunc' signed_take_bit_eq_take_bit_shift take_bit_eq_mod n)
  consider "r \<ge> 2 ^ n" | "r < - (2 ^ n)" | "- (2 ^ n) \<le> r" "r < 2 ^ n" by linarith
  then show ?thesis
  proof cases
    case 1
    then have "(r + 2 ^ n) mod 2 ^ Suc n = r + 2 ^ n - 2 ^ Suc n"
      using assms(2) unfolding n by (intro int_mod_pos_eq [where q = 1]) auto
    then show ?thesis using 1 unfolding s n by simp
  next
    case 2
    then have "(r + 2 ^ n) mod 2 ^ Suc n = r + 2 ^ n + 2 ^ Suc n"
      using assms(1) unfolding n by (intro int_mod_pos_eq [where q = "- 1"]) auto
    moreover have "\<not> 2 ^ n \<le> r" using 2 zero_less_power [of "2 :: int" n] by linarith
    ultimately show ?thesis using 2 unfolding s n by simp
  next
    case 3
    then have "(r + 2 ^ n) mod 2 ^ Suc n = r + 2 ^ n" by (intro mod_pos_pos_trivial) auto
    then show ?thesis using 3 unfolding s n by simp
  qed
qed

lemma sign_bit: "sint x < 0 \<longleftrightarrow> bit x (LENGTH('a) - 1)" for x :: "'a::len word"
  by (simp add: bit_last_iff)


lemma sint_bounds: "- (2 ^ (LENGTH('a) - 1)) \<le> sint x" "sint x < 2 ^ (LENGTH('a) - 1)" for x :: "'a::len word"
  using sint_ge [of x] sint_lt [of x] by simp_all

lemma half_range: "(2 :: int) ^ LENGTH('a::len) = 2 * 2 ^ (LENGTH('a) - 1)"
  by (metis One_nat_def Suc_pred len_gt_0 power_Suc)

lemma clamp:
  fixes h r :: int
  shows "0 < h \<Longrightarrow> h \<le> r \<Longrightarrow> max (- h) (min (h - 1) r) = h - 1" "0 < h \<Longrightarrow> r < - h \<Longrightarrow> max (- h) (min (h - 1) r) = - h"
    "- h \<le> r \<Longrightarrow> r < h \<Longrightarrow> max (- h) (min (h - 1) r) = r"
  by auto

lemma sat_signed_cases:
  fixes r :: int
  shows "r \<ge> 2 ^ (LENGTH('a) - 1) \<Longrightarrow> sat_signed r = (word_of_int (2 ^ (LENGTH('a) - 1) - 1) :: 'a::len word)"
    "r < - (2 ^ (LENGTH('a) - 1)) \<Longrightarrow> sat_signed r = (word_of_int (- (2 ^ (LENGTH('a) - 1))) :: 'a word)"
    "- (2 ^ (LENGTH('a) - 1)) \<le> r \<Longrightarrow> r < 2 ^ (LENGTH('a) - 1) \<Longrightarrow> sat_signed r = (word_of_int r :: 'a word)"
  by (simp_all only: sat_signed_def clamp zero_less_power zero_less_numeral)

text \<open>The overflow test of the wide lanes, for a sum of two signed words.\<close>

lemma ssadd_lane:
  fixes x y :: "'a::len word"
  shows "(let di = x + y in if sint ((di XOR x) AND NOT (x XOR y)) < 0
      then (if sint di < 0 then word_of_int (2 ^ (LENGTH('a) - 1) - 1) else word_of_int (- (2 ^ (LENGTH('a) - 1)))) else di)
    = sat_signed (sint x + sint y)"
proof -
  let ?h = "2 ^ (LENGTH('a) - 1) :: int" and ?s = "sint x + sint y"
  note b = sint_bounds [of x] sint_bounds [of y] half_range [where 'a = 'a]
  have e: "x + y = word_of_int ?s" by simp
  have w: "sint (x + y) = (if ?s \<ge> ?h then ?s - 2 * ?h else if ?s < - ?h then ?s + 2 * ?h else ?s)"
    unfolding e b(5) [symmetric] by (rule sint_wrap) (use b in linarith)+
  have t: "sint (((x + y) XOR x) AND NOT (x XOR y)) < 0 \<longleftrightarrow> (sint (x + y) < 0) \<noteq> (sint x < 0) \<and> (sint x < 0) = (sint y < 0)"
    unfolding sign_bit by (auto simp: bit_simps)
  consider "?s \<ge> ?h" | "?s < - ?h" | "- ?h \<le> ?s" "?s < ?h" by linarith
  then show ?thesis
  proof cases
    case 1
    moreover then have "sint (x + y) < 0" "\<not> sint x < 0" "\<not> sint y < 0" using w b by auto
    ultimately show ?thesis by (simp only: Let_def t sat_signed_cases(1) simp_thms if_True)
  next
    case 2
    moreover then have "\<not> sint (x + y) < 0" "sint x < 0" "sint y < 0" using w b by auto
    ultimately show ?thesis by (simp only: Let_def t sat_signed_cases(2) simp_thms if_True if_False)
  next
    case 3
    then have "sint (x + y) = ?s" using w by simp
    then have "\<not> ((sint (x + y) < 0) \<noteq> (sint x < 0) \<and> (sint x < 0) = (sint y < 0))" by auto
    then show ?thesis unfolding Let_def t sat_signed_cases(3) [OF 3] e [symmetric] by (simp only: if_False)
  qed
qed

lemma sssub_lane:
  fixes x y :: "'a::len word"
  shows "(let di = x - y in if sint ((di XOR x) AND (x XOR y)) < 0
      then (if sint di < 0 then word_of_int (2 ^ (LENGTH('a) - 1) - 1) else word_of_int (- (2 ^ (LENGTH('a) - 1)))) else di)
    = sat_signed (sint x - sint y)"
proof -
  let ?h = "2 ^ (LENGTH('a) - 1) :: int" and ?s = "sint x - sint y"
  note b = sint_bounds [of x] sint_bounds [of y] half_range [where 'a = 'a]
  have e: "x - y = word_of_int ?s" by simp
  have w: "sint (x - y) = (if ?s \<ge> ?h then ?s - 2 * ?h else if ?s < - ?h then ?s + 2 * ?h else ?s)"
    unfolding e b(5) [symmetric] by (rule sint_wrap) (use b in linarith)+
  have t: "sint (((x - y) XOR x) AND (x XOR y)) < 0 \<longleftrightarrow> (sint (x - y) < 0) \<noteq> (sint x < 0) \<and> (sint x < 0) \<noteq> (sint y < 0)"
    unfolding sign_bit by (auto simp: bit_simps)
  consider "?s \<ge> ?h" | "?s < - ?h" | "- ?h \<le> ?s" "?s < ?h" by linarith
  then show ?thesis
  proof cases
    case 1
    moreover then have "sint (x - y) < 0" "\<not> sint x < 0" "sint y < 0" using w b by auto
    ultimately show ?thesis by (simp only: Let_def t sat_signed_cases(1) simp_thms if_True)
  next
    case 2
    moreover then have "\<not> sint (x - y) < 0" "sint x < 0" "\<not> sint y < 0" using w b by auto
    ultimately show ?thesis by (simp only: Let_def t sat_signed_cases(2) simp_thms if_True if_False)
  next
    case 3
    then have "sint (x - y) = ?s" using w by simp
    then have "\<not> ((sint (x - y) < 0) \<noteq> (sint x < 0) \<and> (sint x < 0) \<noteq> (sint y < 0))" by auto
    then show ?thesis unfolding Let_def t sat_signed_cases(3) [OF 3] e [symmetric] by (simp only: if_False)
  qed
qed


lemma usadd_lane: "(let di = x + y in if di < x then - 1 else di) = sat_unsigned (uint x + uint y)" for x y :: "'a::len word"
proof -
  have b: "uint x < 2 ^ LENGTH('a)" "uint y < 2 ^ LENGTH('a)" "0 \<le> uint x" "0 \<le> uint y" by simp_all
  have m: "(- 1 :: 'a word) = word_of_int (2 ^ LENGTH('a) - 1)" by simp
  show ?thesis
  proof (cases "uint x + uint y < 2 ^ LENGTH('a)")
    case True
    then have "max 0 (min (2 ^ LENGTH('a) - 1) (uint x + uint y)) = uint x + uint y" "\<not> x + y < x"
      using b by (auto simp: word_less_def uint_plus_if')
    then show ?thesis by (simp add: sat_unsigned_def)
  next
    case False
    then have "max 0 (min (2 ^ LENGTH('a) - 1) (uint x + uint y)) = 2 ^ LENGTH('a) - 1" "x + y < x"
      using b by (auto simp: word_less_def uint_plus_if')
    then show ?thesis by (simp only: sat_unsigned_def m Let_def if_True)
  qed
qed

lemma ussub_lane: "(let di = x - y in if x < y then 0 else di) = sat_unsigned (uint x - uint y)" for x y :: "'a::len word"
proof -
  have b: "uint x < 2 ^ LENGTH('a)" "0 \<le> uint y" by simp_all
  show ?thesis
  proof (cases "uint x < uint y")
    case True
    then have "max 0 (min (2 ^ LENGTH('a) - 1) (uint x - uint y)) = 0" by simp
    then show ?thesis using True by (simp add: sat_unsigned_def word_less_def)
  next
    case False
    then have "max 0 (min (2 ^ LENGTH('a) - 1) (uint x - uint y)) = uint x - uint y" using b by simp
    then show ?thesis using False by (simp add: sat_unsigned_def word_less_def)
  qed
qed

lemma narrow_sat:
  "(let r = i; r = (if r > 127 then 127 else if r < - 128 then - 128 else r) in word_of_int r) = (sat_signed i :: u8)"
  "(let r = i; r = (if r > 32767 then 32767 else if r < - 32768 then - 32768 else r) in word_of_int r) = (sat_signed i :: u16)"
  "0 \<le> i \<Longrightarrow> (let r = i; r = (if r > 255 then 255 else r) in word_of_int r) = (sat_unsigned i :: u8)"
  "0 \<le> i \<Longrightarrow> (let r = i; r = (if r > 65535 then 65535 else r) in word_of_int r) = (sat_unsigned i :: u16)"
  "i \<le> 255 \<Longrightarrow> (let r = i; r = (if r < 0 then 0 else r) in word_of_int r) = (sat_unsigned i :: u8)"
  "i \<le> 65535 \<Longrightarrow> (let r = i; r = (if r < 0 then 0 else r) in word_of_int r) = (sat_unsigned i :: u16)"
  unfolding Let_def sat_signed_def sat_unsigned_def by (rule arg_cong [where f = word_of_int], simp add: max_def min_def)+

lemma wide_limits:
  "(0x7FFFFFFF :: u32) = word_of_int (2 ^ (LENGTH(32) - 1) - 1)" "(0x80000000 :: u32) = word_of_int (- (2 ^ (LENGTH(32) - 1)))"
  "(0x7FFFFFFFFFFFFFFF :: u64) = word_of_int (2 ^ (LENGTH(64) - 1) - 1)"
  "(0x8000000000000000 :: u64) = word_of_int (- (2 ^ (LENGTH(64) - 1)))"
  "(0xFFFFFFFF :: u32) = - 1" "(0xFFFFFFFFFFFFFFFF :: u64) = - 1"
  by simp_all

lemma saturating_eq:
  "helper_gvec_ssadd8 = gvec3 (\<lambda>x y :: u8. sat_signed (sint x + sint y))"
  "helper_gvec_ssadd16 = gvec3 (\<lambda>x y :: u16. sat_signed (sint x + sint y))"
  "helper_gvec_ssadd32 = gvec3 (\<lambda>x y :: u32. sat_signed (sint x + sint y))"
  "helper_gvec_ssadd64 = gvec3 (\<lambda>x y :: u64. sat_signed (sint x + sint y))"
  "helper_gvec_sssub8 = gvec3 (\<lambda>x y :: u8. sat_signed (sint x - sint y))"
  "helper_gvec_sssub16 = gvec3 (\<lambda>x y :: u16. sat_signed (sint x - sint y))"
  "helper_gvec_sssub32 = gvec3 (\<lambda>x y :: u32. sat_signed (sint x - sint y))"
  "helper_gvec_sssub64 = gvec3 (\<lambda>x y :: u64. sat_signed (sint x - sint y))"
  unfolding helper_gvec_ssadd8_def helper_gvec_ssadd16_def helper_gvec_ssadd32_def helper_gvec_ssadd64_def
    helper_gvec_sssub8_def helper_gvec_sssub16_def helper_gvec_sssub32_def helper_gvec_sssub64_def
    wide_limits ssadd_lane sssub_lane narrow_sat(1,2) by (rule refl)+

lemma saturating_unsigned_eq:
  "helper_gvec_usadd8 = gvec3 (\<lambda>x y :: u8. sat_unsigned (uint x + uint y))"
  "helper_gvec_usadd16 = gvec3 (\<lambda>x y :: u16. sat_unsigned (uint x + uint y))"
  "helper_gvec_usadd32 = gvec3 (\<lambda>x y :: u32. sat_unsigned (uint x + uint y))"
  "helper_gvec_usadd64 = gvec3 (\<lambda>x y :: u64. sat_unsigned (uint x + uint y))"
  "helper_gvec_ussub8 = gvec3 (\<lambda>x y :: u8. sat_unsigned (uint x - uint y))"
  "helper_gvec_ussub16 = gvec3 (\<lambda>x y :: u16. sat_unsigned (uint x - uint y))"
  "helper_gvec_ussub32 = gvec3 (\<lambda>x y :: u32. sat_unsigned (uint x - uint y))"
  "helper_gvec_ussub64 = gvec3 (\<lambda>x y :: u64. sat_unsigned (uint x - uint y))"
proof -
  have "0 \<le> uint x + uint y" for x y :: u8 by simp
  note a8 = narrow_sat(3) [OF this]
  have "0 \<le> uint x + uint y" for x y :: u16 by simp
  note a16 = narrow_sat(4) [OF this]
  have "uint x - uint y \<le> 255" for x y :: u8
  proof -
    have "uint x < 2 ^ LENGTH(8)" by (rule unsigned_less)
    then have "uint x < 256" by simp
    moreover have "0 \<le> uint y" by simp
    ultimately show ?thesis by linarith
  qed
  note s8 = narrow_sat(5) [OF this]
  have "uint x - uint y \<le> 65535" for x y :: u16
  proof -
    have "uint x < 2 ^ LENGTH(16)" by (rule unsigned_less)
    then have "uint x < 65536" by simp
    moreover have "0 \<le> uint y" by simp
    ultimately show ?thesis by linarith
  qed
  note s16 = narrow_sat(6) [OF this]
  show "helper_gvec_usadd8 = gvec3 (\<lambda>x y :: u8. sat_unsigned (uint x + uint y))"
    "helper_gvec_usadd16 = gvec3 (\<lambda>x y :: u16. sat_unsigned (uint x + uint y))"
    "helper_gvec_usadd32 = gvec3 (\<lambda>x y :: u32. sat_unsigned (uint x + uint y))"
    "helper_gvec_usadd64 = gvec3 (\<lambda>x y :: u64. sat_unsigned (uint x + uint y))"
    "helper_gvec_ussub8 = gvec3 (\<lambda>x y :: u8. sat_unsigned (uint x - uint y))"
    "helper_gvec_ussub16 = gvec3 (\<lambda>x y :: u16. sat_unsigned (uint x - uint y))"
    "helper_gvec_ussub32 = gvec3 (\<lambda>x y :: u32. sat_unsigned (uint x - uint y))"
    "helper_gvec_ussub64 = gvec3 (\<lambda>x y :: u64. sat_unsigned (uint x - uint y))"
    unfolding helper_gvec_usadd8_def helper_gvec_usadd16_def helper_gvec_usadd32_def helper_gvec_usadd64_def
      helper_gvec_ussub8_def helper_gvec_ussub16_def helper_gvec_ussub32_def helper_gvec_ussub64_def
      wide_limits a8 a16 s8 s16 usadd_lane ussub_lane by (rule refl)+
qed

text \<open>
  C12. The saturating helpers compute, in every lane of every width, the exact signed or unsigned sum or difference
  clamped to the range of the lane, whatever trick they use to notice the overflow; they clear the rest of the
  vector and change nothing else.
\<close>

theorem gvec_saturating:
  assumes "source_ok desc d a" "source_ok desc d b"
  shows "vec_result d desc m (\<lambda>k. sat_signed (sint (lane m a k :: u8) + sint (lane m b k :: u8)) :: u8) (helper_gvec_ssadd8 d a b desc m)
    \<and> vec_result d desc m (\<lambda>k. sat_signed (sint (lane m a k :: u16) + sint (lane m b k :: u16)) :: u16) (helper_gvec_ssadd16 d a b desc m)
    \<and> vec_result d desc m (\<lambda>k. sat_signed (sint (lane m a k :: u32) + sint (lane m b k :: u32)) :: u32) (helper_gvec_ssadd32 d a b desc m)
    \<and> vec_result d desc m (\<lambda>k. sat_signed (sint (lane m a k :: u64) + sint (lane m b k :: u64)) :: u64) (helper_gvec_ssadd64 d a b desc m)
    \<and> vec_result d desc m (\<lambda>k. sat_signed (sint (lane m a k :: u8) - sint (lane m b k :: u8)) :: u8) (helper_gvec_sssub8 d a b desc m)
    \<and> vec_result d desc m (\<lambda>k. sat_signed (sint (lane m a k :: u16) - sint (lane m b k :: u16)) :: u16) (helper_gvec_sssub16 d a b desc m)
    \<and> vec_result d desc m (\<lambda>k. sat_signed (sint (lane m a k :: u32) - sint (lane m b k :: u32)) :: u32) (helper_gvec_sssub32 d a b desc m)
    \<and> vec_result d desc m (\<lambda>k. sat_signed (sint (lane m a k :: u64) - sint (lane m b k :: u64)) :: u64) (helper_gvec_sssub64 d a b desc m)
    \<and> vec_result d desc m (\<lambda>k. sat_unsigned (uint (lane m a k :: u8) + uint (lane m b k :: u8)) :: u8) (helper_gvec_usadd8 d a b desc m)
    \<and> vec_result d desc m (\<lambda>k. sat_unsigned (uint (lane m a k :: u16) + uint (lane m b k :: u16)) :: u16) (helper_gvec_usadd16 d a b desc m)
    \<and> vec_result d desc m (\<lambda>k. sat_unsigned (uint (lane m a k :: u32) + uint (lane m b k :: u32)) :: u32) (helper_gvec_usadd32 d a b desc m)
    \<and> vec_result d desc m (\<lambda>k. sat_unsigned (uint (lane m a k :: u64) + uint (lane m b k :: u64)) :: u64) (helper_gvec_usadd64 d a b desc m)
    \<and> vec_result d desc m (\<lambda>k. sat_unsigned (uint (lane m a k :: u8) - uint (lane m b k :: u8)) :: u8) (helper_gvec_ussub8 d a b desc m)
    \<and> vec_result d desc m (\<lambda>k. sat_unsigned (uint (lane m a k :: u16) - uint (lane m b k :: u16)) :: u16) (helper_gvec_ussub16 d a b desc m)
    \<and> vec_result d desc m (\<lambda>k. sat_unsigned (uint (lane m a k :: u32) - uint (lane m b k :: u32)) :: u32) (helper_gvec_ussub32 d a b desc m)
    \<and> vec_result d desc m (\<lambda>k. sat_unsigned (uint (lane m a k :: u64) - uint (lane m b k :: u64)) :: u64) (helper_gvec_ussub64 d a b desc m)"
  unfolding saturating_eq saturating_unsigned_eq by (intro conjI) (rule gvec3_resultI; (rule refl assms widths))+

theorem gvec_saturating_witness:
  "vec_result 16 0 (\<lambda>_. 0x7F) (\<lambda>k. sat_signed (254 :: int) :: u8) (helper_gvec_ssadd8 16 0 8 0 (\<lambda>_. 0x7F))"
proof -
  have s: "source_ok 0 16 0" "source_ok 0 16 8" by (simp_all add: apart_def oprsz_of_def)
  have l: "lane (\<lambda>_. 0x7F) p k = (0x7F :: u8)" for p k by (simp add: load_le_def)
  have "sint (0x7F :: u8) + sint (0x7F :: u8) = 254" by simp
  then show ?thesis using conjunct1 [OF gvec_saturating [OF s, of "\<lambda>_. 0x7F"]] by (simp only: l)
qed


section \<open>Comparison and selection\<close>

lemma bitsel_result:
  assumes "source_ok desc d a" "source_ok desc d b" "source_ok desc d c"
  shows "vec_result d desc m (\<lambda>k. (lane m b k AND lane m a k) OR (lane m c k AND NOT (lane m a k)) :: u64)
    (helper_gvec_bitsel d a b c desc m)"
proof -
  let ?h = "\<lambda>i m. (load_le m (b + i) AND load_le m (a + i)) OR (load_le m (c + i) AND NOT (load_le m (a + i))) :: u64"
  have "vec_result d desc m (\<lambda>k. ?h (bytes TYPE(64) * k) m)
      (clear_high d (oprsz_of desc) desc (vec_loop (bytes TYPE(64)) (\<lambda>i m. store_le (?h i m) (d + i) m) 0 (oprsz_of desc) m))"
  proof (rule vec_result_loop [OF widths(4,8)], intro allI impI)
    fix k m' assume k: "k < oprsz_of desc div bytes TYPE(64)" "\<forall>x. x < d \<or> d + bytes TYPE(64) * k \<le> x \<longrightarrow> m' x = m x"
    note l = load_unwritten [OF _ lane_inside [OF widths(4,8) k(1)] k(2)]
    show "?h (bytes TYPE(64) * k) m' = ?h (bytes TYPE(64) * k) m" by (simp only: l [OF assms(1)] l [OF assms(2)] l [OF assms(3)])
  qed
  moreover have "bytes TYPE(64) = 8" by simp
  ultimately show ?thesis by (simp only: helper_gvec_bitsel_def simd_sizes Option.bind.bind_lunit Let_def)
qed

lemma byte_ops:
  "byte_of (\<lambda>k. f k AND g k) i = byte_of f i AND byte_of g i"
  "byte_of (\<lambda>k. f k OR g k) i = byte_of f i OR byte_of g i"
  by (auto simp: byte_of_def bit_eq_iff bit_simps)

lemma byte_not: "8 dvd LENGTH('a) \<Longrightarrow> byte_of (\<lambda>k. NOT (f k)) i = NOT (byte_of f i)" for f :: "nat \<Rightarrow> 'a::len word"
proof (rule bit_word_eqI)
  fix n assume d: "8 dvd LENGTH('a)" and "n < LENGTH(8)"
  then have n: "n < 8" by simp
  have "i mod bytes TYPE('a) < bytes TYPE('a)" using bytes_pos [OF d] by simp
  then have "8 * (i mod bytes TYPE('a)) + n < LENGTH('a)" using n d by (auto elim!: dvdE)
  then show "bit (byte_of (\<lambda>k. NOT (f k)) i) n = bit (NOT (byte_of f i)) n" using n by (simp add: byte_of_def bit_simps)
qed

lemma byte_cmp: "8 dvd LENGTH('a) \<Longrightarrow> byte_of (\<lambda>k. cmp_lane c (f k) (g k)) i =
    (if c (f (i div bytes TYPE('a))) (g (i div bytes TYPE('a))) then NOT 0 else 0)" for f g :: "nat \<Rightarrow> 'a::len word"
  using byte_not [of "\<lambda>_. 0 :: 'a word" i] by (simp add: byte_of_def cmp_lane_def)

text \<open>Selecting by a comparison chooses whole lanes.\<close>

lemma select_by_comparison:
  fixes c :: "'a::len word \<Rightarrow> 'a word \<Rightarrow> bool"
  assumes lw: "8 dvd LENGTH('a)" "LENGTH('a) dvd 64"
    and t: "disjoint_vecs desc t a" "disjoint_vecs desc t b" and d: "source_ok desc d t" "source_ok desc d a" "source_ok desc d b"
  shows "\<exists>m1 m2 m3. gvec3 (cmp_lane c) t a b desc m = Some m1 \<and> helper_gvec_bitsel d t a b desc m1 = Some m2
    \<and> gvec3 (\<lambda>x y. if c x y then x else y) d a b desc m = Some m3
    \<and> (\<forall>x. d \<le> x \<and> x < d + max (oprsz_of desc) (maxsz_of desc) \<longrightarrow> m2 x = m3 x)"
proof -
  have ta: "source_ok desc t a" "source_ok desc t b" using t by (auto simp: disjoint_vecs_def apart_def Let_def)
  from gvec3_resultI [OF refl ta lw, of m "cmp_lane c"] obtain m1 where
    m1: "gvec3 (cmp_lane c) t a b desc m = Some m1" "vec_bytes t desc m (byte_of (\<lambda>k. cmp_lane c (lane m a k) (lane m b k))) (Some m1)"
    unfolding vec_result_bytes [OF lw] by (auto simp: vec_bytes_def)
  from bitsel_result [OF d, of m1] obtain m2 where
    m2: "helper_gvec_bitsel d t a b desc m1 = Some m2"
      "vec_bytes d desc m1 (byte_of (\<lambda>k. (lane m1 a k AND lane m1 t k) OR (lane m1 b k AND NOT (lane m1 t k)) :: u64)) (Some m2)"
    unfolding vec_result_bytes [OF widths(4,8)] by (auto simp: vec_bytes_def)
  from gvec3_resultI [OF refl d(2,3) lw, of m "\<lambda>x y. if c x y then x else y"] obtain m3 where
    m3: "gvec3 (\<lambda>x y. if c x y then x else y) d a b desc m = Some m3"
      "vec_bytes d desc m (byte_of (\<lambda>k. if c (lane m a k) (lane m b k) then lane m a k else lane m b k :: 'a word)) (Some m3)"
    unfolding vec_result_bytes [OF lw] by (auto simp: vec_bytes_def)
  have "byte_of (\<lambda>k. (lane m1 a k AND lane m1 t k) OR (lane m1 b k AND NOT (lane m1 t k)) :: u64) i
      = byte_of (\<lambda>k. if c (lane m a k) (lane m b k) then lane m a k else lane m b k :: 'a word) i" if i: "i < oprsz_of desc" for i
  proof -
    have mt: "m1 (t + i) = (if c (lane m a (i div bytes TYPE('a))) (lane m b (i div bytes TYPE('a))) then NOT 0 else 0)"
      using m1(2) i unfolding vec_bytes_def byte_cmp [OF lw(1)] by (metis option.inject)
    have "byte_of (\<lambda>k. (lane m1 a k AND lane m1 t k) OR (lane m1 b k AND NOT (lane m1 t k)) :: u64) i
        = (m (a + i) AND m1 (t + i)) OR (m (b + i) AND NOT (m1 (t + i)))"
      by (simp only: byte_ops byte_not [OF widths(4)] byte_of_lanes [OF widths(4)] vec_bytes_other [OF m1(2) t(1) i] vec_bytes_other [OF m1(2) t(2) i])
    also have "\<dots> = byte_of (\<lambda>k. if c (lane m a k) (lane m b k) then lane m a k else lane m b k :: 'a word) i"
      unfolding mt using byte_of_lanes [OF lw(1), of m a i] byte_of_lanes [OF lw(1), of m b i] by (auto simp: byte_of_def)
    finally show ?thesis .
  qed
  then show ?thesis using vec_bytes_agree [OF m2(2) m3(2)] m1(1) m2(1) m3(1) by blast
qed


text \<open>
  Comparing into a temporary vector and selecting by it gives what the direct operation gives.
\<close>

definition selects :: "vec3 \<Rightarrow> vec3 \<Rightarrow> nat \<Rightarrow> nat \<Rightarrow> nat \<Rightarrow> nat \<Rightarrow> u32 \<Rightarrow> host_mem \<Rightarrow> bool" where
  "selects cmp direct d t a b desc m \<longleftrightarrow>
     (\<exists>m1 m2 m3. cmp t a b desc m = Some m1 \<and> helper_gvec_bitsel d t a b desc m1 = Some m2
       \<and> direct d a b desc m = Some m3
       \<and> (\<forall>x. d \<le> x \<and> x < d + max (oprsz_of desc) (maxsz_of desc) \<longrightarrow> m2 x = m3 x))"

text \<open>
  C13. For signed and unsigned lanes of every width, comparing two vectors into a temporary one that is apart
  from them and selecting between them by its bits, which \<open>gvec_bitsel\<close> does in 64-bit lanes, leaves in the destination what
  the minimum helper leaves there, the cleared rest included.
\<close>

theorem gvec_select_min:
  assumes "disjoint_vecs desc t a" "disjoint_vecs desc t b" "source_ok desc d t" "source_ok desc d a" "source_ok desc d b"
  shows "selects helper_gvec_lt8 helper_gvec_smin8 d t a b desc m
    \<and> selects helper_gvec_lt16 helper_gvec_smin16 d t a b desc m
    \<and> selects helper_gvec_lt32 helper_gvec_smin32 d t a b desc m
    \<and> selects helper_gvec_lt64 helper_gvec_smin64 d t a b desc m
    \<and> selects helper_gvec_ltu8 helper_gvec_umin8 d t a b desc m
    \<and> selects helper_gvec_ltu16 helper_gvec_umin16 d t a b desc m
    \<and> selects helper_gvec_ltu32 helper_gvec_umin32 d t a b desc m
    \<and> selects helper_gvec_ltu64 helper_gvec_umin64 d t a b desc m"
  unfolding selects_def helper_gvec_lt8_def helper_gvec_lt16_def helper_gvec_lt32_def helper_gvec_lt64_def
    helper_gvec_ltu8_def helper_gvec_ltu16_def helper_gvec_ltu32_def helper_gvec_ltu64_def
    helper_gvec_smin8_def helper_gvec_smin16_def helper_gvec_smin32_def helper_gvec_smin64_def
    helper_gvec_umin8_def helper_gvec_umin16_def helper_gvec_umin32_def helper_gvec_umin64_def
  by (intro conjI) (rule select_by_comparison; (rule widths assms))+

theorem gvec_select_min_witness:
  "selects helper_gvec_lt16 helper_gvec_smin16 16 24 0 8 0 (\<lambda>x. of_nat x)"
  by (rule gvec_select_min [of 0 24 0 8 16, THEN conjunct2, THEN conjunct1])
    (simp_all add: disjoint_vecs_def apart_def oprsz_of_def maxsz_of_def)


section \<open>Scalar operands\<close>

lemma gvec2_resultI:
  fixes f :: "'a::len word \<Rightarrow> 'a word"
  assumes "g = (\<lambda>k. f (lane m a k))" "source_ok desc d a" "8 dvd LENGTH('a)" "LENGTH('a) dvd 64"
  shows "vec_result d desc m g (gvec2 f d a desc m)"
  unfolding assms(1) by (rule gvec2_result) (rule assms)+

text \<open>Duplicating zero only clears the vector, which is the same result.\<close>

lemma vec_result_zero: "8 dvd LENGTH('a) \<Longrightarrow> LENGTH('a) dvd 64 \<Longrightarrow> vec_result d desc m (\<lambda>_. 0 :: 'a::len word) r \<longleftrightarrow>
    vec_bytes d desc m (\<lambda>_. 0) r"
  by (subst vec_result_bytes) (simp_all add: byte_of_def [abs_def])

lemma clear_all: "oprsz_of desc \<le> maxsz_of desc \<Longrightarrow> vec_bytes d desc m (\<lambda>_. 0) (clear_high d 0 desc m)"
  using clear_high_eq [of d 0 desc m] by (auto simp: vec_bytes_def)

lemma dup_result:
  assumes "oprsz_of desc \<le> maxsz_of desc"
  shows "vec_result d desc m (\<lambda>_. c :: u32) (helper_gvec_dup32 d desc c m)"
    and "vec_result d desc m (\<lambda>_. e :: u64) (helper_gvec_dup64 d desc e m)"
proof -
  show "vec_result d desc m (\<lambda>_. c :: u32) (helper_gvec_dup32 d desc c m)"
  proof (cases "c = 0")
    case True
    then show ?thesis using clear_all [OF assms, of d m] by (simp add: helper_gvec_dup32_def simd_sizes vec_result_zero)
  next
    case False
    then show ?thesis using vec_result_loop [OF widths(3,7), of desc d m "\<lambda>_ _. c"]
      by (simp add: helper_gvec_dup32_def simd_sizes)
  qed
  show "vec_result d desc m (\<lambda>_. e :: u64) (helper_gvec_dup64 d desc e m)"
  proof (cases "e = 0")
    case True
    then show ?thesis using clear_all [OF assms, of d m] by (simp add: helper_gvec_dup64_def simd_sizes vec_result_zero)
  next
    case False
    then show ?thesis using vec_result_loop [OF widths(4,8), of desc d m "\<lambda>_ _. e"]
      by (simp add: helper_gvec_dup64_def simd_sizes)
  qed
qed

text \<open>A byte or a half word repeated over a word by a multiplication.\<close>

lemma repeat_bit:
  fixes c :: u32
  shows "n < 32 \<Longrightarrow> bit (0x01010101 * (c AND 0xff)) n = bit c (n mod 8)"
    and "n < 32 \<Longrightarrow> bit (0x00010001 * (c AND 0xffff)) n = bit c (n mod 16)"
proof -
  define e f where "e = take_bit 8 c" and "f = take_bit 16 c"
  have m: "c AND 0xff = e" "c AND 0xffff = f" by (simp_all add: e_def f_def take_bit_eq_mask mask_eq_exp_minus_1)
  have "0x01010101 * e = ((e + push_bit 8 e) + push_bit 16 e) + push_bit 24 e" by (simp add: push_bit_eq_mult algebra_simps)
  also have "e + push_bit 8 e = e OR push_bit 8 e"
    by (rule disjunctive_add) (auto simp: e_def bit_simps)
  also have "(e OR push_bit 8 e) + push_bit 16 e = (e OR push_bit 8 e) OR push_bit 16 e"
    by (rule disjunctive_add) (auto simp: e_def bit_simps)
  also have "((e OR push_bit 8 e) OR push_bit 16 e) + push_bit 24 e = ((e OR push_bit 8 e) OR push_bit 16 e) OR push_bit 24 e"
    by (rule disjunctive_add) (auto simp: e_def bit_simps)
  finally have "list_all (\<lambda>n. bit (0x01010101 * (c AND 0xff)) n = bit c (n mod 8)) [0..<32]"
    unfolding m e_def by (simp only: bit_ops bit_take_bit_iff) (simp add: upt_start flip: numeral_2_eq_2)
  then show "n < 32 \<Longrightarrow> bit (0x01010101 * (c AND 0xff)) n = bit c (n mod 8)" by (rule all_bits)
  have "0x00010001 * f = f + push_bit 16 f" by (simp add: push_bit_eq_mult algebra_simps)
  also have "f + push_bit 16 f = f OR push_bit 16 f"
    by (rule disjunctive_add) (auto simp: f_def bit_simps)
  finally have "list_all (\<lambda>n. bit (0x00010001 * (c AND 0xffff)) n = bit c (n mod 16)) [0..<32]"
    unfolding m f_def by (simp only: bit_ops bit_take_bit_iff) (simp add: upt_start flip: numeral_2_eq_2)
  then show "n < 32 \<Longrightarrow> bit (0x00010001 * (c AND 0xffff)) n = bit c (n mod 16)" by (rule all_bits)
qed

lemma repeat_byte:
  fixes c :: u32
  shows "byte_of (\<lambda>_. 0x01010101 * (c AND 0xff)) i = byte_of (\<lambda>_. ucast c :: u8) i"
    and "byte_of (\<lambda>_. 0x00010001 * (c AND 0xffff)) i = byte_of (\<lambda>_. ucast c :: u16) i"
proof -
  have i: "i mod 4 < 4" "i mod 2 < 2" by simp_all
  have lt: "8 * (i mod 4) + n < 32" if "n < 8" for n using i(1) that by linarith
  have "(8 * (i mod 4) + n) mod 16 = 8 * (i mod 2) + n" if "n < 8" for n
  proof -
    have "i mod 4 mod 2 = i mod 2" by (simp add: mod_mod_cancel)
    then have "i mod 4 = 2 * (i mod 4 div 2) + i mod 2" by (metis mult_div_mod_eq)
    then have "8 * (i mod 4) + n = 16 * (i mod 4 div 2) + (8 * (i mod 2) + n)" by linarith
    moreover have "8 * (i mod 2) + n < 16" using i(2) that by linarith
    ultimately show ?thesis by (metis mod_less mod_mult_self4)
  qed
  note m16 = this
  have lt16: "8 * (i mod 2) + n < 16" if "n < 8" for n using i(2) that by linarith
  have m8: "(8 * (i mod 4) + n) mod 8 = n" if "n < 8" for n using that by simp
  show "byte_of (\<lambda>_. 0x01010101 * (c AND 0xff)) i = byte_of (\<lambda>_. ucast c :: u8) i"
    by (rule bit_word_eqI) (simp add: byte_of_def bit_ucast_iff bit_drop_bit_eq repeat_bit lt m8)
  show "byte_of (\<lambda>_. 0x00010001 * (c AND 0xffff)) i = byte_of (\<lambda>_. ucast c :: u16) i"
    by (rule bit_word_eqI) (simp add: byte_of_def bit_ucast_iff bit_drop_bit_eq repeat_bit lt lt16 m16)
qed

lemma dup_narrow_result:
  assumes "oprsz_of desc \<le> maxsz_of desc"
  shows "vec_result d desc m (\<lambda>_. ucast c :: u8) (helper_gvec_dup8 d desc c m)"
    and "vec_result d desc m (\<lambda>_. ucast c :: u16) (helper_gvec_dup16 d desc c m)"
  using dup_result(1) [OF assms] unfolding vec_result_bytes [OF widths(1,5)] vec_result_bytes [OF widths(2,6)]
    vec_result_bytes [OF widths(3,7)] helper_gvec_dup8_def helper_gvec_dup16_def
  by (simp_all only: repeat_byte [abs_def, symmetric])


lemma vec_result_agree:
  fixes g g' :: "nat \<Rightarrow> 'a::len word"
  assumes lw: "8 dvd LENGTH('a)" "LENGTH('a) dvd 64"
    and r: "vec_result d desc m g (Some m1)" "vec_result d desc m' g' (Some m2)"
    and g: "\<And>k. k < oprsz_of desc div bytes TYPE('a) \<Longrightarrow> g k = g' k"
    and x: "d \<le> x" "x < d + max (oprsz_of desc) (maxsz_of desc)"
  shows "m1 x = m2 x"
proof (rule vec_bytes_agree [OF r [unfolded vec_result_bytes [OF lw]] _ x])
  fix i assume "i < oprsz_of desc"
  then have "i div bytes TYPE('a) < oprsz_of desc div bytes TYPE('a)"
    using lane_width(1) [OF lw] lane_width(2) [OF lw, of desc] by (simp add: div_less_iff_less_mult mult.commute)
  then show "byte_of g i = byte_of g' i" by (simp add: byte_of_def g)
qed

text \<open>Duplicating a scalar into a temporary vector and operating on it gives what the scalar operation gives.\<close>

definition scalar_is_dup :: "(host_mem \<Rightarrow> host_mem option) \<Rightarrow> (host_mem \<Rightarrow> host_mem option) \<Rightarrow> (host_mem \<Rightarrow> host_mem option)
    \<Rightarrow> nat \<Rightarrow> u32 \<Rightarrow> host_mem \<Rightarrow> bool" where
  "scalar_is_dup dup vec scalar d desc m \<longleftrightarrow>
     (\<exists>m1 m2 m3. dup m = Some m1 \<and> vec m1 = Some m2 \<and> scalar m = Some m3
       \<and> (\<forall>x. d \<le> x \<and> x < d + max (oprsz_of desc) (maxsz_of desc) \<longrightarrow> m2 x = m3 x))"

lemma scalar_dup:
  fixes f :: "'a::len word \<Rightarrow> 'a word \<Rightarrow> 'a word"
  assumes dup: "vec_result t desc m (\<lambda>_. v) (dup m)"
    and lw: "8 dvd LENGTH('a)" "LENGTH('a) dvd 64"
    and t: "disjoint_vecs desc t a" and d: "source_ok desc d t" "source_ok desc d a"
  shows "scalar_is_dup dup (gvec3 f d a t desc) (gvec2 (\<lambda>x. f x v) d a desc) d desc m"
proof -
  obtain m1 where m1: "dup m = Some m1" "vec_result t desc m (\<lambda>_. v) (Some m1)" using dup by (auto simp: vec_result_def)
  obtain m2 where m2: "gvec3 f d a t desc m1 = Some m2" "vec_result d desc m1 (\<lambda>k. f (lane m1 a k) (lane m1 t k)) (Some m2)"
    using gvec3_resultI [OF refl d(2,1) lw, of m1 f] by (auto simp: vec_result_def)
  obtain m3 where m3: "gvec2 (\<lambda>x. f x v) d a desc m = Some m3" "vec_result d desc m (\<lambda>k. f (lane m a k) v) (Some m3)"
    using gvec2_resultI [OF refl d(2) lw, of m "\<lambda>x. f x v"] by (auto simp: vec_result_def)
  have "f (lane m1 a k) (lane m1 t k) = f (lane m a k) v" if k: "k < oprsz_of desc div bytes TYPE('a)" for k
  proof -
    have "lane m1 a k = (lane m a k :: 'a word)"
    proof (rule load_le_cong)
      fix x assume x: "a + bytes TYPE('a) * k \<le> x" "x < a + bytes TYPE('a) * k + bytes TYPE('a)"
      then have "x = a + (x - a)" "x - a < oprsz_of desc" using lane_inside [OF lw k] by auto
      then show "m1 x = m x" using vec_bytes_other [OF m1(2) [unfolded vec_result_bytes [OF lw]] t] by metis
    qed
    moreover have "lane m1 t k = v" using m1(2) k unfolding vec_result_def by (metis option.inject)
    ultimately show ?thesis by (simp only:)
  qed
  then have "\<forall>x. d \<le> x \<and> x < d + max (oprsz_of desc) (maxsz_of desc) \<longrightarrow> m2 x = m3 x"
    using vec_result_agree [OF lw m2(2) m3(2)] by blast
  then show ?thesis unfolding scalar_is_dup_def using m1(1) m2(1) m3(1) by blast
qed

text \<open>
  Every helper with a scalar operand leaves in the destination what the vector helper leaves there when the
  scalar was first duplicated into a temporary vector, also for the scalar zero, which the duplication treats apart.
\<close>

theorem gvec_scalar_is_dup:
  assumes "oprsz_of desc \<le> maxsz_of desc" "disjoint_vecs desc t a" "source_ok desc d t" "source_ok desc d a"
  shows "scalar_is_dup (helper_gvec_dup8 t desc (ucast c)) (helper_gvec_add8 d a t desc) (helper_gvec_adds8 d a c desc) d desc m
    \<and> scalar_is_dup (helper_gvec_dup16 t desc (ucast c)) (helper_gvec_add16 d a t desc) (helper_gvec_adds16 d a c desc) d desc m
    \<and> scalar_is_dup (helper_gvec_dup32 t desc (ucast c)) (helper_gvec_add32 d a t desc) (helper_gvec_adds32 d a c desc) d desc m
    \<and> scalar_is_dup (helper_gvec_dup64 t desc c) (helper_gvec_add64 d a t desc) (helper_gvec_adds64 d a c desc) d desc m
    \<and> scalar_is_dup (helper_gvec_dup8 t desc (ucast c)) (helper_gvec_sub8 d a t desc) (helper_gvec_subs8 d a c desc) d desc m
    \<and> scalar_is_dup (helper_gvec_dup16 t desc (ucast c)) (helper_gvec_sub16 d a t desc) (helper_gvec_subs16 d a c desc) d desc m
    \<and> scalar_is_dup (helper_gvec_dup32 t desc (ucast c)) (helper_gvec_sub32 d a t desc) (helper_gvec_subs32 d a c desc) d desc m
    \<and> scalar_is_dup (helper_gvec_dup64 t desc c) (helper_gvec_sub64 d a t desc) (helper_gvec_subs64 d a c desc) d desc m
    \<and> scalar_is_dup (helper_gvec_dup8 t desc (ucast c)) (helper_gvec_mul8 d a t desc) (helper_gvec_muls8 d a c desc) d desc m
    \<and> scalar_is_dup (helper_gvec_dup16 t desc (ucast c)) (helper_gvec_mul16 d a t desc) (helper_gvec_muls16 d a c desc) d desc m
    \<and> scalar_is_dup (helper_gvec_dup32 t desc (ucast c)) (helper_gvec_mul32 d a t desc) (helper_gvec_muls32 d a c desc) d desc m
    \<and> scalar_is_dup (helper_gvec_dup64 t desc c) (helper_gvec_mul64 d a t desc) (helper_gvec_muls64 d a c desc) d desc m
    \<and> scalar_is_dup (helper_gvec_dup64 t desc c) (helper_gvec_and d a t desc) (helper_gvec_ands d a c desc) d desc m
    \<and> scalar_is_dup (helper_gvec_dup64 t desc c) (helper_gvec_xor d a t desc) (helper_gvec_xors d a c desc) d desc m
    \<and> scalar_is_dup (helper_gvec_dup64 t desc c) (helper_gvec_or d a t desc) (helper_gvec_ors d a c desc) d desc m"
proof -
  have u: "ucast (ucast c :: u32) = (ucast c :: u8)" "ucast (ucast c :: u32) = (ucast c :: u16)" by (auto simp: bit_eq_iff bit_simps)
  note r8 = dup_narrow_result(1) [OF assms(1), of t m "ucast c", unfolded u]
    and r16 = dup_narrow_result(2) [OF assms(1), of t m "ucast c", unfolded u]
    and r32 = dup_result(1) [OF assms(1), of t m "ucast c"] and r64 = dup_result(2) [OF assms(1), of t m c]
  note d8 = scalar_dup [where dup = "helper_gvec_dup8 t desc (ucast c)", OF r8 widths(1,5) assms(2-4)]
  note d16 = scalar_dup [where dup = "helper_gvec_dup16 t desc (ucast c)", OF r16 widths(2,6) assms(2-4)]
  note d32 = scalar_dup [where dup = "helper_gvec_dup32 t desc (ucast c)", OF r32 widths(3,7) assms(2-4)]
  note d64 = scalar_dup [where dup = "helper_gvec_dup64 t desc c", OF r64 widths(4,8) assms(2-4)]
  show ?thesis
    unfolding helper_gvec_add8_def helper_gvec_adds8_def helper_gvec_add16_def helper_gvec_adds16_def helper_gvec_add32_def helper_gvec_adds32_def helper_gvec_add64_def helper_gvec_adds64_def
    helper_gvec_sub8_def helper_gvec_subs8_def helper_gvec_sub16_def helper_gvec_subs16_def helper_gvec_sub32_def helper_gvec_subs32_def helper_gvec_sub64_def helper_gvec_subs64_def
    helper_gvec_mul8_def helper_gvec_muls8_def helper_gvec_mul16_def helper_gvec_muls16_def helper_gvec_mul32_def helper_gvec_muls32_def helper_gvec_mul64_def helper_gvec_muls64_def
      helper_gvec_and_def helper_gvec_ands_def helper_gvec_xor_def helper_gvec_xors_def helper_gvec_or_def helper_gvec_ors_def
    by (intro conjI) (rule d8 d16
      d32 d64)+
qed

theorem gvec_scalar_is_dup_witness:
  "scalar_is_dup (helper_gvec_dup8 24 0 (ucast (0x103 :: u64))) (helper_gvec_add8 16 0 24 0) (helper_gvec_adds8 16 0 0x103 0) 16 0 (\<lambda>x. of_nat x)"
  by (rule gvec_scalar_is_dup [of 0 24 0 16 "0x103", THEN conjunct1])
    (simp_all add: disjoint_vecs_def apart_def oprsz_of_def maxsz_of_def)


section \<open>Shifts\<close>

lemma low_bits: "unat (y AND 7) = unat y mod 8" "unat (z AND 15) = unat z mod 16" "unat (v AND 31) = unat v mod 32" "unat (w AND 63) = unat w mod 64"
  for y :: u8 and z :: u16 and v :: u32 and w :: u64
proof -
  have "(7 :: u8) = mask 3" "(15 :: u16) = mask 4" "(31 :: u32) = mask 5" "(63 :: u64) = mask 6" by (simp_all add: mask_eq_exp_minus_1)
  then show "unat (y AND 7) = unat y mod 8" "unat (z AND 15) = unat z mod 16" "unat (v AND 31) = unat v mod 32" "unat (w AND 63) = unat w mod 64"
    by (simp_all only: take_bit_eq_mask [symmetric] unsigned_take_bit_eq) (simp_all add: take_bit_eq_mod)
qed

lemma arithmetic_shift: "signed_drop_bit n x = word_of_int (sint x div 2 ^ n)" for x :: "'a::len word"
proof -
  have "word_of_int (sint (signed_drop_bit n x)) = signed_drop_bit n x" by simp
  then show ?thesis by (simp only: sint_signed_drop_bit_eq drop_bit_eq_div)
qed

lemmas shift_lanes = push_bit_eq_mult drop_bit_eq_div arithmetic_shift low_bits Let_def

text \<open>A shift by an immediate: the amount must be defined for the promoted lane.\<close>

definition immediate_shift :: "int \<Rightarrow> (nat \<Rightarrow> nat \<Rightarrow> 'a::len word) \<Rightarrow> host_mem option \<Rightarrow> nat \<Rightarrow> u32 \<Rightarrow> host_mem \<Rightarrow> int \<Rightarrow> bool" where
  "immediate_shift lim g r d desc m s \<longleftrightarrow>
     (if 0 \<le> s \<and> s < lim then vec_result d desc m (g (nat s)) r else r = None)"

lemma gvec_shift_result:
  fixes f :: "nat \<Rightarrow> 'a::len word \<Rightarrow> 'a word"
  assumes "g = (\<lambda>n k. f n (lane m a k))" "simd_data desc = Some s" "source_ok desc d a" "8 dvd LENGTH('a)" "LENGTH('a) dvd 64"
  shows "immediate_shift lim g (gvec_shift lim f d a desc m) d desc m s"
  using gvec2_resultI [OF refl assms(3-5), of m "f (nat s)"] by (simp add: immediate_shift_def gvec_shift_def assms(1,2))

text \<open>
  C14. The shifts by a vector shift every lane by the value of the corresponding lane modulo the width, as a
  multiplication or a division by a power of two, signed for the arithmetic ones; the shifts by an immediate do so for
  every amount that C defines and are undefined for the others.
\<close>

theorem gvec_shifts:
  assumes "source_ok desc d a" "source_ok desc d b" "simd_data desc = Some s"
  shows "vec_result d desc m (\<lambda>k. (lane m a k :: u8) * 2 ^ (unat (lane m b k :: u8) mod 8)) (helper_gvec_shl8v d a b desc m)
    \<and> vec_result d desc m (\<lambda>k. (lane m a k :: u16) * 2 ^ (unat (lane m b k :: u16) mod 16)) (helper_gvec_shl16v d a b desc m)
    \<and> vec_result d desc m (\<lambda>k. (lane m a k :: u32) * 2 ^ (unat (lane m b k :: u32) mod 32)) (helper_gvec_shl32v d a b desc m)
    \<and> vec_result d desc m (\<lambda>k. (lane m a k :: u64) * 2 ^ (unat (lane m b k :: u64) mod 64)) (helper_gvec_shl64v d a b desc m)
    \<and> vec_result d desc m (\<lambda>k. (lane m a k :: u8) div 2 ^ (unat (lane m b k :: u8) mod 8)) (helper_gvec_shr8v d a b desc m)
    \<and> vec_result d desc m (\<lambda>k. (lane m a k :: u16) div 2 ^ (unat (lane m b k :: u16) mod 16)) (helper_gvec_shr16v d a b desc m)
    \<and> vec_result d desc m (\<lambda>k. (lane m a k :: u32) div 2 ^ (unat (lane m b k :: u32) mod 32)) (helper_gvec_shr32v d a b desc m)
    \<and> vec_result d desc m (\<lambda>k. (lane m a k :: u64) div 2 ^ (unat (lane m b k :: u64) mod 64)) (helper_gvec_shr64v d a b desc m)
    \<and> vec_result d desc m (\<lambda>k. word_of_int (sint (lane m a k :: u8) div 2 ^ (unat (lane m b k :: u8) mod 8)) :: u8) (helper_gvec_sar8v d a b desc m)
    \<and> vec_result d desc m (\<lambda>k. word_of_int (sint (lane m a k :: u16) div 2 ^ (unat (lane m b k :: u16) mod 16)) :: u16) (helper_gvec_sar16v d a b desc m)
    \<and> vec_result d desc m (\<lambda>k. word_of_int (sint (lane m a k :: u32) div 2 ^ (unat (lane m b k :: u32) mod 32)) :: u32) (helper_gvec_sar32v d a b desc m)
    \<and> vec_result d desc m (\<lambda>k. word_of_int (sint (lane m a k :: u64) div 2 ^ (unat (lane m b k :: u64) mod 64)) :: u64) (helper_gvec_sar64v d a b desc m)
    \<and> immediate_shift 32 (\<lambda>n k. (lane m a k :: u8) * 2 ^ n) (helper_gvec_shl8i d a desc m) d desc m s
    \<and> immediate_shift 32 (\<lambda>n k. (lane m a k :: u16) * 2 ^ n) (helper_gvec_shl16i d a desc m) d desc m s
    \<and> immediate_shift 32 (\<lambda>n k. (lane m a k :: u32) * 2 ^ n) (helper_gvec_shl32i d a desc m) d desc m s
    \<and> immediate_shift 64 (\<lambda>n k. (lane m a k :: u64) * 2 ^ n) (helper_gvec_shl64i d a desc m) d desc m s
    \<and> immediate_shift 32 (\<lambda>n k. (lane m a k :: u8) div 2 ^ n) (helper_gvec_shr8i d a desc m) d desc m s
    \<and> immediate_shift 32 (\<lambda>n k. (lane m a k :: u16) div 2 ^ n) (helper_gvec_shr16i d a desc m) d desc m s
    \<and> immediate_shift 32 (\<lambda>n k. (lane m a k :: u32) div 2 ^ n) (helper_gvec_shr32i d a desc m) d desc m s
    \<and> immediate_shift 64 (\<lambda>n k. (lane m a k :: u64) div 2 ^ n) (helper_gvec_shr64i d a desc m) d desc m s
    \<and> immediate_shift 32 (\<lambda>n k. word_of_int (sint (lane m a k :: u8) div 2 ^ n) :: u8) (helper_gvec_sar8i d a desc m) d desc m s
    \<and> immediate_shift 32 (\<lambda>n k. word_of_int (sint (lane m a k :: u16) div 2 ^ n) :: u16) (helper_gvec_sar16i d a desc m) d desc m s
    \<and> immediate_shift 32 (\<lambda>n k. word_of_int (sint (lane m a k :: u32) div 2 ^ n) :: u32) (helper_gvec_sar32i d a desc m) d desc m s
    \<and> immediate_shift 64 (\<lambda>n k. word_of_int (sint (lane m a k :: u64) div 2 ^ n) :: u64) (helper_gvec_sar64i d a desc m) d desc m s"
  unfolding helper_gvec_shl8v_def helper_gvec_shl8i_def helper_gvec_shl16v_def helper_gvec_shl16i_def helper_gvec_shl32v_def helper_gvec_shl32i_def helper_gvec_shl64v_def helper_gvec_shl64i_def
    helper_gvec_shr8v_def helper_gvec_shr8i_def helper_gvec_shr16v_def helper_gvec_shr16i_def helper_gvec_shr32v_def helper_gvec_shr32i_def helper_gvec_shr64v_def helper_gvec_shr64i_def
    helper_gvec_sar8v_def helper_gvec_sar8i_def helper_gvec_sar16v_def helper_gvec_sar16i_def helper_gvec_sar32v_def helper_gvec_sar32i_def helper_gvec_sar64v_def helper_gvec_sar64i_def shift_lanes
  by (intro conjI) (((rule gvec3_resultI; (rule refl assms widths)) | (rule gvec_shift_result; (rule refl assms widths))))+

theorem gvec_shifts_witness:
  "vec_result 16 0x400 (\<lambda>x. of_nat x) (\<lambda>k. (lane (\<lambda>x. of_nat x) 0 k :: u8) * 2 ^ (unat (lane (\<lambda>x. of_nat x) 8 k :: u8) mod 8))
    (helper_gvec_shl8v 16 0 8 0x400 (\<lambda>x. of_nat x))"
proof -
  have s: "simd_data 0x400 = Some 1" by (simp add: simd_data_def sextract_eq)
  have "source_ok 0x400 16 0" "source_ok 0x400 16 8" by (simp_all add: apart_def oprsz_of_def)
  from conjunct1 [OF gvec_shifts [OF this s]] show ?thesis by (simp only: add_0)
qed

section \<open>Descriptors\<close>

lemma size_field:
  fixes v :: u32
  assumes "v mod 8 = 0" "0 < v" "v \<le> 256"
  shows "unat ((take_bit 5 (v div 8 - 1) + 1) * 8) = unat v"
proof -
  have u: "unat v mod 8 = 0" "0 < unat v" "unat v \<le> 256"
    using assms by (simp_all add: word_le_nat_alt word_less_nat_alt unat_mod flip: unat_eq_0)
  then obtain q where q: "unat v = 8 * q" "0 < q" "q \<le> 32" by (auto elim!: dvdE simp: mod_eq_0_iff_dvd)
  have "unat (v div 8) = q" using q by (simp add: unat_div)
  moreover then have "v div 8 \<noteq> 0" using q(2) by auto
  ultimately have "unat (v div 8 - 1) = q - 1" by (simp add: unat_minus_one)
  then have "unat (take_bit 5 (v div 8 - 1)) = q - 1" using q(2,3) by (simp only: unsigned_take_bit_eq) (simp add: take_bit_eq_mod)
  then show ?thesis using q field_size [of "v div 8 - 1"] by (simp add: distrib_right)
qed

text \<open>
  C15. A descriptor made from sizes that are multiples of 8 up to 256 and from data of 22 bits gives the sizes and the data
  back. The assertions also admit the operation size 0, which is read back as 256.
\<close>

theorem simd_desc_roundtrip:
  assumes "maxsz mod 8 = 0" "0 < maxsz" "maxsz \<le> 256" "sextract32 data 0 22 = Some data"
  shows "(oprsz mod 8 = 0 \<and> 0 < oprsz \<and> oprsz \<le> 256 \<longrightarrow>
      (\<exists>desc. simd_desc oprsz maxsz data = Some desc \<and> simd_oprsz desc = Some (unat oprsz)
        \<and> simd_maxsz desc = Some (unat maxsz) \<and> simd_data desc = Some (sint data)))
    \<and> (\<exists>desc. simd_desc 0 maxsz data = Some desc \<and> simd_oprsz desc = Some 256)"
proof -
  define mk where "mk z = field_set 10 22 data (field_set 5 5 (maxsz div 8 - 1) (field_set 0 5 (z div 8 - 1) 0))" for z :: u32
  have mk: "simd_desc z maxsz data = Some (mk z)" if "z mod 8 = 0" "z \<le> 256" for z
    using assms that by (simp add: simd_desc_def deposit_eq mk_def)
  have f: "take_bit 5 (mk z) = take_bit 5 (z div 8 - 1)" "take_bit 5 (drop_bit 5 (mk z)) = take_bit 5 (maxsz div 8 - 1)" for z
    using take_drop_field [of 0 5 "z div 8 - 1" "0 :: u32"] take_drop_field [of 5 5 "maxsz div 8 - 1" "field_set 0 5 (z div 8 - 1) 0"]
    by (simp_all add: mk_def take_drop_other [of 0 5, simplified] take_drop_other)
  have d: "signed_take_bit 21 (drop_bit 10 (mk z)) = data" for z
    using signed_field_set [of 22 10 data] assms(4) by (simp add: mk_def sextract_eq)
  have sz: "simd_oprsz (mk z) = Some (unat ((take_bit 5 (z div 8 - 1) + 1) * 8))"
      "simd_maxsz (mk z) = Some (unat maxsz)" "simd_data (mk z) = Some (sint data)" for z
    using size_field [OF assms(1-3)] by (simp_all add: simd_oprsz_def simd_maxsz_def simd_data_def extract_eq sextract_eq f d)
  have "unat ((take_bit 5 (0 div 8 - 1 :: u32) + 1) * 8) = 256" by (simp add: mask_eq_exp_minus_1)
  then have "simd_desc 0 maxsz data = Some (mk 0) \<and> simd_oprsz (mk 0) = Some 256" using mk [of 0] sz(1) [of 0] by simp
  moreover have "simd_desc oprsz maxsz data = Some (mk oprsz) \<and> simd_oprsz (mk oprsz) = Some (unat oprsz)
      \<and> simd_maxsz (mk oprsz) = Some (unat maxsz) \<and> simd_data (mk oprsz) = Some (sint data)"
    if "oprsz mod 8 = 0 \<and> 0 < oprsz \<and> oprsz \<le> 256" using that mk [of oprsz] sz [of oprsz] size_field [of oprsz] by simp
  ultimately show ?thesis by (intro conjI impI) (rule exI [of _ "mk oprsz"], simp, rule exI [of _ "mk 0"], simp)
qed


theorem simd_desc_roundtrip_witness:
  "(\<exists>desc. simd_desc 16 32 5 = Some desc \<and> simd_oprsz desc = Some 16 \<and> simd_maxsz desc = Some 32 \<and> simd_data desc = Some 5)
    \<and> (\<exists>desc. simd_desc 0 32 5 = Some desc \<and> simd_oprsz desc = Some 256)"
proof -
  have "sextract32 5 0 22 = Some 5" by (simp add: sextract_eq)
  then show ?thesis using simd_desc_roundtrip [of 32 5 16] by simp
qed

end
