(* ===== verification/Spec2Isabelle.thy ===== *)
theory Spec2Isabelle
  imports Emu_Run Host_Utils Phys_Api Mem_Props Bit_Api Gvec_Api
begin

text \<open>
  \<^bold>\<open>The program.\<close> The repository is a runtime for Android programs on emulated ARM64 processors. A loader and a
  facade for system calls and JNI, in Rust, run guest code on one of two engines, dynarmic and unicorn. Unicorn, under
  \<open>src/unicorn\<close>, is a C library: \<open>uc.c\<close> holds the programming interface, \<open>qemu/softmmu/memory.c\<close> the memory topology,
  \<open>qemu/accel/tcg\<close> and \<open>qemu/tcg\<close> the translation and execution of code, \<open>qemu/util\<close> and \<open>qemu/include/qemu\<close> the
  utilities. This development is about the C library: what its interface promises for memory, hooks and
  runs, and the utilities below it.

  \<^bold>\<open>How the parts interact.\<close> A caller maps memory; the engine keeps an array of blocks and a tree of memory regions,
  from which a flat view is rendered that resolves addresses; for the execution of code the ranges of the view are entered
  into a radix tree of pages. A caller installs hooks, which are entered into one
  linked list per kind; translated code calls the helpers that walk these lists. A run installs a hook of its own
  to count instructions, and removes deleted hooks when it ends. Deleting a hook invalidates the code that was
  translated with it.

  \<^bold>\<open>Theories and sources.\<close>

  \<^item> \<open>Uc_Prelude\<close>: names of the machine integers, the error codes \<open>uc_err\<close>, rule collections, generic lemmas.
  \<^item> \<open>Ulist\<close>: \<open>list.c\<close>, on an explicit heap of nodes. The locale \<open>linked_list\<close> is what the hook registry uses of it.
  \<^item> \<open>Hooks\<close>, \<open>Hook_Api\<close>: \<open>uc_hook_add\<close>, \<open>uc_hook_del\<close>, \<open>clear_deleted_hooks\<close> and the functions below them in \<open>uc.c\<close>. The
    state is the record \<open>hook_state\<close>: the heap of hooks with their reference counts, the lists, the counters.
  \<^item> \<open>Emu\<close>, \<open>Emu_Props\<close>, \<open>Emu_Run\<close>: \<open>uc_emu_start\<close>, \<open>uc_emu_stop\<close>, \<open>hook_count_cb\<close>, \<open>helper_uc_tracecode\<close> and the hooked
    regions of \<open>uc_priv.h\<close>. The state extends \<open>hook_state\<close> by the fields of \<open>uc_struct\<close> for runs.
  \<^item> \<open>Mem_Map\<close>: the memory interface of \<open>uc.c\<close>, from \<open>uc_mem_map\<close> to \<open>uc_mem_regions\<close>, with \<open>split_region\<close> and
    \<open>split_mmio_region\<close>. \<open>Mem_Inv\<close>, \<open>Mem_Layout\<close>, \<open>Mem_Rw\<close>, \<open>Mem_Split\<close>, \<open>Mem_Api\<close> hold the invariant \<open>mem_inv\<close> and the lemmas,
    \<open>Mem_Props\<close> the properties. The locale \<open>whole_unmap\<close> is what the splitting functions use of the unmapping, which in
    turn calls them; it is interpreted for every depth of that recursion.
  \<^item> \<open>Flat_View\<close>, \<open>Flat_Render\<close>, \<open>Flat_Simplify\<close>, \<open>Flat_Api\<close>: the topology code of \<open>memory.c\<close>: address ranges, rendering,
    merging, updates, lookup, lists of subregions. \<open>Bsearch\<close> is the binary search of the C library with the locale
    \<open>binary_search\<close>, interpreted for the lookup in a flat view.
  \<^item> \<open>Phys_Map\<close>: the dispatch of physical addresses of \<open>exec.c\<close>: the radix tree of pages with \<open>phys_page_set\<close>,
    \<open>phys_page_compact\<close> and \<open>phys_page_find\<close>, the sections and subpages that \<open>flatview_add_to_dispatch\<close> registers, the lookup
    with its cache of the last section and \<open>address_space_translate_internal\<close>. The state is the record \<open>dispatch\<close>, with
    the nodes as a heap of entries that are written in place. \<open>Phys_Set\<close> and \<open>Phys_Compact\<close> are about the tree,
    \<open>Phys_Dispatch\<close>, \<open>Phys_Register\<close> and \<open>Phys_Add\<close> about the sections and subpages in it, \<open>Phys_Api\<close> holds the properties.
  \<^item> \<open>Int128\<close>, \<open>Host_Utils\<close>: the portable 128-bit integers of \<open>int128.h\<close> and the multiplications, divisions and shifts of
    \<open>host-utils.c\<close>.
  \<^item> \<open>Bitops\<close>, \<open>Bit_Props\<close>: bit fields, permutations, counts and roundings of \<open>bitops.h\<close>, \<open>host-utils.h\<close> and \<open>bswap.h\<close>.
  \<^item> \<open>Bitmap\<close>, \<open>Bitmap_Bulk\<close>: the operations of \<open>bitops.c\<close>, \<open>bitmap.h\<close> and \<open>bitmap.c\<close>, on functions from word numbers to
    words; \<open>Bitmap_Search\<close>, \<open>Bitmap_Props\<close>, \<open>Bitmap_Range\<close>, \<open>Bitmap_Area\<close>, \<open>Bit_Api\<close> hold their lemmas and properties.
  \<^item> \<open>Gvec\<close>: every helper of \<open>accel/tcg/tcg-runtime-gvec.c\<close> and the descriptors of vector operations, on the bytes of the host's
    memory; \<open>Gvec_Props\<close> and \<open>Gvec_Api\<close> hold the lemmas and properties.
  \<^item> This theory: the memory interface and the topology code together.

  \<^bold>\<open>Conventions.\<close> Structures are records, C integers are words of their width, or naturals and integers with the
  wrap-around written out. \<open>None\<close> is undefined behaviour, a failed assertion or a loop that does not end. What
  the allocator returns, the callbacks of the user and the execution of translated code are arguments; fresh
  addresses are hypotheses of the theorems that need them.

  \<^bold>\<open>What is shown.\<close>

  \<^item> Memory: which requests succeed and with which code the others are refused; how mapping, unmapping and protecting
    change every address, across splits of regions; that a write is read back; that the list of regions is exact. The
    two theorems on regions at the top of the address space and on MMIO regions state what the splitting does there.
  \<^item> Topology: the rendered view shows at every address what the tree resolves to; merging, skipping of containers and
    in-place updates do not change that; lookups and update passes are right; and the lookup that the memory
    interface relies on is the one that rendering its blocks gives.
  \<^item> Dispatch: the structure built from a view resolves every address, in any sequence of lookups, to what the region tree has
    there; setting pages changes exactly these pages and never runs out of the reserved nodes; compaction changes no
    lookup; a translated access to RAM stays in its region. The first of these is for views with fewer ranges than a fifth
    of the page size, since section numbers must stay below the page size and a range may take five sections.
  \<^item> Hooks: the registry invariant (reference counts are the numbers of list entries, counters those of live hooks) is kept;
    a deleted hook is disabled at once and freed once; adding, deleting and clearing restores the registry.
  \<^item> Runs: the helper calls exactly the live hooks of an address in order; the count limit stops a run; levels are balanced;
    deleting a hook invalidates every block translated with it; errors run no code.
  \<^item> Arithmetic: the 128-bit operations refine integers; multiplication and division are exact, with the inputs where the
    portable division misses an overflow.
  \<^item> Bits and bitmaps: round trips of fields, roundings, searches against a scan bit by bit, bitmaps as sets, ranges and their
    atomic variants, termination and result of the search for a free area, copies at an offset.
  \<^item> Vectors: saturating lanes against clamped integers, shifts against powers of two, minima against comparison and
    selection, scalars against duplicated vectors, the round trip of descriptors. The helpers work lane by lane for
    sources that are the destination or do not meet it, which is the rule of \<open>check_overlap_2\<close>.

  \<^bold>\<open>Loops.\<close> Loops over data are recursive functions with a measure. Loops over linked structures and the search for a
  free area are partial functions, shown to return. The mutual recursion of unmapping and splitting is
  unrolled to depth two: a split unmaps one whole region, which never splits again, so that a
  third level is never entered. Setting pages descends by levels down to 0; the recursion of the compaction is
  bounded by the number of levels, which is the depth of the tree.

  \<^bold>\<open>Not modelled.\<close> The Rust runtime and dynarmic; the guest translators, TCG, its back ends and the execution loop; floating
  point; the TLB, RAM blocks, IOMMU regions, the accesses to subpages and the freeing of dispatch structures; the GLib substitutes; contexts, snapshots and \<open>uc_ctl\<close>; the timer
  thread and all concurrency, so that the atomic bitmap operations are run by one thread; in \<open>memory.c\<close> reference
  counts, listeners and the dispatch of accesses; of the utilities the rotations, population counts, the little-endian
  conversion and the allocation of bitmaps. They emit or run machine code, or only pass data to the host, or have no caller among
  the modelled parts.
\<close>

section \<open>Memory interface and memory topology\<close>

text \<open>
  The memory interface of \<open>uc.c\<close> keeps its own array of blocks; address lookup goes through
  the flat view that \<open>memory.c\<close> renders from the region tree. The tree of an engine at
  snapshot level 0 is the system memory, initialised by \<open>memory_map_init\<close> to the full 64-bit
  space, with one subregion per block, in the order in which they were added.
\<close>

definition region_of :: "mem_block \<Rightarrow> mem_region" where
  "region_of b = MemoryRegion \<lparr>mr_id = mb_id b, mr_addr = mb_addr b, mr_size = uint (mb_size b),
     mr_enabled = True, mr_terminates = True, mr_readonly = mb_readonly b, mr_priority = 0\<rparr> []"

definition system_memory :: "nat \<Rightarrow> mem_region list \<Rightarrow> mem_region" where
  "system_memory i subs = MemoryRegion \<lparr>mr_id = i, mr_addr = 0, mr_size = 2 ^ 64,
     mr_enabled = True, mr_terminates = False, mr_readonly = False, mr_priority = 0\<rparr> subs"

lemma resolve_subs_first:
  "resolve_subs subs base ro a = None \<and> (\<forall>s\<in>set subs. resolve s base ro a = None)
   \<or> (\<exists>s\<in>set subs. resolve_subs subs base ro a = resolve s base ro a \<and> resolve s base ro a \<noteq> None)"
  by (induction subs) (auto simp del: resolve.simps split: option.splits)

lemma resolve_region_of:
  "resolve (region_of b) 0 False (uint x) =
    (if in_blk b x then Some (mb_id b, uint (x - mb_addr b), mb_readonly b) else None)"
  by (auto simp: region_of_def in_blk_def b_lo_def b_hi_def uint_sub_plain)

lemma resolve_blocks:
  assumes inv: "mem_inv st" and subs: "set subs = region_of ` set (mapped_blocks st)"
  shows "resolve_subs subs 0 False (uint x) =
    map_option (\<lambda>b. (mb_id b, uint (x - mb_addr b), mb_readonly b)) (memory_mapping st x)"
proof -
  consider "resolve_subs subs 0 False (uint x) = None" "\<forall>b\<in>set (mapped_blocks st). \<not> in_blk b x"
    | b where "b \<in> set (mapped_blocks st)" "in_blk b x"
      "resolve_subs subs 0 False (uint x) = Some (mb_id b, uint (x - mb_addr b), mb_readonly b)"
    using resolve_subs_first [of subs 0 False "uint x"] by (auto simp: subs resolve_region_of split: if_splits)
  then show ?thesis
  proof cases
    case 1
    then have "memory_mapping st x = None" by (auto simp: mapping_None [OF inv] in_blk_def)
    with 1 show ?thesis by simp
  next
    case 2
    then have "memory_mapping st x = Some b" by (simp add: mapping_Some [OF inv] in_blk_def)
    with 2 show ?thesis by simp
  qed
qed

text \<open>
  C5. The address lookup that the memory interface relies on is the one the topology code
  computes: rendering the tree of the mapped blocks, added in any order, gives a view that
  shows at every address the block that contains it, with the offset into the block and its
  read-only flag, and nothing at unmapped addresses.
\<close>

theorem memory_mapping_topology:
  assumes inv: "mem_inv st" and subs: "set subs = region_of ` set (mapped_blocks st)"
  shows "\<exists>view. generate_memory_topology (Some (system_memory i subs)) = Some view
    \<and> (\<forall>x. view_at (fv_ranges view) (uint x) =
          map_option (\<lambda>b. (mb_id b, uint (x - mb_addr b), mb_readonly b)) (memory_mapping st x))"
proof -
  have "region_ok (system_memory i subs)"
    using u64_range by (auto simp: system_memory_def subs region_of_def intro: less_imp_le)
  then obtain view where v: "generate_memory_topology (Some (system_memory i subs)) = Some view"
    "\<forall>a. 0 \<le> a \<and> a < 2 ^ 64 \<longrightarrow> view_at (fv_ranges view) a = resolve (system_memory i subs) 0 False a"
    using topology_correct [of "Some (system_memory i subs)"] by (auto simp: resolve_root_def)
  have "resolve (system_memory i subs) 0 False (uint x) = resolve_subs subs 0 False (uint x)" for x :: u64
    using u64_range [of x] by (simp add: system_memory_def split: option.split)
  then show ?thesis using v u64_range by (auto simp: resolve_blocks [OF inv subs])
qed

theorem memory_mapping_topology_witness:
  "\<exists>view. generate_memory_topology (Some (system_memory 9 (map region_of [sample_io, sample_rom, sample_ram]))) = Some view
     \<and> view_at (fv_ranges view) 0x9004 = Some (2, 0x1004, False)
     \<and> view_at (fv_ranges view) 0x4000 = None"
proof -
  let ?subs = "map region_of [sample_io, sample_rom, sample_ram]"
  have "set ?subs = region_of ` set (mapped_blocks (sample_mem sample_blocks))" by (auto simp: sample_mem_def)
  then obtain view where v: "generate_memory_topology (Some (system_memory 9 ?subs)) = Some view"
    "\<forall>x. view_at (fv_ranges view) (uint x) =
      map_option (\<lambda>b. (mb_id b, uint (x - mb_addr b), mb_readonly b)) (memory_mapping (sample_mem sample_blocks) x)"
    using memory_mapping_topology [OF sample_mem_inv] by blast
  have "mb_id sample_io = 2" "mb_addr sample_io = 0x8000" "\<not> mb_readonly sample_io" by (simp_all add: sample_io_def)
  then have "view_at (fv_ranges view) 0x9004 = Some (2, 0x1004, False)" "view_at (fv_ranges view) 0x4000 = None"
    using v(2) [rule_format, of "0x9004"] v(2) [rule_format, of "0x4000"]
    by (simp_all add: sample_lookup)
  with v(1) show ?thesis by blast
qed

end
